theory Spec2Isabelle
  imports Complex_Main "HOL-Library.Multiset"
begin

section \<open>The host runtime and the key comparator\<close>

text \<open>
  The container stores opaque handles of the embedding runtime. A key handle is a value of
  the type variable \<open>'k\<close>, and equality of handles is identity of the objects (the C test
  \<^verbatim>\<open>a == b\<close>). A value handle is a value of \<open>'v\<close>; the code never inspects it.
  Reference counts are not part of the model.

  Everything \<^verbatim>\<open>compare_keys\<close> asks of the runtime is a field of the record \<open>host\<close>:
  the exact type tests, the double of a float object, \<^verbatim>\<open>PyUnicode_Compare\<close> and
  \<^verbatim>\<open>PyObject_RichCompareBool\<close>. A call of the runtime that reports an error is \<open>None\<close>.

  The errors of the container are the kinds of the specification. Six more stand for
  what the C code does outside them: \<open>Overflow\<close> is the \<^verbatim>\<open>OverflowError\<close> of the argument
  parser for an integer outside the C type it is read into; \<open>AllocationFailed\<close>, where the allocator
  refuses a request for its size; \<open>NullPointer\<close>, where the code would follow or store a
  pointer that is \<^verbatim>\<open>NULL\<close>; \<open>UnsetFrame\<close>, where the range iterator goes on with a frame
  whose index was never written; \<open>NullResult\<close>, where \<^verbatim>\<open>popitem\<close> returns \<^verbatim>\<open>NULL\<close> with no
  exception set; and \<open>KeyDisappeared\<close> is the \<^verbatim>\<open>RuntimeError\<close> of \<^verbatim>\<open>popitem\<close>.
\<close>

datatype error =
    ComparisonError
  | KeyNotFound
  | IndexEmpty
  | IndexUnsupported
  | BadArgument
  | Overflow
  | AllocationFailed
  | NullPointer
  | UnsetFrame
  | NullResult
  | KeyDisappeared

datatype cmp_op = Py_LT | Py_EQ

datatype pydouble = DNaN | DNegInf | DFin real | DPosInf

fun double_less :: "pydouble \<Rightarrow> pydouble \<Rightarrow> bool" where
  "double_less DNaN _ = False"
| "double_less _ DNaN = False"
| "double_less DNegInf DNegInf = False"
| "double_less DNegInf _ = True"
| "double_less (DFin a) (DFin b) = (a < b)"
| "double_less (DFin a) DPosInf = True"
| "double_less (DFin a) DNegInf = False"
| "double_less DPosInf _ = False"

record 'k host =
  PyLong_CheckExact :: "'k \<Rightarrow> bool"
  PyFloat_CheckExact :: "'k \<Rightarrow> bool"
  PyFloat_AS_DOUBLE :: "'k \<Rightarrow> pydouble"
  PyUnicode_CheckExact :: "'k \<Rightarrow> bool"
  PyUnicode_Compare :: "'k \<Rightarrow> 'k \<Rightarrow> int option"
  PyObject_RichCompareBool :: "'k \<Rightarrow> 'k \<Rightarrow> cmp_op \<Rightarrow> bool option"

text \<open>\<^verbatim>\<open>compare_keys\<close>: \<open>-1\<close>, \<open>0\<close>, \<open>1\<close> for less, equal, greater, and \<open>-2\<close> on error.\<close>

definition compare_keys :: "'k host \<Rightarrow> 'k \<Rightarrow> 'k \<Rightarrow> int" where
  "compare_keys h a b =
    (if a = b then 0
     else if PyLong_CheckExact h a \<and> PyLong_CheckExact h b then
       (case PyObject_RichCompareBool h a b Py_LT of
          None \<Rightarrow> 0
        | Some True \<Rightarrow> - 1
        | Some False \<Rightarrow>
            (case PyObject_RichCompareBool h a b Py_EQ of
               None \<Rightarrow> 0
             | Some True \<Rightarrow> 0
             | Some False \<Rightarrow> 1))
     else if PyFloat_CheckExact h a \<and> PyFloat_CheckExact h b
             \<and> PyFloat_AS_DOUBLE h a \<noteq> DNaN \<and> PyFloat_AS_DOUBLE h b \<noteq> DNaN then
       (if double_less (PyFloat_AS_DOUBLE h a) (PyFloat_AS_DOUBLE h b) then - 1
        else if double_less (PyFloat_AS_DOUBLE h b) (PyFloat_AS_DOUBLE h a) then 1
        else 0)
     else if PyUnicode_CheckExact h a \<and> PyUnicode_CheckExact h b then
       (case PyUnicode_Compare h a b of
          None \<Rightarrow> - 2
        | Some c \<Rightarrow> (if c < 0 then - 1 else if c > 0 then 1 else 0))
     else
       (case PyObject_RichCompareBool h a b Py_EQ of
          None \<Rightarrow> - 2
        | Some True \<Rightarrow> 0
        | Some False \<Rightarrow>
            (case PyObject_RichCompareBool h a b Py_LT of
               None \<Rightarrow> - 2
             | Some True \<Rightarrow> - 1
             | Some False \<Rightarrow> 1)))"

text \<open>
  The hosts of the theorems about sorted content. The handles carry a linear order, and
  the primitives of the runtime never fail and agree with it: the rich comparison answers
  \<open>a < b\<close> and \<open>a = b\<close>, the doubles of two exact floats that are not NaN are ordered as
  the handles are, and \<^verbatim>\<open>PyUnicode_Compare\<close> of two exact strings has the sign of their
  order. Two distinct handles are never equal: every key object is present once.
\<close>

definition host_order :: "('k::linorder) host \<Rightarrow> bool" where
  "host_order h \<longleftrightarrow>
     (\<forall>a b. PyObject_RichCompareBool h a b Py_LT = Some (a < b)
            \<and> PyObject_RichCompareBool h a b Py_EQ = Some (a = b))
     \<and> (\<forall>a b. PyFloat_CheckExact h a \<and> PyFloat_CheckExact h b
               \<and> PyFloat_AS_DOUBLE h a \<noteq> DNaN \<and> PyFloat_AS_DOUBLE h b \<noteq> DNaN
            \<longrightarrow> (double_less (PyFloat_AS_DOUBLE h a) (PyFloat_AS_DOUBLE h b) \<longleftrightarrow> a < b))
     \<and> (\<forall>a b. PyUnicode_CheckExact h a \<and> PyUnicode_CheckExact h b
            \<longrightarrow> (\<exists>c. PyUnicode_Compare h a b = Some c \<and> (c < 0 \<longleftrightarrow> a < b)
                       \<and> (0 < c \<longleftrightarrow> b < a)))"

text \<open>
  What such a host makes of \<^verbatim>\<open>compare_keys\<close>: the three-way comparison of the order.
\<close>

definition total_host :: "('k::linorder) host \<Rightarrow> bool" where
  "total_host h \<longleftrightarrow>
     (\<forall>a b. compare_keys h a b = (if a = b then 0 else if a < b then - 1 else 1))"

section \<open>Nodes\<close>

text \<open>
  A node of the C code has a counter \<^verbatim>\<open>n_keys\<close> and three arrays of fixed capacity, of
  which the slots \<^verbatim>\<open>keys[0..n_keys)\<close>, \<^verbatim>\<open>values[0..n_keys)\<close> and, in an internal node,
  \<^verbatim>\<open>children[0..n_keys]\<close> are live; every other slot holds \<^verbatim>\<open>NULL\<close>. The model keeps
  the live slots as lists, so \<^verbatim>\<open>n_keys\<close> is the length of \<open>keys\<close>, a \<^verbatim>\<open>memmove\<close> or
  \<^verbatim>\<open>memcpy\<close> of a range is \<open>take\<close> and \<open>drop\<close>, and a child slot past the end of
  \<open>children\<close> is a \<^verbatim>\<open>NULL\<close> pointer. A node owns its children, so a child is a
  subterm. The field \<^verbatim>\<open>order\<close> is an \<^verbatim>\<open>int\<close> of C that is at least 2 in every node the
  code makes; the model stores it as a natural number.
\<close>

datatype ('k, 'v) node =
  Node (order: nat) (is_leaf: bool) (keys: "'k list") (vals: "'v list")
       (children: "('k, 'v) node list")

abbreviation n_keys :: "('k, 'v) node \<Rightarrow> nat" where
  "n_keys node \<equiv> length (keys node)"

text \<open>
  The arithmetic of \<^verbatim>\<open>btreenode_new\<close>. The capacities \<^verbatim>\<open>2 * order - 1\<close> and \<^verbatim>\<open>2 * order\<close>
  are computed in \<^verbatim>\<open>int\<close>, 32 bits wide, and the byte counts in \<^verbatim>\<open>size_t\<close>, 64 bits wide,
  with pointers of 8 bytes. \<open>c_int\<close> is the value an integer has as an \<^verbatim>\<open>int\<close>, taken to
  wrap around (C leaves the overflow of \<^verbatim>\<open>int\<close> undefined), and \<open>c_size_t\<close> the value it
  has as a \<^verbatim>\<open>size_t\<close>. \<^verbatim>\<open>PyMem_Calloc\<close> refuses a request above \<^verbatim>\<open>PY_SSIZE_T_MAX\<close> bytes:
  \<open>AllocationFailed\<close>. The C code then releases the new node, whose array pointers were
  never written. A request within that bound is taken to succeed, here and wherever an
  operation on a tree makes a node.
\<close>

definition c_int :: "int \<Rightarrow> int" where
  "c_int x = (x + 2147483648) mod 4294967296 - 2147483648"

definition c_size_t :: "int \<Rightarrow> int" where
  "c_size_t x = x mod 18446744073709551616"

definition PY_SSIZE_T_MAX :: int where
  "PY_SSIZE_T_MAX = 9223372036854775807"

definition btreenode_new :: "int \<Rightarrow> bool \<Rightarrow> error + ('k, 'v) node" where
  "btreenode_new ord leaf =
    (let max_keys = c_int (c_int (2 * ord) - 1);
         max_children = c_int (2 * ord);
         keys_size = c_size_t (c_size_t max_keys * 8);
         values_size = c_size_t (c_size_t max_keys * 8);
         children_size = (if leaf then 0 else c_size_t (c_size_t max_children * 8));
         total = c_size_t (keys_size + values_size + children_size)
     in if total > PY_SSIZE_T_MAX then Inl AllocationFailed
        else Inr (Node (nat ord) leaf [] [] []))"

record ('k, 'v) PyBTreeObject =
  bt_root :: "('k, 'v) node"
  bt_size :: int
  bt_order :: nat

subsection \<open>Binary search in a node\<close>

function node_search_loop ::
  "'k host \<Rightarrow> 'k list \<Rightarrow> 'k \<Rightarrow> int \<Rightarrow> int \<Rightarrow> error + (nat \<times> bool)" where
  "node_search_loop h ks key low high =
    (if low \<le> high then
       (let mid = low + (high - low) div 2;
            cmp = compare_keys h key (ks ! nat mid)
        in if cmp = - 2 then Inl ComparisonError
           else if cmp = 0 then Inr (nat mid, True)
           else if cmp < 0 then node_search_loop h ks key low (mid - 1)
           else node_search_loop h ks key (mid + 1) high)
     else Inr (nat low, False))"
  by pat_completeness auto
termination
  by (relation "measure (\<lambda>(h, ks, key, low, high). nat (high - low + 1))") auto

declare node_search_loop.simps [simp del]

definition node_search_key :: "'k host \<Rightarrow> ('k, 'v) node \<Rightarrow> 'k \<Rightarrow> error + (nat \<times> bool)" where
  "node_search_key h node key = node_search_loop h (keys node) key 0 (int (n_keys node) - 1)"


subsection \<open>Lookup\<close>

text \<open>
  \<open>nodes\<close> counts the nodes of a subtree; it is the termination measure of every descent.
\<close>

fun nodes :: "('k, 'v) node \<Rightarrow> nat" where
  "nodes (Node ord leaf ks vs cs) = Suc (sum_list (map nodes cs))"

lemma nodes_child: "c \<in> set (children n) \<Longrightarrow> nodes c < nodes n"
  by (cases n) (auto simp: less_Suc_eq_le member_le_sum_list)

lemma nodes_nth: "i < length (children n) \<Longrightarrow> nodes (children n ! i) < nodes n"
  by (rule nodes_child) simp

text \<open>
  \<^verbatim>\<open>node_search\<close>: the value stored under the key, \<open>None\<close> when the key is absent
  (the C function returns \<^verbatim>\<open>NULL\<close> without an exception), the error of the comparator
  otherwise. The loop \<^verbatim>\<open>while (node != NULL)\<close> ends on a \<^verbatim>\<open>NULL\<close> child.
\<close>

function node_search :: "'k host \<Rightarrow> ('k, 'v) node \<Rightarrow> 'k \<Rightarrow> error + 'v option" where
  "node_search h node key =
    (case node_search_key h node key of
       Inl e \<Rightarrow> Inl e
     | Inr (i, found) \<Rightarrow>
         if found then Inr (Some (vals node ! i))
         else if is_leaf node then Inr None
         else if i < length (children node) then node_search h (children node ! i) key
         else Inr None)"
  by pat_completeness auto
termination
  by (relation "measure (\<lambda>(h, node, key). nodes node)") (auto simp: nodes_nth)

declare node_search.simps [simp del]

text \<open>\<^verbatim>\<open>node_contains\<close>: 1 found, 0 not found; the error stands for the result \<open>-1\<close>.\<close>

function node_contains :: "'k host \<Rightarrow> ('k, 'v) node \<Rightarrow> 'k \<Rightarrow> error + int" where
  "node_contains h node key =
    (case node_search_key h node key of
       Inl e \<Rightarrow> Inl e
     | Inr (i, found) \<Rightarrow>
         if found then Inr 1
         else if is_leaf node then Inr 0
         else if i < length (children node) then node_contains h (children node ! i) key
         else Inr 0)"
  by pat_completeness auto
termination
  by (relation "measure (\<lambda>(h, node, key). nodes node)") (auto simp: nodes_nth)

declare node_contains.simps [simp del]

definition PyBTree_Search :: "'k host \<Rightarrow> ('k, 'v) PyBTreeObject \<Rightarrow> 'k \<Rightarrow> error + 'v option" where
  "PyBTree_Search h btree key = node_search h (bt_root btree) key"

definition PyBTree_Contains :: "'k host \<Rightarrow> ('k, 'v) PyBTreeObject \<Rightarrow> 'k \<Rightarrow> error + int" where
  "PyBTree_Contains h btree key = node_contains h (bt_root btree) key"

subsection \<open>Splitting a full child\<close>

text \<open>
  \<^verbatim>\<open>split_child(parent, child_index)\<close>. The new node takes \<^verbatim>\<open>keys[t .. 2t-1)\<close>,
  \<^verbatim>\<open>values[t .. 2t-1)\<close> and, below an internal child, \<^verbatim>\<open>children[t .. 2t)\<close>; the
  full child keeps its first \<open>t - 1\<close> slots; slot \<open>t - 1\<close> goes up into the parent at
  \<open>child_index\<close>, and the new node becomes child \<open>child_index + 1\<close>. Allocation is
  taken to succeed.
\<close>

definition split_child :: "('k, 'v) node \<Rightarrow> nat \<Rightarrow> ('k, 'v) node" where
  "split_child parent child_index =
    (let full_child = children parent ! child_index;
         t = order full_child;
         new_node = Node t (is_leaf full_child)
                      (take (t - 1) (drop t (keys full_child)))
                      (take (t - 1) (drop t (vals full_child)))
                      (if is_leaf full_child then []
                       else take t (drop t (children full_child)));
         left = Node t (is_leaf full_child)
                      (take (t - 1) (keys full_child))
                      (take (t - 1) (vals full_child))
                      (if is_leaf full_child then children full_child
                       else take t (children full_child))
     in Node (order parent) (is_leaf parent)
          (take child_index (keys parent) @ keys full_child ! (t - 1)
             # drop child_index (keys parent))
          (take child_index (vals parent) @ vals full_child ! (t - 1)
             # drop child_index (vals parent))
          (take child_index (children parent) @ left # new_node
             # drop (Suc child_index) (children parent)))"

subsection \<open>Insertion\<close>

text \<open>
  \<^verbatim>\<open>insert_non_full\<close> returns the code of the C function (1: the value of an existing
  key was replaced, 0: a new pair was stored) or the error, together with the node as the
  call leaves it: the C code works in place, so a split done before an error stays.
  Reading the key count of a \<^verbatim>\<open>NULL\<close> child is the error \<open>NullPointer\<close>.
\<close>

lemma nodes_split_child_left:
  "i < length (children n) \<Longrightarrow> nodes (children (split_child n i) ! i) < nodes n"
proof -
  assume i: "i < length (children n)"
  obtain ord leaf ks vs cs where c: "children n ! i = Node ord leaf ks vs cs"
    by (cases "children n ! i")
  have "sum_list (map nodes (take ord cs)) \<le> sum_list (map nodes cs)"
    by (metis append_take_drop_id le_add1 map_append sum_list.append)
  then have "nodes (children (split_child n i) ! i) \<le> nodes (children n ! i)"
    using i c by (simp add: split_child_def Let_def nth_append)
  then show ?thesis using nodes_nth [OF i] by simp
qed

lemma nodes_split_child_right:
  "i < length (children n) \<Longrightarrow> nodes (children (split_child n i) ! Suc i) < nodes n"
proof -
  assume i: "i < length (children n)"
  obtain ord leaf ks vs cs where c: "children n ! i = Node ord leaf ks vs cs"
    by (cases "children n ! i")
  have "sum_list (map nodes (take ord (drop ord cs))) \<le> sum_list (map nodes (drop ord cs))"
    by (metis append_take_drop_id le_add1 map_append sum_list.append)
  also have "\<dots> \<le> sum_list (map nodes cs)"
    by (metis append_take_drop_id le_add2 map_append sum_list.append)
  finally have "nodes (children (split_child n i) ! Suc i) \<le> nodes (children n ! i)"
    using i c by (simp add: split_child_def Let_def nth_append)
  then show ?thesis using nodes_nth [OF i] by simp
qed

function insert_non_full ::
  "'k host \<Rightarrow> ('k, 'v) node \<Rightarrow> 'k \<Rightarrow> 'v \<Rightarrow> (error + int) \<times> ('k, 'v) node" where
  "insert_non_full h node key val =
    (if is_leaf node then
       (case node_search_key h node key of
          Inl e \<Rightarrow> (Inl e, node)
        | Inr (i, found) \<Rightarrow>
            if found then
              (Inr 1, Node (order node) (is_leaf node) (keys node) ((vals node)[i := val])
                        (children node))
            else
              (Inr 0, Node (order node) (is_leaf node)
                        (take i (keys node) @ key # drop i (keys node))
                        (take i (vals node) @ val # drop i (vals node))
                        (children node)))
     else
       (case node_search_key h node key of
          Inl e \<Rightarrow> (Inl e, node)
        | Inr (i, found) \<Rightarrow>
            if found then
              (Inr 1, Node (order node) (is_leaf node) (keys node) ((vals node)[i := val])
                        (children node))
            else if length (children node) \<le> i then (Inl NullPointer, node)
            else if int (n_keys (children node ! i)) = 2 * int (order node) - 1 then
              (let node1 = split_child node i;
                   cmp = compare_keys h key (keys node1 ! i)
               in if cmp = - 2 then (Inl ComparisonError, node1)
                  else if cmp = 0 then
                    (Inr 1, Node (order node1) (is_leaf node1) (keys node1)
                              ((vals node1)[i := val]) (children node1))
                  else if cmp > 0 then
                    (case insert_non_full h (children node1 ! Suc i) key val of
                       (rc, c) \<Rightarrow>
                         (rc, Node (order node1) (is_leaf node1) (keys node1) (vals node1)
                                ((children node1)[Suc i := c])))
                  else
                    (case insert_non_full h (children node1 ! i) key val of
                       (rc, c) \<Rightarrow>
                         (rc, Node (order node1) (is_leaf node1) (keys node1) (vals node1)
                                ((children node1)[i := c]))))
            else
              (case insert_non_full h (children node ! i) key val of
                 (rc, c) \<Rightarrow>
                   (rc, Node (order node) (is_leaf node) (keys node) (vals node)
                          ((children node)[i := c])))))"
  by pat_completeness auto
termination
  by (relation "measure (\<lambda>(h, node, key, val). nodes node)")
     (auto simp: nodes_nth nodes_split_child_left nodes_split_child_right)

declare insert_non_full.simps [simp del]

text \<open>
  \<^verbatim>\<open>PyBTree_Insert\<close>: a full root first becomes the only child of a new internal root
  and is split. The result is the error or success, and the tree as the call leaves it.
\<close>

definition PyBTree_Insert ::
  "'k host \<Rightarrow> ('k, 'v) PyBTreeObject \<Rightarrow> 'k \<Rightarrow> 'v \<Rightarrow> (error + unit) \<times> ('k, 'v) PyBTreeObject"
  where
  "PyBTree_Insert h btree key val =
    (let ord = bt_order btree;
         btree1 =
           (if int (n_keys (bt_root btree)) = 2 * int ord - 1 then
              btree\<lparr>bt_root := split_child (Node ord False [] [] [bt_root btree]) 0\<rparr>
            else btree)
     in case insert_non_full h (bt_root btree1) key val of
          (Inl e, r) \<Rightarrow> (Inl e, btree1\<lparr>bt_root := r\<rparr>)
        | (Inr rc, r) \<Rightarrow>
            (Inr (), btree1\<lparr>bt_root := r,
                             bt_size := (if rc = 0 then bt_size btree1 + 1 else bt_size btree1)\<rparr>))"

section \<open>Deletion\<close>

text \<open>
  The primitives of deletion are \<^verbatim>\<open>void\<close> functions that follow child pointers without
  a test. In the model each returns the changed parent, or \<open>NullPointer\<close> where the C code
  would follow or move a slot outside the live range.
\<close>

function rightmost_leaf :: "('k, 'v) node \<Rightarrow> error + ('k, 'v) node" where
  "rightmost_leaf current =
    (if is_leaf current then Inr current
     else if n_keys current < length (children current)
       then rightmost_leaf (children current ! n_keys current)
     else Inl NullPointer)"
  by pat_completeness auto
termination
  by (relation "measure nodes") (auto simp: nodes_nth)

declare rightmost_leaf.simps [simp del]

function leftmost_leaf :: "('k, 'v) node \<Rightarrow> error + ('k, 'v) node" where
  "leftmost_leaf current =
    (if is_leaf current then Inr current
     else if 0 < length (children current) then leftmost_leaf (children current ! 0)
     else Inl NullPointer)"
  by pat_completeness auto
termination
  by (relation "measure nodes") (auto simp: nodes_nth)

declare leftmost_leaf.simps [simp del]

text \<open>\<^verbatim>\<open>get_predecessor\<close> and \<^verbatim>\<open>get_successor\<close>: the last pair below \<^verbatim>\<open>children[idx]\<close>,
  the first pair below \<^verbatim>\<open>children[idx + 1]\<close>. The caller takes a reference to both
  handles at once, so an empty slot is \<open>NullPointer\<close>.\<close>

definition get_predecessor :: "('k, 'v) node \<Rightarrow> nat \<Rightarrow> error + ('k \<times> 'v)" where
  "get_predecessor node idx =
    (if length (children node) \<le> idx then Inl NullPointer
     else
       (case rightmost_leaf (children node ! idx) of
          Inl e \<Rightarrow> Inl e
        | Inr current \<Rightarrow>
            if n_keys current = 0 \<or> length (vals current) < n_keys current then Inl NullPointer
            else Inr (keys current ! (n_keys current - 1), vals current ! (n_keys current - 1))))"

definition get_successor :: "('k, 'v) node \<Rightarrow> nat \<Rightarrow> error + ('k \<times> 'v)" where
  "get_successor node idx =
    (if length (children node) \<le> Suc idx then Inl NullPointer
     else
       (case leftmost_leaf (children node ! Suc idx) of
          Inl e \<Rightarrow> Inl e
        | Inr current \<Rightarrow>
            if n_keys current = 0 \<or> vals current = [] then Inl NullPointer
            else Inr (keys current ! 0, vals current ! 0)))"

text \<open>
  \<^verbatim>\<open>merge_children(node, idx)\<close>: the separator \<^verbatim>\<open>keys[idx]\<close> is written to slot
  \<open>t - 1\<close> of the left child, the slots of the right sibling follow from slot \<open>t\<close>, and
  the parent closes the gap.
\<close>

definition merge_children :: "('k, 'v) node \<Rightarrow> nat \<Rightarrow> error + ('k, 'v) node" where
  "merge_children node idx =
    (if length (children node) \<le> Suc idx \<or> n_keys node \<le> idx \<or> length (vals node) \<le> idx
     then Inl NullPointer
     else
       (let child = children node ! idx;
            sibling = children node ! Suc idx;
            t = order node;
            child1 = Node (order child) (is_leaf child)
                       (take (t - 1) (keys child) @ keys node ! idx # keys sibling)
                       (take (t - 1) (vals child) @ vals node ! idx # vals sibling)
                       (if is_leaf child then children child
                        else take t (children child) @ children sibling)
        in Inr (Node (order node) (is_leaf node)
                  (take idx (keys node) @ drop (Suc idx) (keys node))
                  (take idx (vals node) @ drop (Suc idx) (vals node))
                  (take idx (children node) @ child1 # drop (idx + 2) (children node)))))"

text \<open>\<^verbatim>\<open>borrow_from_prev(node, idx)\<close>: the last pair of \<^verbatim>\<open>children[idx - 1]\<close> goes up, the
  separator comes down to the front of \<^verbatim>\<open>children[idx]\<close>.\<close>

definition borrow_from_prev :: "('k, 'v) node \<Rightarrow> nat \<Rightarrow> error + ('k, 'v) node" where
  "borrow_from_prev node idx =
    (if idx = 0 \<or> length (children node) \<le> idx \<or> n_keys node < idx \<or> length (vals node) < idx
     then Inl NullPointer
     else
       (let child = children node ! idx;
            sibling = children node ! (idx - 1);
            sn = n_keys sibling
        in if sn = 0 \<or> length (vals sibling) < sn
              \<or> (\<not> is_leaf child \<and> length (children sibling) \<le> sn)
           then Inl NullPointer
           else
             (let child1 = Node (order child) (is_leaf child)
                             (keys node ! (idx - 1) # keys child)
                             (vals node ! (idx - 1) # vals child)
                             (if is_leaf child then children child
                              else children sibling ! sn
                                     # take (Suc (n_keys child)) (children child));
                  sibling1 = Node (order sibling) (is_leaf sibling)
                             (take (sn - 1) (keys sibling))
                             (take (sn - 1) (vals sibling))
                             (if is_leaf child then children sibling
                              else take sn (children sibling))
              in Inr (Node (order node) (is_leaf node)
                        ((keys node)[idx - 1 := keys sibling ! (sn - 1)])
                        ((vals node)[idx - 1 := vals sibling ! (sn - 1)])
                        ((children node)[idx - 1 := sibling1, idx := child1])))))"

text \<open>\<^verbatim>\<open>borrow_from_next(node, idx)\<close>: the first pair of \<^verbatim>\<open>children[idx + 1]\<close> goes up, the
  separator comes down to the end of \<^verbatim>\<open>children[idx]\<close>.\<close>

definition borrow_from_next :: "('k, 'v) node \<Rightarrow> nat \<Rightarrow> error + ('k, 'v) node" where
  "borrow_from_next node idx =
    (if length (children node) \<le> Suc idx \<or> n_keys node \<le> idx \<or> length (vals node) \<le> idx
     then Inl NullPointer
     else
       (let child = children node ! idx;
            sibling = children node ! Suc idx;
            sn = n_keys sibling
        in if sn = 0 \<or> length (vals sibling) = 0
              \<or> (\<not> is_leaf child \<and> children sibling = [])
           then Inl NullPointer
           else
             (let child1 = Node (order child) (is_leaf child)
                             (keys child @ [keys node ! idx])
                             (vals child @ [vals node ! idx])
                             (if is_leaf child then children child
                              else take (Suc (n_keys child)) (children child)
                                     @ [children sibling ! 0]);
                  sibling1 = Node (order sibling) (is_leaf sibling)
                             (drop 1 (keys sibling))
                             (drop 1 (vals sibling))
                             (if is_leaf sibling then children sibling
                              else take sn (drop 1 (children sibling)))
              in Inr (Node (order node) (is_leaf node)
                        ((keys node)[idx := keys sibling ! 0])
                        ((vals node)[idx := vals sibling ! 0])
                        ((children node)[idx := child1, Suc idx := sibling1])))))"

text \<open>\<^verbatim>\<open>fill_child(node, idx)\<close>: borrow from the left sibling if it can spare a key, else
  from the right one, else merge (to the right when there is a right sibling). With
  \<open>idx = 0\<close> and no key in the node the C code calls \<^verbatim>\<open>merge_children(node, -1)\<close>.\<close>

definition fill_child :: "('k, 'v) node \<Rightarrow> nat \<Rightarrow> error + ('k, 'v) node" where
  "fill_child node idx =
    (let t = order node
     in if idx > 0 \<and> length (children node) \<le> idx - 1 then Inl NullPointer
        else if idx > 0 \<and> n_keys (children node ! (idx - 1)) \<ge> t then borrow_from_prev node idx
        else if idx < n_keys node \<and> length (children node) \<le> Suc idx then Inl NullPointer
        else if idx < n_keys node \<and> n_keys (children node ! Suc idx) \<ge> t
          then borrow_from_next node idx
        else if idx < n_keys node then merge_children node idx
        else if idx = 0 then Inl NullPointer
        else merge_children node (idx - 1))"

definition delete_from_leaf :: "('k, 'v) node \<Rightarrow> nat \<Rightarrow> ('k, 'v) node" where
  "delete_from_leaf node idx =
     Node (order node) (is_leaf node)
       (take idx (keys node) @ drop (Suc idx) (keys node))
       (take idx (vals node) @ drop (Suc idx) (vals node))
       (children node)"

text \<open>Every child of the parent a primitive returns is smaller than the parent it was given:
  the recursion of deletion terminates.\<close>

lemma sum_two_le:
  fixes f :: "'a \<Rightarrow> nat"
  assumes "i < j" "j < length xs"
  shows "f (xs ! i) + f (xs ! j) \<le> sum_list (map f xs)"
proof -
  have xs: "xs = take j xs @ xs ! j # drop (Suc j) xs"
    using assms by (simp add: id_take_nth_drop)
  have "xs ! i \<in> set (take j xs)"
    using assms by (metis in_set_conv_nth length_take min.absorb2 nth_take less_imp_le_nat)
  then have "f (xs ! i) \<le> sum_list (map f (take j xs))"
    by (simp add: member_le_sum_list)
  moreover have "sum_list (map f xs) = sum_list (map f (take j xs)) + f (xs ! j) + sum_list (map f (drop (Suc j) xs))"
    by (subst xs) simp
  ultimately show ?thesis by linarith
qed

lemma sum_take_le: "sum_list (map (f::'a \<Rightarrow> nat) (take n xs)) \<le> sum_list (map f xs)"
  by (metis append_take_drop_id le_add1 map_append sum_list.append)

lemma sum_drop_le: "sum_list (map (f::'a \<Rightarrow> nat) (drop n xs)) \<le> sum_list (map f xs)"
  by (metis append_take_drop_id le_add2 map_append sum_list.append)

lemma nodes_sum_children: "nodes n = Suc (sum_list (map nodes (children n)))"
  by (cases n) simp

lemma nodes_merge_children:
  assumes "merge_children n i = Inr n'" "c \<in> set (children n')"
  shows "nodes c < nodes n"
proof -
  let ?cs = "children n"
  from assms(1) have r: "Suc i < length ?cs"
    by (auto simp: merge_children_def split: if_splits)
  define ch where "ch = ?cs ! i"
  define sb where "sb = ?cs ! Suc i"
  define m where "m = Node (order ch) (is_leaf ch)
                       (take (order n - 1) (keys ch) @ keys n ! i # keys sb)
                       (take (order n - 1) (vals ch) @ vals n ! i # vals sb)
                       (if is_leaf ch then children ch
                        else take (order n) (children ch) @ children sb)"
  have cs': "children n' = take i ?cs @ m # drop (i + 2) ?cs"
    using assms(1) by (auto simp: merge_children_def Let_def m_def ch_def sb_def split: if_splits)
  have "sum_list (map nodes (children m)) \<le> sum_list (map nodes (children ch)) + sum_list (map nodes (children sb))"
    using sum_take_le [of nodes "order n" "children ch"] by (simp add: m_def)
  then have "nodes m < nodes ch + nodes sb"
    by (simp add: nodes_sum_children)
  also have "\<dots> \<le> sum_list (map nodes ?cs)"
    unfolding ch_def sb_def using sum_two_le [of i "Suc i" ?cs nodes] r by simp
  finally have m: "nodes m < nodes n" by (simp add: nodes_sum_children [of n])
  from assms(2) cs' consider "c \<in> set (take i ?cs)" | "c = m" | "c \<in> set (drop (i + 2) ?cs)"
    by auto
  then show ?thesis
  proof cases
    case 1 then show ?thesis by (meson in_set_takeD nodes_child)
  next
    case 2 then show ?thesis using m by simp
  next
    case 3 then show ?thesis by (meson in_set_dropD nodes_child)
  qed
qed


lemma set_update2_cases:
  assumes "c \<in> set (xs[i := a, j := b])"
  shows "c = a \<or> c = b \<or> c \<in> set xs"
proof -
  have "set (xs[i := a, j := b]) \<subseteq> insert b (insert a (set xs))"
    by (meson insert_mono order_trans set_update_subset_insert)
  then show ?thesis using assms by auto
qed

lemma nodes_borrow_from_prev:
  assumes "borrow_from_prev n i = Inr n'" "c \<in> set (children n')"
  shows "nodes c < nodes n"
proof -
  let ?cs = "children n"
  from assms(1) have r: "0 < i" "i < length ?cs"
    by (auto simp: borrow_from_prev_def split: if_splits)
  define ch where "ch = ?cs ! i"
  define sb where "sb = ?cs ! (i - 1)"
  define sn where "sn = n_keys sb"
  from assms(1) have g: "\<not> is_leaf ch \<Longrightarrow> sn < length (children sb)"
    by (auto simp: borrow_from_prev_def Let_def ch_def sb_def sn_def split: if_splits)
  define c1 where "c1 = Node (order ch) (is_leaf ch) (keys n ! (i - 1) # keys ch)
        (vals n ! (i - 1) # vals ch)
        (if is_leaf ch then children ch
         else children sb ! sn # take (Suc (n_keys ch)) (children ch))"
  define s1 where "s1 = Node (order sb) (is_leaf sb) (take (sn - 1) (keys sb))
        (take (sn - 1) (vals sb))
        (if is_leaf ch then children sb else take sn (children sb))"
  have cs': "children n' = ?cs[i - 1 := s1, i := c1]"
    using assms(1)
    by (auto simp: borrow_from_prev_def Let_def c1_def s1_def ch_def sb_def sn_def split: if_splits)
  have two: "nodes sb + nodes ch \<le> sum_list (map nodes ?cs)"
    unfolding ch_def sb_def using sum_two_le [of "i - 1" i ?cs nodes] r by simp
  have "nodes s1 \<le> nodes sb"
    using sum_take_le [of nodes sn "children sb"] by (simp add: s1_def nodes_sum_children)
  then have s1: "nodes s1 < nodes n"
    using two by (simp add: nodes_sum_children [of n])
  have "nodes c1 < nodes ch + nodes sb"
  proof (cases "is_leaf ch")
    case True
    then show ?thesis by (simp add: c1_def nodes_sum_children)
  next
    case False
    then have "nodes (children sb ! sn) < nodes sb" using g by (simp add: nodes_nth)
    then show ?thesis
      using False sum_take_le [of nodes "Suc (n_keys ch)" "children ch"]
      by (simp add: c1_def nodes_sum_children [of ch])
  qed
  then have c1: "nodes c1 < nodes n"
    using two by (simp add: nodes_sum_children [of n])
  from assms(2) cs' have "c = s1 \<or> c = c1 \<or> c \<in> set ?cs"
    using set_update2_cases by metis
  then show ?thesis using s1 c1 nodes_child by blast
qed

lemma nodes_borrow_from_next:
  assumes "borrow_from_next n i = Inr n'" "c \<in> set (children n')"
  shows "nodes c < nodes n"
proof -
  let ?cs = "children n"
  from assms(1) have r: "Suc i < length ?cs"
    by (auto simp: borrow_from_next_def split: if_splits)
  define ch where "ch = ?cs ! i"
  define sb where "sb = ?cs ! Suc i"
  define sn where "sn = n_keys sb"
  from assms(1) have g: "\<not> is_leaf ch \<Longrightarrow> children sb \<noteq> []"
    by (auto simp: borrow_from_next_def Let_def ch_def sb_def sn_def split: if_splits)
  define c1 where "c1 = Node (order ch) (is_leaf ch) (keys ch @ [keys n ! i])
        (vals ch @ [vals n ! i])
        (if is_leaf ch then children ch
         else take (Suc (n_keys ch)) (children ch) @ [children sb ! 0])"
  define s1 where "s1 = Node (order sb) (is_leaf sb) (drop 1 (keys sb)) (drop 1 (vals sb))
        (if is_leaf sb then children sb else take sn (drop 1 (children sb)))"
  have cs': "children n' = ?cs[i := c1, Suc i := s1]"
    using assms(1)
    by (auto simp: borrow_from_next_def Let_def c1_def s1_def ch_def sb_def sn_def split: if_splits)
  have two: "nodes ch + nodes sb \<le> sum_list (map nodes ?cs)"
    unfolding ch_def sb_def using sum_two_le [of i "Suc i" ?cs nodes] r by simp
  have "sum_list (map nodes (take sn (drop 1 (children sb)))) \<le> sum_list (map nodes (children sb))"
    using sum_take_le [of nodes sn "drop 1 (children sb)"] sum_drop_le [of nodes 1 "children sb"]
    by linarith
  then have "nodes s1 \<le> nodes sb"
    by (simp add: s1_def nodes_sum_children [of sb])
  then have s1: "nodes s1 < nodes n"
    using two by (simp add: nodes_sum_children [of n])
  have "nodes c1 < nodes ch + nodes sb"
  proof (cases "is_leaf ch")
    case True
    then show ?thesis by (simp add: c1_def nodes_sum_children)
  next
    case False
    then have "nodes (children sb ! 0) < nodes sb" using g by (simp add: nodes_nth)
    then show ?thesis
      using False sum_take_le [of nodes "Suc (n_keys ch)" "children ch"]
      by (simp add: c1_def nodes_sum_children [of ch])
  qed
  then have c1: "nodes c1 < nodes n"
    using two by (simp add: nodes_sum_children [of n])
  from assms(2) cs' have "c = c1 \<or> c = s1 \<or> c \<in> set ?cs"
    using set_update2_cases by metis
  then show ?thesis using s1 c1 nodes_child by blast
qed

lemma nodes_fill_child:
  assumes "fill_child n i = Inr n'" "c \<in> set (children n')"
  shows "nodes c < nodes n"
proof -
  from assms(1) consider "borrow_from_prev n i = Inr n'" | "borrow_from_next n i = Inr n'"
    | "merge_children n i = Inr n'" | "merge_children n (i - 1) = Inr n'"
    unfolding fill_child_def Let_def by (auto split: if_splits)
  then show ?thesis
    using assms(2) nodes_borrow_from_prev nodes_borrow_from_next nodes_merge_children
    by cases blast+
qed

lemma nodes_nth2: "i < length (children n) \<Longrightarrow> Suc (2 * nodes (children n ! i)) < 2 * nodes n"
  using nodes_nth [of i n] by simp

lemma nodes_fill_child_nth:
  "fill_child n i = Inr n' \<Longrightarrow> j < length (children n') \<Longrightarrow> nodes (children n' ! j) < nodes n"
  using nodes_fill_child nth_mem by blast

lemma nodes_merge_children_nth:
  "merge_children n i = Inr n' \<Longrightarrow> j < length (children n')
    \<Longrightarrow> Suc (2 * nodes (children n' ! j)) < 2 * nodes n"
  using nodes_merge_children [of n i n' "children n' ! j"] by simp

text \<open>
  \<^verbatim>\<open>delete_from_node\<close> and \<^verbatim>\<open>delete_from_internal\<close> return success or the error, and the
  node as the call leaves it: a borrow or merge done on the way down stays when the key
  turns out to be absent.
\<close>

function delete_from_node ::
    "'k host \<Rightarrow> ('k, 'v) node \<Rightarrow> 'k \<Rightarrow> (error + unit) \<times> ('k, 'v) node"
  and delete_from_internal ::
    "'k host \<Rightarrow> ('k, 'v) node \<Rightarrow> nat \<Rightarrow> (error + unit) \<times> ('k, 'v) node" where
  "delete_from_node h node key =
    (case node_search_key h node key of
       Inl e \<Rightarrow> (Inl e, node)
     | Inr (idx, found) \<Rightarrow>
         if found then
           (if is_leaf node then (Inr (), delete_from_leaf node idx)
            else delete_from_internal h node idx)
         else if is_leaf node then (Inl KeyNotFound, node)
         else if length (children node) \<le> idx then (Inl NullPointer, node)
         else
           (let last_child = (idx = n_keys node);
                t = order node
            in case (if n_keys (children node ! idx) < t then fill_child node idx
                     else Inr node) of
                 Inl e \<Rightarrow> (Inl e, node)
               | Inr node1 \<Rightarrow>
                   (let j = (if last_child \<and> idx > n_keys node1 then idx - 1 else idx)
                    in if length (children node1) \<le> j then (Inl NullPointer, node1)
                       else
                         (case delete_from_node h (children node1 ! j) key of
                            (rc, c) \<Rightarrow>
                              (rc, Node (order node1) (is_leaf node1) (keys node1)
                                     (vals node1) ((children node1)[j := c]))))))"
| "delete_from_internal h node idx =
    (let key = keys node ! idx;
         t = order node
     in if length (children node) \<le> idx then (Inl NullPointer, node)
        else if n_keys (children node ! idx) \<ge> t then
          (case get_predecessor node idx of
             Inl e \<Rightarrow> (Inl e, node)
           | Inr (pred_key, pred_value) \<Rightarrow>
               (case delete_from_node h (children node ! idx) pred_key of
                  (rc, c) \<Rightarrow>
                    (rc, Node (order node) (is_leaf node) ((keys node)[idx := pred_key])
                           ((vals node)[idx := pred_value]) ((children node)[idx := c]))))
        else if length (children node) \<le> Suc idx then (Inl NullPointer, node)
        else if n_keys (children node ! Suc idx) \<ge> t then
          (case get_successor node idx of
             Inl e \<Rightarrow> (Inl e, node)
           | Inr (succ_key, succ_value) \<Rightarrow>
               (case delete_from_node h (children node ! Suc idx) succ_key of
                  (rc, c) \<Rightarrow>
                    (rc, Node (order node) (is_leaf node) ((keys node)[idx := succ_key])
                           ((vals node)[idx := succ_value]) ((children node)[Suc idx := c]))))
        else
          (case merge_children node idx of
             Inl e \<Rightarrow> (Inl e, node)
           | Inr node1 \<Rightarrow>
               if length (children node1) \<le> idx then (Inl NullPointer, node1)
               else
                 (case delete_from_node h (children node1 ! idx) key of
                    (rc, c) \<Rightarrow>
                      (rc, Node (order node1) (is_leaf node1) (keys node1) (vals node1)
                             ((children node1)[idx := c])))))"
  by pat_completeness auto
termination
  by (relation "measure (\<lambda>x. case x of Inl (h, node, key) \<Rightarrow> 2 * nodes node + 1
                                     | Inr (h, node, idx) \<Rightarrow> 2 * nodes node)")
     (auto simp: nodes_nth nodes_nth2 nodes_fill_child_nth nodes_merge_children_nth
           split: if_splits)

declare delete_from_node.simps [simp del] delete_from_internal.simps [simp del]

text \<open>
  \<^verbatim>\<open>PyBTree_Delete\<close>. An empty tree fails at once. After a successful removal the size
  drops and a root left without a key above one child is replaced by that child.
\<close>

definition PyBTree_Delete ::
  "'k host \<Rightarrow> ('k, 'v) PyBTreeObject \<Rightarrow> 'k \<Rightarrow> (error + unit) \<times> ('k, 'v) PyBTreeObject" where
  "PyBTree_Delete h btree key =
    (if bt_size btree = 0 then (Inl KeyNotFound, btree)
     else
       (case delete_from_node h (bt_root btree) key of
          (Inl e, r) \<Rightarrow> (Inl e, btree\<lparr>bt_root := r\<rparr>)
        | (Inr u, r) \<Rightarrow>
            (let btree1 = btree\<lparr>bt_root := r, bt_size := bt_size btree - 1\<rparr>
             in if n_keys r = 0 \<and> \<not> is_leaf r then
                  (case children r of
                     [] \<Rightarrow> (Inl NullPointer, btree1)
                   | c # cs \<Rightarrow> (Inr (), btree1\<lparr>bt_root := c\<rparr>))
                else (Inr (), btree1))))"

section \<open>Construction\<close>

text \<open>
  \<^verbatim>\<open>BTREE_DEFAULT_ORDER\<close> and \<^verbatim>\<open>BTREE_MIN_ORDER\<close>. \<^verbatim>\<open>btree_init\<close> is the constructor of
  the binding; its argument is \<open>None\<close> when the caller passes no order, and an integer of
  Python otherwise, which the format \<^verbatim>\<open>|i\<close> of the argument parser refuses with
  \<^verbatim>\<open>OverflowError\<close> outside the range of \<^verbatim>\<open>int\<close>. \<^verbatim>\<open>PyBTree_New\<close> is the constructor of
  the C interface; its parameter is an \<^verbatim>\<open>int\<close>, so the model reads its argument through
  \<open>c_int\<close>, the identity on the range of \<^verbatim>\<open>int\<close>.
\<close>

definition BTREE_DEFAULT_ORDER :: int where
  "BTREE_DEFAULT_ORDER = 8"

definition BTREE_MIN_ORDER :: int where
  "BTREE_MIN_ORDER = 2"

definition btree_init :: "int option \<Rightarrow> error + ('k, 'v) PyBTreeObject" where
  "btree_init arg =
    (case (case arg of
             None \<Rightarrow> Inr BTREE_DEFAULT_ORDER
           | Some n \<Rightarrow> if n < - 2147483648 \<or> 2147483647 < n then Inl Overflow else Inr n) of
       Inl e \<Rightarrow> Inl e
     | Inr ord \<Rightarrow>
         if ord < BTREE_MIN_ORDER then Inl BadArgument
         else
           (case btreenode_new ord True of
              Inl e \<Rightarrow> Inl e
            | Inr r \<Rightarrow> Inr \<lparr>bt_root = r, bt_size = 0, bt_order = nat ord\<rparr>))"

definition PyBTree_New :: "int \<Rightarrow> error + ('k, 'v) PyBTreeObject" where
  "PyBTree_New ord0 =
    (let ord = (if c_int ord0 < BTREE_MIN_ORDER then BTREE_DEFAULT_ORDER else c_int ord0)
     in case btreenode_new ord True of
          Inl e \<Rightarrow> Inl e
        | Inr r \<Rightarrow> Inr \<lparr>bt_root = r, bt_size = 0, bt_order = nat ord\<rparr>)"

section \<open>Walks over the whole tree\<close>

text \<open>
  \<^verbatim>\<open>collect_keys_fast\<close>, \<^verbatim>\<open>collect_values_fast\<close> and \<^verbatim>\<open>collect_items_fast\<close> walk a subtree in
  order: for every slot first the child to its left, unless the node is a leaf or the
  child is \<^verbatim>\<open>NULL\<close>, then the slot; the last child after the loop. The output array of the
  C code is the list returned.
\<close>

function collect_keys_fast :: "('k, 'v) node \<Rightarrow> 'k list" where
  "collect_keys_fast node =
     concat (map (\<lambda>i. (if \<not> is_leaf node \<and> i < length (children node)
                         then collect_keys_fast (children node ! i) else [])
                        @ [keys node ! i])
                 [0..<n_keys node])
     @ (if \<not> is_leaf node \<and> n_keys node < length (children node)
        then collect_keys_fast (children node ! n_keys node) else [])"
  by pat_completeness auto
termination
  by (relation "measure nodes") (auto simp: nodes_nth)

declare collect_keys_fast.simps [simp del]

function collect_values_fast :: "('k, 'v) node \<Rightarrow> 'v list" where
  "collect_values_fast node =
     concat (map (\<lambda>i. (if \<not> is_leaf node \<and> i < length (children node)
                         then collect_values_fast (children node ! i) else [])
                        @ [vals node ! i])
                 [0..<n_keys node])
     @ (if \<not> is_leaf node \<and> n_keys node < length (children node)
        then collect_values_fast (children node ! n_keys node) else [])"
  by pat_completeness auto
termination
  by (relation "measure nodes") (auto simp: nodes_nth)

declare collect_values_fast.simps [simp del]

function collect_items_fast :: "('k, 'v) node \<Rightarrow> ('k \<times> 'v) list" where
  "collect_items_fast node =
     concat (map (\<lambda>i. (if \<not> is_leaf node \<and> i < length (children node)
                         then collect_items_fast (children node ! i) else [])
                        @ [(keys node ! i, vals node ! i)])
                 [0..<n_keys node])
     @ (if \<not> is_leaf node \<and> n_keys node < length (children node)
        then collect_items_fast (children node ! n_keys node) else [])"
  by pat_completeness auto
termination
  by (relation "measure nodes") (auto simp: nodes_nth)

declare collect_items_fast.simps [simp del]

text \<open>\<^verbatim>\<open>PyBTree_Keys\<close>, \<^verbatim>\<open>PyBTree_Values\<close>, \<^verbatim>\<open>PyBTree_Items\<close>: the walk is skipped when the
  size is 0.\<close>

definition PyBTree_Keys :: "('k, 'v) PyBTreeObject \<Rightarrow> 'k list" where
  "PyBTree_Keys btree = (if bt_size btree > 0 then collect_keys_fast (bt_root btree) else [])"

definition PyBTree_Values :: "('k, 'v) PyBTreeObject \<Rightarrow> 'v list" where
  "PyBTree_Values btree =
     (if bt_size btree > 0 then collect_values_fast (bt_root btree) else [])"

definition PyBTree_Items :: "('k, 'v) PyBTreeObject \<Rightarrow> ('k \<times> 'v) list" where
  "PyBTree_Items btree =
     (if bt_size btree > 0 then collect_items_fast (bt_root btree) else [])"


section \<open>Minimum, maximum, clear, update, copy\<close>

text \<open>\<^verbatim>\<open>get_min_from_node\<close> and \<^verbatim>\<open>get_max_from_node\<close>: \<open>None\<close> is the \<^verbatim>\<open>NULL\<close> returned,
  without an exception, for a node that holds no key.\<close>

definition get_min_from_node :: "('k, 'v) node \<Rightarrow> error + 'k option" where
  "get_min_from_node node =
    (if n_keys node = 0 then Inr None
     else
       (case leftmost_leaf node of
          Inl e \<Rightarrow> Inl e
        | Inr leaf \<Rightarrow> if n_keys leaf = 0 then Inl NullPointer else Inr (Some (keys leaf ! 0))))"

definition get_max_from_node :: "('k, 'v) node \<Rightarrow> error + 'k option" where
  "get_max_from_node node =
    (if n_keys node = 0 then Inr None
     else
       (case rightmost_leaf node of
          Inl e \<Rightarrow> Inl e
        | Inr leaf \<Rightarrow>
            if n_keys leaf = 0 then Inl NullPointer
            else Inr (Some (keys leaf ! (n_keys leaf - 1)))))"

definition PyBTree_GetMin :: "('k, 'v) PyBTreeObject \<Rightarrow> error + 'k option" where
  "PyBTree_GetMin btree = get_min_from_node (bt_root btree)"

definition PyBTree_GetMax :: "('k, 'v) PyBTreeObject \<Rightarrow> error + 'k option" where
  "PyBTree_GetMax btree = get_max_from_node (bt_root btree)"


definition btree_max :: "('k, 'v) PyBTreeObject \<Rightarrow> error + 'k" where
  "btree_max btree =
    (case PyBTree_GetMax btree of
       Inl e \<Rightarrow> Inl e | Inr None \<Rightarrow> Inl IndexEmpty | Inr (Some k) \<Rightarrow> Inr k)"

text \<open>\<^verbatim>\<open>btree_clear_internal\<close> drops the root and makes a new empty leaf; when that fails
  the object is left without a root, and the model returns the error alone.\<close>

definition btree_clear_internal ::
  "('k, 'v) PyBTreeObject \<Rightarrow> error + ('k, 'v) PyBTreeObject" where
  "btree_clear_internal btree =
     (case btreenode_new (int (bt_order btree)) True of
        Inl e \<Rightarrow> Inl e
      | Inr r \<Rightarrow> Inr (btree\<lparr>bt_root := r, bt_size := 0\<rparr>))"

definition PyBTree_Clear :: "('k, 'v) PyBTreeObject \<Rightarrow> error + ('k, 'v) PyBTreeObject" where
  "PyBTree_Clear btree = btree_clear_internal btree"

text \<open>
  The loops of \<^verbatim>\<open>btree_update_common\<close> and \<^verbatim>\<open>btree_copy\<close> insert the pairs of a sequence
  one after the other and stop at the first error. The source of an update is the list
  of its pairs: the items of another tree, of a mapping, or the pairs of an iterable.
\<close>

fun insert_pairs ::
  "'k host \<Rightarrow> ('k, 'v) PyBTreeObject \<Rightarrow> ('k \<times> 'v) list
     \<Rightarrow> (error + unit) \<times> ('k, 'v) PyBTreeObject" where
  "insert_pairs h btree [] = (Inr (), btree)"
| "insert_pairs h btree ((key, val) # rest) =
     (case PyBTree_Insert h btree key val of
        (Inl e, btree1) \<Rightarrow> (Inl e, btree1)
      | (Inr u, btree1) \<Rightarrow> insert_pairs h btree1 rest)"

definition btree_update ::
  "'k host \<Rightarrow> ('k, 'v) PyBTreeObject \<Rightarrow> ('k \<times> 'v) list
     \<Rightarrow> (error + unit) \<times> ('k, 'v) PyBTreeObject" where
  "btree_update h btree pairs = insert_pairs h btree pairs"

definition btree_copy :: "'k host \<Rightarrow> ('k, 'v) PyBTreeObject \<Rightarrow> error + ('k, 'v) PyBTreeObject"
  where
  "btree_copy h btree =
    (case PyBTree_New (int (bt_order btree)) of
       Inl e \<Rightarrow> Inl e
     | Inr new_btree0 \<Rightarrow>
         (case insert_pairs h new_btree0 (PyBTree_Items btree) of
            (Inl e, new_btree) \<Rightarrow> Inl e
          | (Inr u, new_btree) \<Rightarrow> Inr new_btree))"

section \<open>Iterators\<close>

text \<open>
  An iterator keeps a stack of frames \<open>(node, key_idx)\<close>; the head of the list is the top.
  The C array holds 64 frames; the list has no bound. The counter \<open>remaining\<close> is the
  length hint. A frame points to a node of the tree; in the model it holds the subtree.
\<close>

type_synonym ('k, 'v) IterStackFrame = "('k, 'v) node \<times> int"

record ('k, 'v) PyBTreeIterObject =
  it_remaining :: int
  it_stack :: "('k, 'v) IterStackFrame list"

function iter_descend_left ::
  "('k, 'v) IterStackFrame list \<Rightarrow> ('k, 'v) node \<Rightarrow> ('k, 'v) IterStackFrame list" where
  "iter_descend_left stack node =
    (if is_leaf node \<or> children node = [] then (node, 0) # stack
     else iter_descend_left ((node, 0) # stack) (children node ! 0))"
  by pat_completeness auto
termination
  by (relation "measure (\<lambda>(stack, node). nodes node)") (auto simp: nodes_nth)

declare iter_descend_left.simps [simp del]

definition btree_iter :: "('k, 'v) PyBTreeObject \<Rightarrow> ('k, 'v) PyBTreeIterObject" where
  "btree_iter btree =
     \<lparr>it_remaining = bt_size btree,
      it_stack = (if n_keys (bt_root btree) > 0 then iter_descend_left [] (bt_root btree)
                  else [])\<rparr>"

text \<open>\<^verbatim>\<open>btreeiter_next\<close>: the key and the iterator after the call; \<open>None\<close> when the stack
  is empty.\<close>

function btreeiter_next ::
  "('k, 'v) PyBTreeIterObject \<Rightarrow> 'k option \<times> ('k, 'v) PyBTreeIterObject" where
  "btreeiter_next it =
    (case it_stack it of
       [] \<Rightarrow> (None, it)
     | (node, key_idx) # rest \<Rightarrow>
         if key_idx < int (n_keys node) then
           (let key = keys node ! nat key_idx;
                stack1 = (node, key_idx + 1) # rest;
                stack2 = (if \<not> is_leaf node \<and> nat (key_idx + 1) < length (children node)
                          then iter_descend_left stack1 (children node ! nat (key_idx + 1))
                          else stack1)
            in (Some key, \<lparr>it_remaining = it_remaining it - 1, it_stack = stack2\<rparr>))
         else btreeiter_next (it\<lparr>it_stack := rest\<rparr>))"
  by pat_completeness auto
termination
  by (relation "measure (\<lambda>it. length (it_stack it))") auto

declare btreeiter_next.simps [simp del]

subsection \<open>The reverse iterator\<close>

function iter_descend_right ::
  "('k, 'v) IterStackFrame list \<Rightarrow> ('k, 'v) node \<Rightarrow> ('k, 'v) IterStackFrame list" where
  "iter_descend_right stack node =
    (if is_leaf node \<or> length (children node) \<le> n_keys node
       then (node, int (n_keys node) - 1) # stack
     else iter_descend_right ((node, int (n_keys node) - 1) # stack)
            (children node ! n_keys node))"
  by pat_completeness auto
termination
  by (relation "measure (\<lambda>(stack, node). nodes node)") (auto simp: nodes_nth)

declare iter_descend_right.simps [simp del]

definition btree_reversed :: "('k, 'v) PyBTreeObject \<Rightarrow> ('k, 'v) PyBTreeIterObject" where
  "btree_reversed btree =
     \<lparr>it_remaining = bt_size btree,
      it_stack = (if n_keys (bt_root btree) > 0 then iter_descend_right [] (bt_root btree)
                  else [])\<rparr>"

function btreereviter_next ::
  "('k, 'v) PyBTreeIterObject \<Rightarrow> 'k option \<times> ('k, 'v) PyBTreeIterObject" where
  "btreereviter_next it =
    (case it_stack it of
       [] \<Rightarrow> (None, it)
     | (node, key_idx) # rest \<Rightarrow>
         if key_idx \<ge> 0 then
           (let key = keys node ! nat key_idx;
                child_idx = key_idx;
                stack1 = (node, key_idx - 1) # rest;
                stack2 = (if \<not> is_leaf node \<and> nat child_idx < length (children node)
                          then iter_descend_right stack1 (children node ! nat child_idx)
                          else stack1)
            in (Some key, \<lparr>it_remaining = it_remaining it - 1, it_stack = stack2\<rparr>))
         else btreereviter_next (it\<lparr>it_stack := rest\<rparr>))"
  by pat_completeness auto
termination
  by (relation "measure (\<lambda>it. length (it_stack it))") auto

declare btreereviter_next.simps [simp del]

subsection \<open>The range iterator\<close>

text \<open>
  The range iterator keeps the tree and seeks its first frame stack at the first call of
  \<^verbatim>\<open>next\<close>. A bound that is absent (\<^verbatim>\<open>None\<close> in Python, \<^verbatim>\<open>NULL\<close> in the object) is
  \<open>None\<close>. \<^verbatim>\<open>range_iter_descend_to_start\<close> returns nothing; when the comparator fails
  it leaves the frame it has pushed without an index, and the model reports that as the
  error \<open>UnsetFrame\<close> of the call of \<^verbatim>\<open>next\<close>.
\<close>

record ('k, 'v) PyBTreeRangeIterObject =
  rg_btree :: "('k, 'v) PyBTreeObject"
  rg_min_key :: "'k option"
  rg_max_key :: "'k option"
  rg_inclusive_min :: bool
  rg_inclusive_max :: bool
  rg_stack :: "('k, 'v) IterStackFrame list"
  rg_started :: bool

definition btree_irange ::
  "('k, 'v) PyBTreeObject \<Rightarrow> 'k option \<Rightarrow> 'k option \<Rightarrow> (bool \<times> bool) option
     \<Rightarrow> ('k, 'v) PyBTreeRangeIterObject" where
  "btree_irange btree min_key max_key inclusive =
     \<lparr>rg_btree = btree, rg_min_key = min_key, rg_max_key = max_key,
      rg_inclusive_min = (case inclusive of None \<Rightarrow> True | Some (a, b) \<Rightarrow> a),
      rg_inclusive_max = (case inclusive of None \<Rightarrow> False | Some (a, b) \<Rightarrow> b),
      rg_stack = [], rg_started = False\<rparr>"

function range_iter_descend_to_start ::
  "'k host \<Rightarrow> 'k option \<Rightarrow> bool \<Rightarrow> ('k, 'v) IterStackFrame list \<Rightarrow> ('k, 'v) node
     \<Rightarrow> error + ('k, 'v) IterStackFrame list" where
  "range_iter_descend_to_start h min_key inclusive_min stack node =
    (case min_key of
       None \<Rightarrow>
         if is_leaf node \<or> children node = [] then Inr ((node, 0) # stack)
         else range_iter_descend_to_start h min_key inclusive_min ((node, 0) # stack)
                (children node ! 0)
     | Some k \<Rightarrow>
         (case node_search_key h node k of
            Inl e \<Rightarrow> Inl UnsetFrame
          | Inr (idx0, found) \<Rightarrow>
              (let idx = (if found \<and> \<not> inclusive_min then idx0 + 1 else idx0);
                   stack1 = (node, int idx) # stack
               in if is_leaf node then Inr stack1
                  else if found \<and> \<not> inclusive_min \<and> \<not> idx \<le> n_keys node then Inr stack1
                  else if length (children node) \<le> idx then Inr stack1
                  else range_iter_descend_to_start h min_key inclusive_min stack1
                         (children node ! idx))))"
  by pat_completeness auto
termination
  by (relation "measure (\<lambda>(h, min_key, inclusive_min, stack, node). nodes node)")
     (auto simp: nodes_nth)

declare range_iter_descend_to_start.simps [simp del]

text \<open>The loop of \<^verbatim>\<open>btreerangeiter_next\<close> over the stack: the key, \<open>None\<close> at the end of the
  range, or the error of the comparison with the upper bound.\<close>

function range_next_loop ::
  "'k host \<Rightarrow> 'k option \<Rightarrow> bool \<Rightarrow> ('k, 'v) IterStackFrame list
     \<Rightarrow> (error + 'k option) \<times> ('k, 'v) IterStackFrame list" where
  "range_next_loop h max_key inclusive_max stack =
    (case stack of
       [] \<Rightarrow> (Inr None, stack)
     | (node, key_idx) # rest \<Rightarrow>
         if key_idx < int (n_keys node) then
           (let key = keys node ! nat key_idx;
                cmp = (case max_key of None \<Rightarrow> - 1 | Some m \<Rightarrow> compare_keys h key m)
            in if max_key \<noteq> None \<and> cmp = - 2 then (Inl ComparisonError, stack)
               else if max_key \<noteq> None \<and> inclusive_max \<and> cmp > 0 then (Inr None, stack)
               else if max_key \<noteq> None \<and> \<not> inclusive_max \<and> cmp \<ge> 0 then (Inr None, stack)
               else
                 (let stack1 = (node, key_idx + 1) # rest;
                      stack2 = (if \<not> is_leaf node
                                   \<and> nat (key_idx + 1) < length (children node)
                                then iter_descend_left stack1
                                       (children node ! nat (key_idx + 1))
                                else stack1)
                  in (Inr (Some key), stack2)))
         else range_next_loop h max_key inclusive_max rest)"
  by pat_completeness auto
termination
  by (relation "measure (\<lambda>(h, max_key, inclusive_max, stack). length stack)") auto

declare range_next_loop.simps [simp del]

definition btreerangeiter_next ::
  "'k host \<Rightarrow> ('k, 'v) PyBTreeRangeIterObject
     \<Rightarrow> (error + 'k option) \<times> ('k, 'v) PyBTreeRangeIterObject" where
  "btreerangeiter_next h it =
    (let seek =
           (if \<not> rg_started it \<and> n_keys (bt_root (rg_btree it)) > 0 then
              range_iter_descend_to_start h (rg_min_key it) (rg_inclusive_min it)
                (rg_stack it) (bt_root (rg_btree it))
            else Inr (rg_stack it))
     in case seek of
          Inl e \<Rightarrow> (Inl e, it\<lparr>rg_started := True\<rparr>)
        | Inr stack0 \<Rightarrow>
            (case range_next_loop h (rg_max_key it) (rg_inclusive_max it) stack0 of
               (r, stack1) \<Rightarrow> (r, it\<lparr>rg_started := True, rg_stack := stack1\<rparr>)))"

section \<open>The items at the two ends\<close>

text \<open>
  \<^verbatim>\<open>btree_peekitem\<close> and \<^verbatim>\<open>btree_popitem\<close>; the argument is \<open>None\<close> when the caller gives
  no index, and the index is then \<open>-1\<close>. The argument parser reads the index with the
  format \<^verbatim>\<open>|n\<close> into a \<^verbatim>\<open>Py_ssize_t\<close>, 64 bits wide, and refuses an integer outside its
  range with \<^verbatim>\<open>OverflowError\<close> before anything else is looked at. Both functions test
  the size before the index. \<^verbatim>\<open>btree_peekitem\<close> walks to the leaf at the end asked for;
  \<^verbatim>\<open>btree_popitem\<close> asks \<^verbatim>\<open>PyBTree_GetMin\<close> or \<^verbatim>\<open>PyBTree_GetMax\<close> for the key, looks its
  value up and deletes it.
\<close>

definition parse_index :: "int option \<Rightarrow> error + int" where
  "parse_index arg =
    (case arg of
       None \<Rightarrow> Inr (- 1)
     | Some i \<Rightarrow>
         if i < - 9223372036854775808 \<or> 9223372036854775807 < i then Inl Overflow else Inr i)"

definition btree_peekitem :: "('k, 'v) PyBTreeObject \<Rightarrow> int option \<Rightarrow> error + ('k \<times> 'v)" where
  "btree_peekitem btree arg =
    (case parse_index arg of
       Inl e \<Rightarrow> Inl e
     | Inr index \<Rightarrow>
        if bt_size btree = 0 then Inl IndexEmpty
        else if index = 0 then
          (case leftmost_leaf (bt_root btree) of
             Inl e \<Rightarrow> Inl e
           | Inr node \<Rightarrow>
               if n_keys node = 0 \<or> vals node = [] then Inl NullPointer
               else Inr (keys node ! 0, vals node ! 0))
        else if index = - 1 \<or> index = bt_size btree - 1 then
          (case rightmost_leaf (bt_root btree) of
             Inl e \<Rightarrow> Inl e
           | Inr node \<Rightarrow>
               if n_keys node = 0 \<or> length (vals node) < n_keys node then Inl NullPointer
               else Inr (keys node ! (n_keys node - 1), vals node ! (n_keys node - 1)))
        else Inl IndexUnsupported)"

definition btree_popitem ::
  "'k host \<Rightarrow> ('k, 'v) PyBTreeObject \<Rightarrow> int option
     \<Rightarrow> (error + ('k \<times> 'v)) \<times> ('k, 'v) PyBTreeObject" where
  "btree_popitem h btree arg =
    (case parse_index arg of
       Inl e \<Rightarrow> (Inl e, btree)
     | Inr index \<Rightarrow>
        if bt_size btree = 0 then (Inl KeyNotFound, btree)
        else
          (case (if index = 0 then PyBTree_GetMin btree
                 else if index = - 1 \<or> index = bt_size btree - 1 then PyBTree_GetMax btree
                 else Inl IndexUnsupported) of
             Inl e \<Rightarrow> (Inl e, btree)
           | Inr None \<Rightarrow> (Inl NullResult, btree)
           | Inr (Some key) \<Rightarrow>
               (case PyBTree_Search h btree key of
                  Inl e \<Rightarrow> (Inl e, btree)
                | Inr None \<Rightarrow> (Inl KeyDisappeared, btree)
                | Inr (Some val) \<Rightarrow>
                    (case PyBTree_Delete h btree key of
                       (Inl e, btree1) \<Rightarrow> (Inl e, btree1)
                     | (Inr u, btree1) \<Rightarrow> (Inr (key, val), btree1)))))"

section \<open>The content of a subtree\<close>

text \<open>The keys and the values stored in a subtree, as multisets.\<close>

fun keys_mset :: "('k, 'v) node \<Rightarrow> 'k multiset" where
  "keys_mset (Node ord leaf ks vs cs) = mset ks + sum_list (map keys_mset cs)"

fun vals_mset :: "('k, 'v) node \<Rightarrow> 'v multiset" where
  "vals_mset (Node ord leaf ks vs cs) = mset vs + sum_list (map vals_mset cs)"

lemma keys_mset_sel: "keys_mset n = mset (keys n) + sum_list (map keys_mset (children n))"
  by (cases n) simp

lemma vals_mset_sel: "vals_mset n = mset (vals n) + sum_list (map vals_mset (children n))"
  by (cases n) simp

lemma mset_take_nth_drop:
  assumes j: "j < length xs"
  shows "mset (take j xs) + {#xs ! j#} + mset (drop (Suc j) xs) = mset xs"
proof -
  have "mset xs = mset (take j xs @ xs ! j # drop (Suc j) xs)"
    by (rule arg_cong [OF id_take_nth_drop [OF j]])
  also have "\<dots> = mset (take j xs) + {#xs ! j#} + mset (drop (Suc j) xs)"
    by simp
  finally show ?thesis by simp
qed

lemma sum_take_nth_drop:
  fixes f :: "'a \<Rightarrow> 'b::comm_monoid_add"
  assumes j: "j < length xs"
  shows "sum_list (map f (take j xs)) + f (xs ! j) + sum_list (map f (drop (Suc j) xs))
         = sum_list (map f xs)"
proof -
  have "sum_list (map f xs) = sum_list (map f (take j xs @ xs ! j # drop (Suc j) xs))"
    by (rule arg_cong [OF id_take_nth_drop [OF j]])
  also have "\<dots> = sum_list (map f (take j xs)) + f (xs ! j) + sum_list (map f (drop (Suc j) xs))"
    by (simp add: add.assoc)
  finally show ?thesis by simp
qed

lemma split_child_sel:
  "order (split_child p i) = order p"
  "is_leaf (split_child p i) = is_leaf p"
  "keys (split_child p i) = take i (keys p) @ keys (children p ! i) ! (order (children p ! i) - 1) # drop i (keys p)"
  "vals (split_child p i) = take i (vals p) @ vals (children p ! i) ! (order (children p ! i) - 1) # drop i (vals p)"
  by (simp_all add: split_child_def Let_def)

lemma split_child_children:
  "children (split_child p i) = take i (children p) @
     Node (order (children p ! i)) (is_leaf (children p ! i))
       (take (order (children p ! i) - 1) (keys (children p ! i)))
       (take (order (children p ! i) - 1) (vals (children p ! i)))
       (if is_leaf (children p ! i) then children (children p ! i)
        else take (order (children p ! i)) (children (children p ! i)))
     # Node (order (children p ! i)) (is_leaf (children p ! i))
       (take (order (children p ! i) - 1) (drop (order (children p ! i)) (keys (children p ! i))))
       (take (order (children p ! i) - 1) (drop (order (children p ! i)) (vals (children p ! i))))
       (if is_leaf (children p ! i) then []
        else take (order (children p ! i)) (drop (order (children p ! i)) (children (children p ! i))))
     # drop (Suc i) (children p)"
  by (simp add: split_child_def Let_def)

lemma mset_take_drop: "mset (take i xs) + mset (drop i xs) = mset xs"
  by (metis append_take_drop_id mset_append)

lemma sum_take_drop:
  fixes f :: "'a \<Rightarrow> 'b::comm_monoid_add"
  shows "sum_list (map f (take j xs)) + sum_list (map f (drop j xs)) = sum_list (map f xs)"
  by (metis append_take_drop_id map_append sum_list.append)

lemma split_halves_children:
  fixes f :: "('k, 'v) node \<Rightarrow> 'b::comm_monoid_add"
  assumes "is_leaf c \<and> children c = [] \<or> length (children c) = 2 * t"
  shows "sum_list (map f (if is_leaf c then children c else take t (children c)))
       + sum_list (map f (if is_leaf c then [] else take t (drop t (children c))))
       = sum_list (map f (children c))"
proof (cases "is_leaf c \<and> children c = []")
  case True then show ?thesis by simp
next
  case False
  then have l: "length (children c) = 2 * t" using assms by auto
  then have "take t (drop t (children c)) = drop t (children c)" by simp
  then show ?thesis
    using sum_take_drop [of f t "children c"] l by (cases "is_leaf c") simp_all
qed



lemma split_halves_keys:
  assumes "length (keys c) = 2 * t - 1" "0 < t"
  shows "mset (take (t - 1) (keys c)) + {#keys c ! (t - 1)#} + mset (take (t - 1) (drop t (keys c)))
         = mset (keys c)"
proof -
  have tm: "t - 1 < length (keys c)" using assms by simp
  have "take (t - 1) (drop t (keys c)) = drop (Suc (t - 1)) (keys c)" using assms by simp
  then show ?thesis using mset_take_nth_drop [OF tm] by simp
qed

lemma split_child_keys_mset:
  assumes i: "i < length (children p)"
    and t: "0 < order (children p ! i)"
    and full: "length (keys (children p ! i)) = 2 * order (children p ! i) - 1"
    and cs: "is_leaf (children p ! i) \<and> children (children p ! i) = []
             \<or> length (children (children p ! i)) = 2 * order (children p ! i)"
  shows "keys_mset (split_child p i) = keys_mset p"
proof -
  define c where "c = children p ! i"
  define t where "t = order c"
  define A where "A = sum_list (map keys_mset (take i (children p)))"
  define B where "B = sum_list (map keys_mset (drop (Suc i) (children p)))"
  define L where
    "L = sum_list (map keys_mset (if is_leaf c then children c else take t (children c)))"
  define R where
    "R = sum_list (map keys_mset (if is_leaf c then [] else take t (drop t (children c))))"
  define kl where "kl = mset (take (t - 1) (keys c))"
  define kr where "kr = mset (take (t - 1) (drop t (keys c)))"
  define m where "m = keys c ! (t - 1)"
  have k: "kl + {#m#} + kr = mset (keys c)"
    unfolding kl_def kr_def m_def c_def t_def by (rule split_halves_keys [OF full t])
  have ch: "L + R = sum_list (map keys_mset (children c))"
    unfolding L_def R_def c_def t_def by (rule split_halves_children [OF cs])
  have c: "keys_mset c = kl + {#m#} + kr + (L + R)"
    unfolding k ch by (rule keys_mset_sel)
  have "keys_mset p = mset (keys p) + sum_list (map keys_mset (children p))"
    by (rule keys_mset_sel)
  also have "sum_list (map keys_mset (children p)) = A + keys_mset c + B"
    unfolding A_def B_def c_def by (rule sum_take_nth_drop [OF i, symmetric])
  finally have p: "keys_mset p = mset (keys p) + (A + keys_mset c + B)" .
  have "keys_mset (split_child p i) =
      (mset (take i (keys p)) + mset (drop i (keys p))) + {#m#} + (A + ((kl + L) + (kr + R)) + B)"
    by (simp add: keys_mset_sel [of "split_child p i"] split_child_sel split_child_children
        A_def B_def L_def R_def kl_def kr_def m_def c_def t_def)
  also have "\<dots> = mset (keys p) + {#m#} + (A + ((kl + L) + (kr + R)) + B)"
    by (simp only: mset_take_drop)
  also have "\<dots> = keys_mset p"
    unfolding p c by (simp add: ac_simps)
  finally show ?thesis .
qed

lemma split_halves_vals:
  assumes "length (vals c) = 2 * t - 1" "0 < t"
  shows "mset (take (t - 1) (vals c)) + {#vals c ! (t - 1)#} + mset (take (t - 1) (drop t (vals c)))
         = mset (vals c)"
proof -
  have tm: "t - 1 < length (vals c)" using assms by simp
  have "take (t - 1) (drop t (vals c)) = drop (Suc (t - 1)) (vals c)" using assms by simp
  then show ?thesis using mset_take_nth_drop [OF tm] by simp
qed

lemma split_child_vals_mset:
  assumes i: "i < length (children p)"
    and t: "0 < order (children p ! i)"
    and full: "length (vals (children p ! i)) = 2 * order (children p ! i) - 1"
    and cs: "is_leaf (children p ! i) \<and> children (children p ! i) = []
             \<or> length (children (children p ! i)) = 2 * order (children p ! i)"
  shows "vals_mset (split_child p i) = vals_mset p"
proof -
  define c where "c = children p ! i"
  define t where "t = order c"
  define A where "A = sum_list (map vals_mset (take i (children p)))"
  define B where "B = sum_list (map vals_mset (drop (Suc i) (children p)))"
  define L where
    "L = sum_list (map vals_mset (if is_leaf c then children c else take t (children c)))"
  define R where
    "R = sum_list (map vals_mset (if is_leaf c then [] else take t (drop t (children c))))"
  define kl where "kl = mset (take (t - 1) (vals c))"
  define kr where "kr = mset (take (t - 1) (drop t (vals c)))"
  define m where "m = vals c ! (t - 1)"
  have k: "kl + {#m#} + kr = mset (vals c)"
    unfolding kl_def kr_def m_def c_def t_def by (rule split_halves_vals [OF full t])
  have ch: "L + R = sum_list (map vals_mset (children c))"
    unfolding L_def R_def c_def t_def by (rule split_halves_children [OF cs])
  have c: "vals_mset c = kl + {#m#} + kr + (L + R)"
    unfolding k ch by (rule vals_mset_sel)
  have "vals_mset p = mset (vals p) + sum_list (map vals_mset (children p))"
    by (rule vals_mset_sel)
  also have "sum_list (map vals_mset (children p)) = A + vals_mset c + B"
    unfolding A_def B_def c_def by (rule sum_take_nth_drop [OF i, symmetric])
  finally have p: "vals_mset p = mset (vals p) + (A + vals_mset c + B)" .
  have "vals_mset (split_child p i) =
      (mset (take i (vals p)) + mset (drop i (vals p))) + {#m#} + (A + ((kl + L) + (kr + R)) + B)"
    by (simp add: vals_mset_sel [of "split_child p i"] split_child_sel split_child_children
        A_def B_def L_def R_def kl_def kr_def m_def c_def t_def)
  also have "\<dots> = mset (vals p) + {#m#} + (A + ((kl + L) + (kr + R)) + B)"
    by (simp only: mset_take_drop)
  also have "\<dots> = vals_mset p"
    unfolding p c by (simp add: ac_simps)
  finally show ?thesis .
qed


lemma nth_take_append: "i \<le> length xs \<Longrightarrow> (take i xs @ ys) ! (i + j) = ys ! j"
  by (simp add: nth_append min_def)

lemma nth_take_append0: "i \<le> length xs \<Longrightarrow> (take i xs @ y # ys) ! i = y"
  using nth_take_append [of i xs "y # ys" 0] by simp

lemma nth_take_append1: "i \<le> length xs \<Longrightarrow> (take i xs @ y # z # ys) ! Suc i = z"
  using nth_take_append [of i xs "y # z # ys" 1] by simp

definition split_left :: "('k, 'v) node \<Rightarrow> ('k, 'v) node" where
  "split_left c = Node (order c) (is_leaf c) (take (order c - 1) (keys c))
       (take (order c - 1) (vals c))
       (if is_leaf c then children c else take (order c) (children c))"

definition split_right :: "('k, 'v) node \<Rightarrow> ('k, 'v) node" where
  "split_right c = Node (order c) (is_leaf c) (take (order c - 1) (drop (order c) (keys c)))
       (take (order c - 1) (drop (order c) (vals c)))
       (if is_leaf c then [] else take (order c) (drop (order c) (children c)))"

lemma split_child_children2:
  "children (split_child p i) = take i (children p) @
     split_left (children p ! i) # split_right (children p ! i) # drop (Suc i) (children p)"
  by (simp add: split_child_def Let_def split_left_def split_right_def)

lemma split_child_nth_left:
  "i < length (children p) \<Longrightarrow> children (split_child p i) ! i = split_left (children p ! i)"
  by (simp add: split_child_children2 nth_take_append0)

lemma split_child_nth_right:
  "i < length (children p) \<Longrightarrow> children (split_child p i) ! Suc i = split_right (children p ! i)"
  by (simp add: split_child_children2 nth_take_append1)

text \<open>
  Claim C9. Let \<open>children[i]\<close> of the parent be full: it holds \<open>2t - 1\<close> keys and as
  many values, where \<open>t\<close> is its order, and \<open>2t\<close> children unless it is a leaf. After
  \<^verbatim>\<open>split_child(parent, i)\<close> the child keeps its first \<open>t - 1\<close> keys, the new sibling at
  \<open>children[i + 1]\<close> holds the last \<open>t - 1\<close> keys, the parent has one key and one child
  more, slot \<open>i\<close> of the parent holds the former median pair of the child, and the multiset
  of keys and the multiset of values below the parent are the same as before. The
  theorem does not need the parent to have room; the arrays of the C code do.
\<close>

theorem split_child_spec:
  assumes "i < length (children parent)"
    and "i \<le> n_keys parent" and "i \<le> length (vals parent)"
    and "0 < order (children parent ! i)"
    and "n_keys (children parent ! i) = 2 * order (children parent ! i) - 1"
    and "length (vals (children parent ! i)) = 2 * order (children parent ! i) - 1"
    and "is_leaf (children parent ! i) \<and> children (children parent ! i) = []
         \<or> length (children (children parent ! i)) = 2 * order (children parent ! i)"
  shows "n_keys (children (split_child parent i) ! i) = order (children parent ! i) - 1
       \<and> n_keys (children (split_child parent i) ! Suc i) = order (children parent ! i) - 1
       \<and> keys (children (split_child parent i) ! i)
           = take (order (children parent ! i) - 1) (keys (children parent ! i))
       \<and> keys (children (split_child parent i) ! Suc i)
           = drop (order (children parent ! i)) (keys (children parent ! i))
       \<and> n_keys (split_child parent i) = Suc (n_keys parent)
       \<and> length (children (split_child parent i)) = Suc (length (children parent))
       \<and> keys (split_child parent i) ! i
           = keys (children parent ! i) ! (order (children parent ! i) - 1)
       \<and> vals (split_child parent i) ! i
           = vals (children parent ! i) ! (order (children parent ! i) - 1)
       \<and> keys_mset (split_child parent i) = keys_mset parent
       \<and> vals_mset (split_child parent i) = vals_mset parent"
proof -
  have k: "keys_mset (split_child parent i) = keys_mset parent"
    using assms by (intro split_child_keys_mset)
  have v: "vals_mset (split_child parent i) = vals_mset parent"
    using assms by (intro split_child_vals_mset)
  have a: "min (2 * order (children parent ! i) - 1) (order (children parent ! i) - 1)
           = order (children parent ! i) - 1"
    using assms(4) by simp
  have l: "n_keys (split_left (children parent ! i)) = order (children parent ! i) - 1"
    "keys (split_left (children parent ! i))
       = take (order (children parent ! i) - 1) (keys (children parent ! i))"
    using assms(5) a by (simp_all add: split_left_def)
  have r: "keys (split_right (children parent ! i))
       = drop (order (children parent ! i)) (keys (children parent ! i))"
    using assms(5) by (simp add: split_right_def)
  have r': "n_keys (split_right (children parent ! i)) = order (children parent ! i) - 1"
    unfolding r using assms(4,5) by simp
  have n: "n_keys (split_child parent i) = Suc (n_keys parent)"
    "length (children (split_child parent i)) = Suc (length (children parent))"
    using assms(1,2) by (simp_all add: split_child_sel split_child_children2)
  have m: "keys (split_child parent i) ! i
           = keys (children parent ! i) ! (order (children parent ! i) - 1)"
    "vals (split_child parent i) ! i
           = vals (children parent ! i) ! (order (children parent ! i) - 1)"
    using assms(2,3) by (simp_all add: split_child_sel nth_take_append0)
  show ?thesis
    unfolding split_child_nth_left [OF assms(1)] split_child_nth_right [OF assms(1)]
    using k v l r r' n m by simp
qed

theorem split_child_spec_witness:
  "split_child (Node 2 False [10::nat] [''j''] [Node 2 True [1, 2, 3] [''a'', ''b'', ''c''] [], Node 2 True [20] [''t''] []]) 0
    = Node 2 False [2, 10] [''b'', ''j''] [Node 2 True [1] [''a''] [], Node 2 True [3] [''c''] [], Node 2 True [20] [''t''] []]
   \<and> keys_mset (split_child (Node 2 False [10::nat] [''j''] [Node 2 True [1, 2, 3] [''a'', ''b'', ''c''] [], Node 2 True [20] [''t''] []]) 0)
       = {#1, 2, 3, 10, 20#}"
  using split_child_spec [of 0 "Node 2 False [10::nat] [''j''] [Node 2 True [1, 2, 3] [''a'', ''b'', ''c''] [], Node 2 True [20] [''t''] []]"]
  by (simp add: split_child_def)


section \<open>The invariants of a B-tree\<close>

fun interleave :: "'a list list \<Rightarrow> 'a list \<Rightarrow> 'a list" where
  "interleave (c # cs) (s # ss) = c @ s # interleave cs ss"
| "interleave (c # cs) [] = c"
| "interleave [] ss = ss"

fun inorder :: "('k, 'v) node \<Rightarrow> ('k \<times> 'v) list" where
  "inorder (Node ord leaf ks vs cs) = interleave (map inorder cs) (zip ks vs)"

fun well_formed :: "nat \<Rightarrow> ('k, 'v) node \<Rightarrow> bool" where
  "well_formed t (Node ord leaf ks vs cs) \<longleftrightarrow>
     ord = t \<and> length vs = length ks
     \<and> (if leaf then cs = [] else length cs = Suc (length ks))
     \<and> (\<forall>c \<in> set cs. well_formed t c)"

fun height :: "('k, 'v) node \<Rightarrow> nat" where
  "height (Node ord leaf ks vs []) = 0"
| "height (Node ord leaf ks vs (c # cs)) = (if leaf then 0 else Suc (height c))"

fun leaves_at :: "nat \<Rightarrow> ('k, 'v) node \<Rightarrow> bool" where
  "leaves_at d (Node ord leaf ks vs cs) \<longleftrightarrow>
     (if leaf then d = 0 else 0 < d \<and> (\<forall>c \<in> set cs. leaves_at (d - 1) c))"

fun occupancy :: "nat \<Rightarrow> ('k, 'v) node \<Rightarrow> bool" where
  "occupancy t (Node ord leaf ks vs cs) \<longleftrightarrow>
     t - 1 \<le> length ks \<and> length ks \<le> 2 * t - 1 \<and> (\<forall>c \<in> set cs. occupancy t c)"

fun subtree_keys :: "('k, 'v) node \<Rightarrow> 'k set" where
  "subtree_keys (Node ord leaf ks vs cs) = set ks \<union> (\<Union>c \<in> set cs. subtree_keys c)"

fun count_keys :: "('k, 'v) node \<Rightarrow> nat" where
  "count_keys (Node ord leaf ks vs cs) = length ks + sum_list (map count_keys cs)"

fun ordered :: "('k::linorder, 'v) node \<Rightarrow> bool" where
  "ordered (Node ord leaf ks vs cs) \<longleftrightarrow>
     sorted_wrt (<) ks
     \<and> (leaf \<or> (\<forall>i < length ks.
           (\<forall>k \<in> subtree_keys (cs ! i). k < ks ! i)
           \<and> (\<forall>k \<in> subtree_keys (cs ! Suc i). ks ! i < k)))
     \<and> (\<forall>c \<in> set cs. ordered c)"

definition btree_inv :: "('k::linorder, 'v) PyBTreeObject \<Rightarrow> bool" where
  "btree_inv btree \<longleftrightarrow>
     2 \<le> bt_order btree
     \<and> well_formed (bt_order btree) (bt_root btree)
     \<and> leaves_at (height (bt_root btree)) (bt_root btree)
     \<and> (\<forall>c \<in> set (children (bt_root btree)). occupancy (bt_order btree) c)
     \<and> n_keys (bt_root btree) \<le> 2 * bt_order btree - 1
     \<and> (n_keys (bt_root btree) = 0 \<longrightarrow> bt_size btree = 0 \<and> is_leaf (bt_root btree))
     \<and> ordered (bt_root btree)
     \<and> bt_size btree = int (count_keys (bt_root btree))"


section \<open>Sorted association lists\<close>

text \<open>The content of a map as a list of pairs in increasing key order, and the three map
  operations on it.\<close>

abbreviation sorted1 :: "('k::linorder \<times> 'v) list \<Rightarrow> bool" where
  "sorted1 ps \<equiv> sorted_wrt (<) (map fst ps)"

fun upd_list :: "'k::linorder \<Rightarrow> 'v \<Rightarrow> ('k \<times> 'v) list \<Rightarrow> ('k \<times> 'v) list" where
  "upd_list k v [] = [(k, v)]"
| "upd_list k v ((a, b) # ps) =
     (if k < a then (k, v) # (a, b) # ps
      else if k = a then (k, v) # ps
      else (a, b) # upd_list k v ps)"

fun del_list :: "'k \<Rightarrow> ('k \<times> 'v) list \<Rightarrow> ('k \<times> 'v) list" where
  "del_list k [] = []"
| "del_list k ((a, b) # ps) = (if k = a then ps else (a, b) # del_list k ps)"


lemma set_upd_list: "fst ` set (upd_list k v ps) = insert k (fst ` set ps)"
  by (induction k v ps rule: upd_list.induct) (simp_all add: insert_commute)

lemma sorted1_upd_list: "sorted1 ps \<Longrightarrow> sorted1 (upd_list k v ps)"
proof (induction k v ps rule: upd_list.induct)
  case (1 k v)
  then show ?case by simp
next
  case (2 k v a b ps)
  have "\<forall>x \<in> fst ` set (upd_list k v ps). a < x" if "a < k"
    using that "2.prems" by (auto simp: set_upd_list)
  then show ?case using 2 by auto
qed

lemma set_del_list_subset: "set (del_list k ps) \<subseteq> set ps"
  by (induction k ps rule: del_list.induct) auto

lemma sorted1_del_list: "sorted1 ps \<Longrightarrow> sorted1 (del_list k ps)"
proof (induction k ps rule: del_list.induct)
  case (1 k)
  then show ?case by simp
next
  case (2 k a b ps)
  then show ?case using set_del_list_subset [of k ps] by auto
qed

lemma upd_list_append_gt:
  "\<forall>x \<in> set ps. fst x < k \<Longrightarrow> upd_list k v (ps @ qs) = ps @ upd_list k v qs"
  by (induction ps) auto

lemma upd_list_less_hd:
  "k < fst q \<Longrightarrow> upd_list k v (q # qs) = (k, v) # q # qs"
  by (cases q) simp

lemma upd_list_mid:
  assumes "\<forall>x \<in> set ls. fst x < k" "\<forall>x \<in> set rs. k < fst x"
  shows "upd_list k v (ls @ ms @ rs) = ls @ upd_list k v ms @ rs"
proof -
  have "upd_list k v (ms @ rs) = upd_list k v ms @ rs"
    using assms(2)
  proof (induction k v ms rule: upd_list.induct)
    case (1 k v)
    then show ?case by (cases rs) (auto simp: upd_list_less_hd)
  next
    case (2 k v a b ps)
    then show ?case by auto
  qed
  then show ?thesis using assms(1) by (simp add: upd_list_append_gt)
qed

lemma del_list_absent: "\<forall>x \<in> set ps. fst x \<noteq> k \<Longrightarrow> del_list k ps = ps"
  by (induction k ps rule: del_list.induct) auto

lemma del_list_append_gt:
  "\<forall>x \<in> set ps. fst x \<noteq> k \<Longrightarrow> del_list k (ps @ qs) = ps @ del_list k qs"
  by (induction k ps rule: del_list.induct) auto

lemma del_list_mid:
  assumes "\<forall>x \<in> set ls. fst x < (k::'k::linorder)" "\<forall>x \<in> set rs. k < fst x"
  shows "del_list k (ls @ ms @ rs) = ls @ del_list k ms @ rs"
proof -
  have r: "del_list k rs = rs" using assms(2) by (intro del_list_absent) force
  have "del_list k (ms @ rs) = del_list k ms @ rs"
    by (induction ms) (auto simp: r)
  moreover have "\<forall>x \<in> set ls. fst x \<noteq> k" using assms(1) by force
  ultimately show ?thesis by (simp add: del_list_append_gt)
qed

lemma map_of_None_lt: "\<forall>x \<in> set ps. fst x \<noteq> k \<Longrightarrow> map_of ps k = None"
  by (induction ps) auto

lemma map_of_mid:
  assumes "\<forall>x \<in> set ls. fst x < (k::'k::linorder)" "\<forall>x \<in> set rs. k < fst x"
  shows "map_of (ls @ ms @ rs) k = map_of ms k"
proof -
  have "map_of ls k = None" using assms(1) by (intro map_of_None_lt) force
  moreover have "map_of rs k = None" using assms(2) by (intro map_of_None_lt) force
  ultimately show ?thesis by (simp add: map_add_def split: option.splits)
qed



lemma length_upd_list:
  "sorted1 ps \<Longrightarrow>
   length (upd_list k v ps) = (if k \<in> fst ` set ps then length ps else Suc (length ps))"
proof (induction k v ps rule: upd_list.induct)
  case (1 k v)
  then show ?case by simp
next
  case (2 k v a b ps)
  then show ?case by force
qed

lemma length_del_list:
  "sorted1 ps \<Longrightarrow>
   length (del_list k ps) = (if k \<in> fst ` set ps then length ps - 1 else length ps)"
proof (induction k ps rule: del_list.induct)
  case (1 k)
  then show ?case by simp
next
  case (2 k a b ps)
  have "k \<in> fst ` set ps \<Longrightarrow> ps \<noteq> []" by auto
  then show ?case using 2 by (auto simp: Suc_pred')
qed

section \<open>The in-order sequence of a node\<close>

lemma interleave_append:
  "length cs1 = length ss1 \<Longrightarrow> interleave (cs1 @ cs2) (ss1 @ ss2) = interleave cs1 ss1 @ interleave cs2 ss2"
  by (induction cs1 ss1 rule: list_induct2) auto

lemma set_interleave:
  "length cs = Suc (length ss) \<Longrightarrow> set (interleave cs ss) = \<Union> (set ` set cs) \<union> set ss"
proof (induction cs ss rule: interleave.induct)
  case (1 c cs s ss)
  then show ?case by auto
next
  case (2 c cs)
  then show ?case by auto
next
  case (3 ss)
  then show ?case by simp
qed

lemma length_interleave:
  "length cs = Suc (length ss) \<Longrightarrow>
     length (interleave cs ss) = sum_list (map length cs) + length ss"
  by (induction cs ss rule: interleave.induct) auto

definition interleave2 :: "'a list \<Rightarrow> 'a list list \<Rightarrow> 'a list" where
  "interleave2 ss cs = concat (map2 (#) ss cs)"

lemma interleave2_simps [simp]:
  "interleave2 [] cs = []" "interleave2 ss [] = []" "interleave2 (s # ss) (c # cs) = s # c @ interleave2 ss cs"
  by (simp_all add: interleave2_def)

lemma interleave_Cons2: "length cs = length ss \<Longrightarrow> interleave (c # cs) ss = c @ interleave2 ss cs"
  by (induction cs ss arbitrary: c rule: list_induct2) auto

lemma interleave_take_drop:
  assumes "length cs = Suc (length ss)" "i \<le> length ss"
  shows "interleave cs ss = interleave (take i cs) (take i ss) @ cs ! i @ interleave2 (drop i ss) (drop (Suc i) cs)"
proof -
  have i: "i < length cs" using assms by simp
  have "interleave cs ss = interleave (take i cs @ cs ! i # drop (Suc i) cs) (take i ss @ drop i ss)"
    using id_take_nth_drop [OF i] by simp
  also have "\<dots> = interleave (take i cs) (take i ss) @ interleave (cs ! i # drop (Suc i) cs) (drop i ss)"
    using assms by (intro interleave_append) simp
  also have "interleave (cs ! i # drop (Suc i) cs) (drop i ss) = cs ! i @ interleave2 (drop i ss) (drop (Suc i) cs)"
    using assms by (intro interleave_Cons2) simp
  finally show ?thesis .
qed

lemma interleave2_step:
  assumes "i < length ss" "length cs = Suc (length ss)"
  shows "interleave2 (drop i ss) (drop (Suc i) cs)
         = ss ! i # cs ! Suc i @ interleave2 (drop (Suc i) ss) (drop (Suc (Suc i)) cs)"
proof -
  have "drop i ss = ss ! i # drop (Suc i) ss" using assms by (simp add: Cons_nth_drop_Suc)
  moreover have "drop (Suc i) cs = cs ! Suc i # drop (Suc (Suc i)) cs"
    using assms by (simp add: Cons_nth_drop_Suc)
  ultimately show ?thesis by simp
qed

lemma interleave_take_Suc:
  assumes "i < length ss" "length cs = Suc (length ss)"
  shows "interleave (take (Suc i) cs) (take (Suc i) ss) = interleave (take i cs) (take i ss) @ cs ! i @ [ss ! i]"
proof -
  have "interleave (take (Suc i) cs) (take (Suc i) ss)
        = interleave (take i cs @ [cs ! i]) (take i ss @ [ss ! i])"
    using assms by (simp add: take_Suc_conv_app_nth)
  also have "\<dots> = interleave (take i cs) (take i ss) @ interleave [cs ! i] [ss ! i]"
    using assms by (intro interleave_append) simp
  finally show ?thesis by simp
qed

lemma interleave2_Nil_iff: "length cs = length ss \<Longrightarrow> interleave2 ss cs = [] \<longleftrightarrow> ss = []"
  by (cases ss; cases cs) simp_all

lemma interleave_Nil_iff: "length cs = length ss \<Longrightarrow> interleave cs ss = [] \<longleftrightarrow> ss = []"
  by (cases ss; cases cs) simp_all

lemma last_interleave:
  "length cs = length ss \<Longrightarrow> ss \<noteq> [] \<Longrightarrow> last (interleave cs ss) = last ss"
  by (induction cs ss rule: list_induct2) (auto simp: interleave_Nil_iff)

lemma hd_interleave2: "ss \<noteq> [] \<Longrightarrow> cs \<noteq> [] \<Longrightarrow> hd (interleave2 ss cs) = hd ss"
  by (cases ss; cases cs) simp_all


section \<open>The binary search\<close>

definition lower :: "'k::linorder list \<Rightarrow> 'k \<Rightarrow> nat" where
  "lower ks key = length (filter (\<lambda>x. x < key) ks)"

lemma filter_take_drop:
  "filter P ks = filter P (take n ks) @ filter P (drop n ks)"
  by (metis append_take_drop_id filter_append)

lemma lower_eqI:
  assumes "n \<le> length ks" "\<forall>i < n. ks ! i < key"
    and "\<forall>i. n \<le> i \<and> i < length ks \<longrightarrow> key < ks ! i"
  shows "lower ks key = n" and "key \<notin> set ks"
proof -
  have a: "\<forall>x \<in> set (take n ks). x < key"
    using assms(1,2) by (auto simp: in_set_conv_nth)
  have b: "\<forall>x \<in> set (drop n ks). key < x"
    using assms(1,3) by (auto simp: in_set_conv_nth)
  have "filter (\<lambda>x. x < key) (take n ks) = take n ks" using a by simp
  moreover have "filter (\<lambda>x. x < key) (drop n ks) = []"
    using b by (auto simp: filter_empty_conv)
  ultimately have "filter (\<lambda>x. x < key) ks = take n ks"
    using filter_take_drop [of "\<lambda>x. x < key" ks n] by simp
  then show "lower ks key = n" using assms(1) by (simp add: lower_def)
  have "key \<notin> set (take n ks) \<union> set (drop n ks)" using a b by auto
  then show "key \<notin> set ks" by (metis append_take_drop_id set_append)
qed

lemma lower_nth:
  assumes "sorted_wrt (<) ks" "i < length ks"
  shows "lower ks (ks ! i) = i"
proof -
  have a: "\<forall>x \<in> set (take i ks). x < ks ! i"
    using assms by (auto simp: in_set_conv_nth sorted_wrt_nth_less)
  have b: "\<forall>x \<in> set (drop i ks). \<not> x < ks ! i"
  proof
    fix x assume "x \<in> set (drop i ks)"
    then obtain j where j: "j < length ks - i" "x = ks ! (i + j)"
      by (auto simp: in_set_conv_nth)
    show "\<not> x < ks ! i"
    proof (cases j)
      case 0
      then show ?thesis using j by simp
    next
      case (Suc m)
      then have "ks ! i < ks ! (i + j)"
        using sorted_wrt_nth_less [OF assms(1), of i "i + j"] j by simp
      then show ?thesis using j by simp
    qed
  qed
  have "filter (\<lambda>x. x < ks ! i) (take i ks) = take i ks" using a by simp
  moreover have "filter (\<lambda>x. x < ks ! i) (drop i ks) = []"
    using b by (auto simp: filter_empty_conv)
  ultimately have "filter (\<lambda>x. x < ks ! i) ks = take i ks"
    using filter_take_drop [of "\<lambda>x. x < ks ! i" ks i] by simp
  then show ?thesis using assms(2) by (simp add: lower_def)
qed

lemma lower_le: "lower ks key \<le> length ks"
  by (simp add: lower_def)

lemma lower_split:
  "sorted_wrt (<) ks \<Longrightarrow>
     take (lower ks key) ks = filter (\<lambda>x. x < key) ks
     \<and> drop (lower ks key) ks = filter (\<lambda>x. \<not> x < key) ks"
proof (induction ks)
  case Nil
  show ?case by simp
next
  case (Cons x xs)
  have s: "sorted_wrt (<) xs" "\<forall>y \<in> set xs. x < y" using Cons.prems by auto
  have e: "filter (\<lambda>y. y < key) xs = []" "filter (\<lambda>y. \<not> y < key) xs = xs" if "\<not> x < key"
    using that s(2) by (auto simp: filter_empty_conv filter_id_conv)
  show ?case using Cons.IH [OF s(1)] e by (auto simp: lower_def)
qed

lemma lower_take: "sorted_wrt (<) ks \<Longrightarrow> x \<in> set (take (lower ks key) ks) \<Longrightarrow> x < key"
  by (auto simp: lower_split)

lemma lower_drop: "sorted_wrt (<) ks \<Longrightarrow> x \<in> set (drop (lower ks key) ks) \<Longrightarrow> key \<le> x"
  by (auto simp: lower_split not_less)

lemma lower_drop_absent:
  "sorted_wrt (<) ks \<Longrightarrow> key \<notin> set ks \<Longrightarrow> x \<in> set (drop (lower ks key) ks) \<Longrightarrow> key < x"
  using lower_drop [of ks x key] by (metis in_set_dropD leD linorder_neqE)

lemma lower_found:
  assumes "sorted_wrt (<) ks" "key \<in> set ks"
  shows "lower ks key < length ks" and "ks ! lower ks key = key"
proof -
  obtain i where i: "i < length ks" "ks ! i = key" using assms(2) by (auto simp: in_set_conv_nth)
  have "lower ks key = i" using lower_nth [OF assms(1) i(1)] i(2) by simp
  then show "lower ks key < length ks" "ks ! lower ks key = key" using i by simp_all
qed

lemma compare_keys_total:
  "total_host h \<Longrightarrow> compare_keys h a b = (if a = b then 0 else if a < b then - 1 else 1)"
  by (simp add: total_host_def)

lemma node_search_loop_sorted:
  "total_host h \<Longrightarrow> sorted_wrt (<) ks \<Longrightarrow> 0 \<le> low \<Longrightarrow> high < int (length ks) \<Longrightarrow> low \<le> high + 1
     \<Longrightarrow> \<forall>i. int i < low \<longrightarrow> ks ! i < key
     \<Longrightarrow> \<forall>i. high < int i \<and> i < length ks \<longrightarrow> key < ks ! i
     \<Longrightarrow> node_search_loop h ks key low high = Inr (lower ks key, key \<in> set ks)"
proof (induction h ks key low high rule: node_search_loop.induct)
  case (1 h ks key low high)
  note h = "1.prems"(1) and s = "1.prems"(2)
  show ?case
  proof (cases "low \<le> high")
    case False
    then have e: "low = high + 1" using "1.prems" by simp
    have n: "nat low \<le> length ks" using "1.prems" e by simp
    have a: "\<forall>i < nat low. ks ! i < key" using "1.prems"(6) by auto
    have b: "\<forall>i. nat low \<le> i \<and> i < length ks \<longrightarrow> key < ks ! i"
      using "1.prems"(3,7) e by auto
    have "lower ks key = nat low" "key \<notin> set ks"
      using lower_eqI [OF n a b] by auto
    then show ?thesis
      using False by (subst node_search_loop.simps) simp
  next
    case True
    define mid where "mid = low + (high - low) div 2"
    have m: "low \<le> mid" "mid \<le> high" using True by (simp_all add: mid_def)
    then have m0: "0 \<le> mid" "nat mid < length ks" using "1.prems" by simp_all
    define cmp where "cmp = compare_keys h key (ks ! nat mid)"
    have cmp: "cmp = (if key = ks ! nat mid then 0 else if key < ks ! nat mid then - 1 else 1)"
      unfolding cmp_def by (rule compare_keys_total [OF h])
    have step: "node_search_loop h ks key low high =
        (if cmp = - 2 then Inl ComparisonError
         else if cmp = 0 then Inr (nat mid, True)
         else if cmp < 0 then node_search_loop h ks key low (mid - 1)
         else node_search_loop h ks key (mid + 1) high)"
      using True by (subst node_search_loop.simps) (simp add: Let_def mid_def cmp_def)
    consider "key = ks ! nat mid" | "key < ks ! nat mid" | "ks ! nat mid < key"
      by (meson linorder_neqE)
    then show ?thesis
    proof cases
      case 1
      then have l: "lower ks key = nat mid" "key \<in> set ks"
        using lower_nth [OF s m0(2)] m0(2) by simp_all
      have "cmp = 0" using 1 cmp by simp
      then have "node_search_loop h ks key low high = Inr (nat mid, True)"
        unfolding step by simp
      then show ?thesis using l by simp
    next
      case 2
      have c: "cmp = - 1" using 2 cmp by auto
      have "\<forall>i. mid - 1 < int i \<and> i < length ks \<longrightarrow> key < ks ! i"
      proof (intro allI impI)
        fix i assume i: "mid - 1 < int i \<and> i < length ks"
        show "key < ks ! i"
        proof (cases "i = nat mid")
          case True then show ?thesis using 2 by simp
        next
          case False
          then have "nat mid < i" using i m0 by linarith
          then have "ks ! nat mid < ks ! i" using sorted_wrt_nth_less [OF s] i by blast
          then show ?thesis using 2 by simp
        qed
      qed
      then have "node_search_loop h ks key low (mid - 1) = Inr (lower ks key, key \<in> set ks)"
        using "1.IH"(1) [OF True mid_def cmp_def] c "1.prems" m m0 h s by simp
      then show ?thesis unfolding step c by simp
    next
      case 3
      have c: "cmp = 1" using 3 cmp by auto
      have "\<forall>i. int i < mid + 1 \<longrightarrow> ks ! i < key"
      proof (intro allI impI)
        fix i assume i: "int i < mid + 1"
        show "ks ! i < key"
        proof (cases "i = nat mid")
          case True then show ?thesis using 3 by simp
        next
          case False
          then have "i < nat mid" using i m0 by linarith
          then have "ks ! i < ks ! nat mid" using sorted_wrt_nth_less [OF s] m0 by blast
          then show ?thesis using 3 by simp
        qed
      qed
      then have "node_search_loop h ks key (mid + 1) high = Inr (lower ks key, key \<in> set ks)"
        using "1.IH"(2) [OF True mid_def cmp_def] c "1.prems" m m0 h s by simp
      then show ?thesis unfolding step c by simp
    qed
  qed
qed

lemma node_search_key_sorted:
  assumes "total_host h" "sorted_wrt (<) (keys node)"
  shows "node_search_key h node key = Inr (lower (keys node) key, key \<in> set (keys node))"
  unfolding node_search_key_def
  by (rule node_search_loop_sorted [OF assms]) auto

section \<open>The comparator of an ordered host\<close>

lemma host_order_total_host:
  assumes "host_order h"
  shows "total_host h"
proof -
  have rc: "PyObject_RichCompareBool h a b Py_LT = Some (a < b)"
      "PyObject_RichCompareBool h a b Py_EQ = Some (a = b)" for a b
    using assms by (simp_all add: host_order_def)
  have fl: "double_less (PyFloat_AS_DOUBLE h a) (PyFloat_AS_DOUBLE h b) \<longleftrightarrow> a < b"
    if "PyFloat_CheckExact h a" "PyFloat_CheckExact h b"
      "PyFloat_AS_DOUBLE h a \<noteq> DNaN" "PyFloat_AS_DOUBLE h b \<noteq> DNaN" for a b
    using assms that by (simp add: host_order_def)
  have un: "\<exists>c. PyUnicode_Compare h a b = Some c \<and> (c < 0 \<longleftrightarrow> a < b) \<and> (0 < c \<longleftrightarrow> b < a)"
    if "PyUnicode_CheckExact h a" "PyUnicode_CheckExact h b" for a b
    using assms that by (simp add: host_order_def)
  have "compare_keys h a b = (if a = b then 0 else if a < b then - 1 else 1)" for a b
  proof (cases "a = b")
    case True
    then show ?thesis by (simp add: compare_keys_def)
  next
    case ne: False
    consider (long) "PyLong_CheckExact h a \<and> PyLong_CheckExact h b"
      | (float) "\<not> (PyLong_CheckExact h a \<and> PyLong_CheckExact h b)"
          "PyFloat_CheckExact h a \<and> PyFloat_CheckExact h b
           \<and> PyFloat_AS_DOUBLE h a \<noteq> DNaN \<and> PyFloat_AS_DOUBLE h b \<noteq> DNaN"
      | (str) "\<not> (PyLong_CheckExact h a \<and> PyLong_CheckExact h b)"
          "\<not> (PyFloat_CheckExact h a \<and> PyFloat_CheckExact h b
           \<and> PyFloat_AS_DOUBLE h a \<noteq> DNaN \<and> PyFloat_AS_DOUBLE h b \<noteq> DNaN)"
          "PyUnicode_CheckExact h a \<and> PyUnicode_CheckExact h b"
      | (obj) "\<not> (PyLong_CheckExact h a \<and> PyLong_CheckExact h b)"
          "\<not> (PyFloat_CheckExact h a \<and> PyFloat_CheckExact h b
           \<and> PyFloat_AS_DOUBLE h a \<noteq> DNaN \<and> PyFloat_AS_DOUBLE h b \<noteq> DNaN)"
          "\<not> (PyUnicode_CheckExact h a \<and> PyUnicode_CheckExact h b)"
      by blast
    then show ?thesis
    proof cases
      case long
      then show ?thesis using ne by (simp add: compare_keys_def rc)
    next
      case float
      then have "double_less (PyFloat_AS_DOUBLE h a) (PyFloat_AS_DOUBLE h b) \<longleftrightarrow> a < b"
          "double_less (PyFloat_AS_DOUBLE h b) (PyFloat_AS_DOUBLE h a) \<longleftrightarrow> b < a"
        using fl [of a b] fl [of b a] by simp_all
      moreover have "compare_keys h a b =
        (if double_less (PyFloat_AS_DOUBLE h a) (PyFloat_AS_DOUBLE h b) then - 1
         else if double_less (PyFloat_AS_DOUBLE h b) (PyFloat_AS_DOUBLE h a) then 1
         else 0)"
        unfolding compare_keys_def using ne float by (simp only: if_False if_True simp_thms)
      ultimately show ?thesis using ne by auto
    next
      case str
      obtain c where "PyUnicode_Compare h a b = Some c" "c < 0 \<longleftrightarrow> a < b" "0 < c \<longleftrightarrow> b < a"
        using un [of a b] str(3) by blast
      moreover have "compare_keys h a b =
        (case PyUnicode_Compare h a b of
           None \<Rightarrow> - 2
         | Some c \<Rightarrow> (if c < 0 then - 1 else if c > 0 then 1 else 0))"
        unfolding compare_keys_def using ne str by (simp only: if_False if_True simp_thms)
      ultimately show ?thesis using ne by auto
    next
      case obj
      have "compare_keys h a b =
        (case PyObject_RichCompareBool h a b Py_EQ of
           None \<Rightarrow> - 2
         | Some True \<Rightarrow> 0
         | Some False \<Rightarrow>
             (case PyObject_RichCompareBool h a b Py_LT of
                None \<Rightarrow> - 2
              | Some True \<Rightarrow> - 1
              | Some False \<Rightarrow> 1))"
        unfolding compare_keys_def using ne obj by (simp only: if_False if_True simp_thms)
      then show ?thesis using ne by (simp add: rc)
    qed
  qed
  then show ?thesis by (simp add: total_host_def)
qed


section \<open>Nodes by their fields\<close>

lemma well_formed_sel:
  "well_formed t n \<longleftrightarrow> order n = t \<and> length (vals n) = n_keys n
     \<and> (if is_leaf n then children n = [] else length (children n) = Suc (n_keys n))
     \<and> (\<forall>c \<in> set (children n). well_formed t c)"
  by (cases n) simp

lemma leaves_at_sel:
  "leaves_at d n \<longleftrightarrow>
     (if is_leaf n then d = 0 else 0 < d \<and> (\<forall>c \<in> set (children n). leaves_at (d - 1) c))"
  by (cases n) simp

lemma occupancy_sel:
  "occupancy t n \<longleftrightarrow> t - 1 \<le> n_keys n \<and> n_keys n \<le> 2 * t - 1
     \<and> (\<forall>c \<in> set (children n). occupancy t c)"
  by (cases n) simp

lemma inorder_sel:
  "inorder n = interleave (map inorder (children n)) (zip (keys n) (vals n))"
  by (cases n) simp

lemma count_keys_sel: "count_keys n = n_keys n + sum_list (map count_keys (children n))"
  by (cases n) simp

lemma subtree_keys_sel:
  "subtree_keys n = set (keys n) \<union> (\<Union>c \<in> set (children n). subtree_keys c)"
  by (cases n) simp

lemma well_formed_leaf_inorder: "well_formed t n \<Longrightarrow> is_leaf n \<Longrightarrow> inorder n = zip (keys n) (vals n)"
  by (cases n) simp

lemma well_formed_leaf_children: "well_formed t n \<Longrightarrow> is_leaf n \<Longrightarrow> children n = []"
  by (cases n) simp

lemma well_formed_child: "well_formed t n \<Longrightarrow> c \<in> set (children n) \<Longrightarrow> well_formed t c"
  by (cases n) simp

lemma well_formed_nth: "well_formed t n \<Longrightarrow> i < length (children n) \<Longrightarrow> well_formed t (children n ! i)"
  by (cases n) simp

lemma well_formed_length: "well_formed t n \<Longrightarrow> \<not> is_leaf n \<Longrightarrow> length (children n) = Suc (n_keys n)"
  by (cases n) simp

lemma well_formed_vals: "well_formed t n \<Longrightarrow> length (vals n) = n_keys n"
  by (cases n) simp

lemma well_formed_order: "well_formed t n \<Longrightarrow> order n = t"
  by (cases n) simp

section \<open>The parts of the in-order sequence around a child\<close>

definition before :: "('k, 'v) node \<Rightarrow> nat \<Rightarrow> ('k \<times> 'v) list" where
  "before n i = interleave (map inorder (take i (children n))) (take i (zip (keys n) (vals n)))"

definition behind :: "('k, 'v) node \<Rightarrow> nat \<Rightarrow> ('k \<times> 'v) list" where
  "behind n i =
     interleave2 (drop i (zip (keys n) (vals n))) (map inorder (drop (Suc i) (children n)))"

lemma inorder_shape:
  assumes "length (children n) = Suc (n_keys n)" "length (vals n) = n_keys n" "i \<le> n_keys n"
  shows "inorder n = before n i @ inorder (children n ! i) @ behind n i"
proof -
  have l: "length (map inorder (children n)) = Suc (length (zip (keys n) (vals n)))"
    using assms by simp
  have i: "i \<le> length (zip (keys n) (vals n))" using assms by simp
  have c: "i < length (children n)" using assms by simp
  have "inorder n = interleave (map inorder (children n)) (zip (keys n) (vals n))"
    by (rule inorder_sel)
  also have "\<dots> = before n i @ inorder (children n ! i) @ behind n i"
    using interleave_take_drop [OF l i] c
    by (simp add: before_def behind_def take_map drop_map)
  finally show ?thesis .
qed

lemma inorder_at:
  assumes "well_formed t n" "\<not> is_leaf n" "i \<le> n_keys n"
  shows "inorder n = before n i @ inorder (children n ! i) @ behind n i"
  using inorder_shape [OF well_formed_length [OF assms(1,2)] well_formed_vals [OF assms(1)] assms(3)] .

lemma behind_step:
  assumes "length (children n) = Suc (n_keys n)" "length (vals n) = n_keys n" "i < n_keys n"
  shows "behind n i = (keys n ! i, vals n ! i) # inorder (children n ! Suc i) @ behind n (Suc i)"
proof -
  have l: "length (map inorder (children n)) = Suc (length (zip (keys n) (vals n)))"
    using assms by simp
  have i: "i < length (zip (keys n) (vals n))" using assms by simp
  show ?thesis
    using interleave2_step [OF i l] assms
    by (simp add: behind_def drop_map)
qed

lemma before_step:
  assumes "length (children n) = Suc (n_keys n)" "length (vals n) = n_keys n" "i < n_keys n"
  shows "before n (Suc i) = before n i @ inorder (children n ! i) @ [(keys n ! i, vals n ! i)]"
proof -
  have l: "length (map inorder (children n)) = Suc (length (zip (keys n) (vals n)))"
    using assms by simp
  have i: "i < length (zip (keys n) (vals n))" using assms by simp
  show ?thesis
    using interleave_take_Suc [OF i l] assms
    by (simp add: before_def take_map)
qed

lemma before_0 [simp]: "before n 0 = []"
  by (simp add: before_def)

lemma behind_last:
  "length (vals n) = n_keys n \<Longrightarrow> behind n (n_keys n) = []"
  by (simp add: behind_def)

lemma before_node [simp]:
  "before (Node ord leaf ks vs cs) i = interleave (map inorder (take i cs)) (take i (zip ks vs))"
  by (simp add: before_def)

lemma behind_node [simp]:
  "behind (Node ord leaf ks vs cs) i
     = interleave2 (drop i (zip ks vs)) (map inorder (drop (Suc i) cs))"
  by (simp add: behind_def)

lemma map_interleave: "map f (interleave cs ss) = interleave (map (map f) cs) (map f ss)"
  by (induction cs ss rule: interleave.induct) simp_all

lemma set_interleave_slots:
  "length cs = Suc (length ss) \<Longrightarrow> set ss \<subseteq> set (interleave cs ss)"
  by (simp add: set_interleave)

lemma set_interleave_child:
  "length cs = Suc (length ss) \<Longrightarrow> c \<in> set cs \<Longrightarrow> set c \<subseteq> set (interleave cs ss)"
  by (auto simp: set_interleave)

lemma sorted_interleave_D:
  "length Ks = Suc (length ks) \<Longrightarrow> sorted_wrt (<) (interleave Ks ks) \<Longrightarrow>
     (\<forall>K \<in> set Ks. sorted_wrt (<) K) \<and> sorted_wrt (<) ks
     \<and> (\<forall>i < length ks. (\<forall>x \<in> set (Ks ! i). x < ks ! i)
                        \<and> (\<forall>x \<in> set (Ks ! Suc i). (ks ! i :: 'a::linorder) < x))"
proof (induction Ks ks rule: interleave.induct)
  case (1 c cs s ss)
  have l: "length cs = Suc (length ss)" using "1.prems"(1) by simp
  have s: "sorted_wrt (<) c" "sorted_wrt (<) (interleave cs ss)"
    "\<forall>x \<in> set c. x < s" "\<forall>y \<in> set (interleave cs ss). s < y"
    using "1.prems"(2) by (auto simp: sorted_wrt_append)
  note ih = "1.IH" [OF l s(2)]
  have "cs \<noteq> []" using l by auto
  then have "set (cs ! 0) \<subseteq> set (interleave cs ss)"
    using set_interleave_child [OF l, of "cs ! 0"] by simp
  then have a: "\<forall>x \<in> set (cs ! 0). s < x" using s(4) by auto
  have b: "\<forall>y \<in> set ss. s < y" using s(4) set_interleave_slots [OF l] by auto
  show ?case using s(1,3) ih a b by (simp add: All_less_Suc2)
next
  case (2 c cs)
  then show ?case by simp
next
  case (3 ss)
  then show ?case by simp
qed

lemma sorted_interleave_I:
  "length Ks = Suc (length ks) \<Longrightarrow> \<forall>K \<in> set Ks. sorted_wrt (<) K \<Longrightarrow> sorted_wrt (<) ks
   \<Longrightarrow> \<forall>i < length ks. (\<forall>x \<in> set (Ks ! i). x < ks ! i)
                        \<and> (\<forall>x \<in> set (Ks ! Suc i). (ks ! i :: 'a::linorder) < x)
   \<Longrightarrow> sorted_wrt (<) (interleave Ks ks)"
proof (induction Ks ks rule: interleave.induct)
  case (1 c cs s ss)
  have l: "length cs = Suc (length ss)" using "1.prems"(1) by simp
  have p: "\<forall>x \<in> set c. x < s" "\<forall>x \<in> set (cs ! 0). s < x"
    "\<forall>i < length ss. (\<forall>x \<in> set (cs ! i). x < ss ! i) \<and> (\<forall>x \<in> set (cs ! Suc i). ss ! i < x)"
    using "1.prems"(4) by (simp_all add: All_less_Suc2)
  have ss: "sorted_wrt (<) ss" "\<forall>y \<in> set ss. s < y" using "1.prems"(3) by auto
  have ih: "sorted_wrt (<) (interleave cs ss)"
    using "1.IH" [OF l] "1.prems"(2) ss(1) p(3) by simp
  have b: "s < y" if y: "y \<in> set (interleave cs ss)" for y
  proof -
    have "y \<in> set ss \<or> (\<exists>c \<in> set cs. y \<in> set c)"
      using y by (auto simp: set_interleave [OF l])
    then consider "y \<in> set ss" | j where "j < length cs" "y \<in> set (cs ! j)"
      by (metis in_set_conv_nth)
    then show ?thesis
    proof cases
      case 1
      then show ?thesis using ss(2) by simp
    next
      case 2
      show ?thesis
      proof (cases j)
        case 0
        then show ?thesis using 2 p(2) by simp
      next
        case (Suc m)
        then have m: "m < length ss" using 2(1) l by simp
        then have "ss ! m < y" using p(3) 2(2) Suc by simp
        moreover have "s < ss ! m" using ss(2) m by simp
        ultimately show ?thesis by simp
      qed
    qed
  qed
  have "x < y" if "x \<in> set c" "y \<in> set (interleave cs ss)" for x y
    using p(1) b that by (meson less_trans)
  then show ?case using "1.prems"(2) ih p(1) b by (auto simp: sorted_wrt_append)
next
  case (2 c cs)
  then show ?case by simp
next
  case (3 ss)
  then show ?case by simp
qed

lemma fst_set_zip: "length vs = length ks \<Longrightarrow> fst ` set (zip ks vs) = set ks"
  by (metis list.set_map map_fst_zip)

lemma keys_inorder_leaf: "well_formed t n \<Longrightarrow> is_leaf n \<Longrightarrow> map fst (inorder n) = keys n"
  using well_formed_vals [of t n] by (simp add: well_formed_leaf_inorder)

lemma keys_inorder:
  "well_formed t n \<Longrightarrow>
   map fst (inorder n) = interleave (map (\<lambda>c. map fst (inorder c)) (children n)) (keys n)"
  using well_formed_vals [of t n] by (simp add: inorder_sel [of n] map_interleave comp_def)

lemma subtree_keys_inorder: "well_formed t n \<Longrightarrow> subtree_keys n = fst ` set (inorder n)"
proof (induction n)
  case (Node ord leaf ks vs cs)
  have ih: "subtree_keys c = fst ` set (inorder c)" if "c \<in> set cs" for c
    using Node.IH [OF that] Node.prems that by simp
  show ?case
  proof (cases leaf)
    case True
    then show ?thesis using Node.prems by (simp add: fst_set_zip)
  next
    case False
    then have l: "length (map inorder cs) = Suc (length (zip ks vs))"
      using Node.prems by simp
    have "fst ` set (zip ks vs) = set ks"
      using Node.prems by (simp add: fst_set_zip)
    then show ?thesis
      using ih by (auto simp: set_interleave [OF l] image_Un image_UN)
  qed
qed

lemma count_keys_inorder: "well_formed t n \<Longrightarrow> count_keys n = length (inorder n)"
proof (induction n)
  case (Node ord leaf ks vs cs)
  have ih: "count_keys c = length (inorder c)" if "c \<in> set cs" for c
    using Node.IH [OF that] Node.prems that by simp
  then have m: "map count_keys cs = map (length \<circ> inorder) cs" by simp
  show ?case
  proof (cases leaf)
    case True
    then show ?thesis using Node.prems by simp
  next
    case False
    then have l: "length (map inorder cs) = Suc (length (zip ks vs))"
      using Node.prems by simp
    show ?thesis
      using Node.prems by (simp add: length_interleave [OF l] m)
  qed
qed

lemma ordered_iff_sorted: "well_formed t n \<Longrightarrow> ordered n \<longleftrightarrow> sorted1 (inorder n)"
proof (induction n)
  case (Node ord leaf ks vs cs)
  let ?n = "Node ord leaf ks vs cs"
  have ih: "ordered c \<longleftrightarrow> sorted1 (inorder c)" if "c \<in> set cs" for c
    using Node.IH [OF that] Node.prems that by simp
  have sk: "subtree_keys c = set (map fst (inorder c))" if "c \<in> set cs" for c
    using subtree_keys_inorder [of t c] Node.prems that by simp
  show ?case
  proof (cases leaf)
    case True
    then show ?thesis using Node.prems keys_inorder_leaf [of t ?n] by simp
  next
    case False
    let ?Ks = "map (\<lambda>c. map fst (inorder c)) cs"
    have l: "length ?Ks = Suc (length ks)" using Node.prems False by simp
    have m: "map fst (inorder ?n) = interleave ?Ks ks"
      using keys_inorder [OF Node.prems] by simp
    have K: "set (?Ks ! i) = subtree_keys (cs ! i)" if "i < length cs" for i
      using that sk [of "cs ! i"] by simp
    have loc: "(\<forall>i < length ks. (\<forall>x \<in> set (?Ks ! i). x < ks ! i) \<and> (\<forall>x \<in> set (?Ks ! Suc i). ks ! i < x))
       \<longleftrightarrow> (\<forall>i < length ks. (\<forall>k \<in> subtree_keys (cs ! i). k < ks ! i)
                          \<and> (\<forall>k \<in> subtree_keys (cs ! Suc i). ks ! i < k))"
    proof -
      have "set (?Ks ! i) = subtree_keys (cs ! i) \<and> set (?Ks ! Suc i) = subtree_keys (cs ! Suc i)"
        if "i < length ks" for i
        using that l K [of i] K [of "Suc i"] by simp
      then show ?thesis by simp
    qed
    have ch: "(\<forall>K \<in> set ?Ks. sorted_wrt (<) K) \<longleftrightarrow> (\<forall>c \<in> set cs. ordered c)"
      using ih by auto
    show ?thesis
      unfolding m
      using sorted_interleave_D [OF l] sorted_interleave_I [OF l] loc ch False
      by auto
  qed
qed


section \<open>Bounds on the two sides of a descent\<close>

lemma sorted1_le_last: "sorted1 xs \<Longrightarrow> p \<in> set xs \<Longrightarrow> fst p \<le> fst (last xs)"
proof (induction xs)
  case Nil
  then show ?case by simp
next
  case (Cons x xs)
  show ?case
  proof (cases "xs = []")
    case True
    then show ?thesis using Cons.prems by simp
  next
    case False
    then have "fst x < fst (last xs)" using Cons.prems(1) by simp
    moreover have "fst p \<le> fst (last xs)" if "p \<in> set xs"
      using Cons.IH that Cons.prems(1) by simp
    ultimately show ?thesis using Cons.prems(2) False by auto
  qed
qed

lemma sorted1_hd_le: "sorted1 xs \<Longrightarrow> p \<in> set xs \<Longrightarrow> fst (hd xs) \<le> fst p"
  by (cases xs) auto

lemma before_last:
  assumes "length (children n) = Suc (n_keys n)" "length (vals n) = n_keys n"
    and "0 < i" "i \<le> n_keys n"
  shows "before n i \<noteq> []" and "fst (last (before n i)) = keys n ! (i - 1)"
proof -
  let ?ss = "take i (zip (keys n) (vals n))"
  let ?cs = "map inorder (take i (children n))"
  have l: "length ?cs = length ?ss" using assms by simp
  have "length ?ss = i" using assms by simp
  then have ne: "?ss \<noteq> []" using assms(3) by auto
  show "before n i \<noteq> []"
    using interleave_Nil_iff [OF l] ne by (simp add: before_def)
  have "last (before n i) = last ?ss"
    unfolding before_def by (rule last_interleave [OF l ne])
  also have "\<dots> = zip (keys n) (vals n) ! (i - 1)"
    using assms ne by (simp add: last_conv_nth)
  finally show "fst (last (before n i)) = keys n ! (i - 1)" using assms by simp
qed

lemma behind_hd:
  assumes "length (children n) = Suc (n_keys n)" "length (vals n) = n_keys n" "i < n_keys n"
  shows "behind n i \<noteq> []" and "fst (hd (behind n i)) = keys n ! i"
  using behind_step [OF assms] by simp_all

lemma descend_bounds:
  assumes "well_formed t n" "\<not> is_leaf n" "sorted1 (inorder n)" "i \<le> n_keys n"
    and lo: "\<forall>x \<in> set (take i (keys n)). x < key"
    and hi: "\<forall>x \<in> set (drop i (keys n)). key < x"
  shows "\<forall>p \<in> set (before n i). fst p < key" and "\<forall>p \<in> set (behind n i). key < fst p"
proof -
  note sh = well_formed_length [OF assms(1,2)] well_formed_vals [OF assms(1)]
  have s: "sorted1 (before n i)" "sorted1 (behind n i)"
    using assms(3) unfolding inorder_at [OF assms(1,2,4)] by (simp_all add: sorted_wrt_append)
  show "\<forall>p \<in> set (before n i). fst p < key"
  proof (cases "i = 0")
    case True
    then show ?thesis by simp
  next
    case False
    then have i: "0 < i" by simp
    have "keys n ! (i - 1) \<in> set (take i (keys n))"
      using i assms(4) by (metis Suc_pred' in_set_conv_nth length_take lessI min.absorb2 nth_take)
    then have "fst (last (before n i)) < key"
      using before_last(2) [OF sh i assms(4)] lo by simp
    then show ?thesis using sorted1_le_last [OF s(1)] by fastforce
  qed
  show "\<forall>p \<in> set (behind n i). key < fst p"
  proof (cases "i = n_keys n")
    case True
    then show ?thesis using behind_last [OF sh(2)] by simp
  next
    case False
    then have i: "i < n_keys n" using assms(4) by simp
    have "keys n ! i \<in> set (drop i (keys n))"
      using i by (metis Cons_nth_drop_Suc list.set_intros(1))
    then have "key < fst (hd (behind n i))"
      using behind_hd(2) [OF sh i] hi by simp
    then show ?thesis using sorted1_hd_le [OF s(2)] by fastforce
  qed
qed

lemma lower_bounds:
  assumes "sorted_wrt (<) ks" "key \<notin> set ks"
  shows "\<forall>x \<in> set (take (lower ks key) ks). x < key"
    and "\<forall>x \<in> set (drop (lower ks key) ks). key < x"
  using assms lower_take lower_drop_absent by blast+

section \<open>Slots of a node\<close>

lemma zip_insert_at:
  "length vs = length ks \<Longrightarrow>
   zip (take i ks @ k # drop i ks) (take i vs @ v # drop i vs)
     = take i (zip ks vs) @ (k, v) # drop i (zip ks vs)"
  by (simp add: take_zip drop_zip)

lemma zip_remove_at:
  "length vs = length ks \<Longrightarrow>
   zip (take i ks @ drop (Suc i) ks) (take i vs @ drop (Suc i) vs)
     = take i (zip ks vs) @ drop (Suc i) (zip ks vs)"
  by (simp add: take_zip drop_zip)

lemma zip_update_val:
  "zip ks (vs[i := v]) = (zip ks vs)[i := (ks ! i, v)]"
  by (metis list_update_id zip_update)

lemma keys_sorted:
  assumes "well_formed t n" "sorted1 (inorder n)"
  shows "sorted_wrt (<) (keys n)"
proof (cases "is_leaf n")
  case True
  then show ?thesis using assms keys_inorder_leaf [OF assms(1)] by simp
next
  case False
  have l: "length (map (\<lambda>c. map fst (inorder c)) (children n)) = Suc (n_keys n)"
    using well_formed_length [OF assms(1) False] by simp
  show ?thesis
    using sorted_interleave_D [OF l] assms(2) keys_inorder [OF assms(1)] by simp
qed

lemma child_sorted:
  assumes "well_formed t n" "sorted1 (inorder n)" "c \<in> set (children n)"
  shows "sorted1 (inorder c)"
proof -
  have nl: "\<not> is_leaf n" using assms(1,3) well_formed_leaf_children by fastforce
  have l: "length (map (\<lambda>c. map fst (inorder c)) (children n)) = Suc (n_keys n)"
    using well_formed_length [OF assms(1) nl] by simp
  show ?thesis
    using sorted_interleave_D [OF l] assms(2,3) keys_inorder [OF assms(1)] by simp
qed

lemma keys_subset_inorder:
  assumes "well_formed t n"
  shows "set (keys n) \<subseteq> fst ` set (inorder n)"
  using subtree_keys_inorder [OF assms] subtree_keys_sel [of n] by auto


section \<open>Splitting keeps the in-order sequence\<close>

lemma split_halves_inorder:
  assumes t: "0 < order c"
    and k: "n_keys c = 2 * order c - 1" and v: "length (vals c) = 2 * order c - 1"
    and cs: "is_leaf c \<and> children c = [] \<or> \<not> is_leaf c \<and> length (children c) = 2 * order c"
  shows "inorder c = inorder (split_left c)
                       @ (keys c ! (order c - 1), vals c ! (order c - 1)) # inorder (split_right c)"
proof -
  define t where "t = order c"
  define ss where "ss = zip (keys c) (vals c)"
  define Cs where "Cs = map inorder (children c)"
  have t0: "0 < t" and lss: "length ss = 2 * t - 1"
    using t k v by (simp_all add: t_def ss_def)
  have m: "t - 1 < length ss" using t0 lss by simp
  have mid: "ss ! (t - 1) = (keys c ! (order c - 1), vals c ! (order c - 1))"
    using m k v by (simp add: ss_def t_def)
  have tl: "take (t - 1) (drop t ss) = drop t ss" using lss by simp
  have sl: "zip (take (t - 1) (keys c)) (take (t - 1) (vals c)) = take (t - 1) ss"
    by (simp add: ss_def take_zip)
  have sr: "zip (take (t - 1) (drop t (keys c))) (take (t - 1) (drop t (vals c))) = drop t ss"
    using tl by (simp add: ss_def take_zip drop_zip)
  from cs show ?thesis
  proof
    assume leaf: "is_leaf c \<and> children c = []"
    have "inorder c = ss" using leaf by (simp add: inorder_sel [of c] ss_def)
    moreover have "inorder (split_left c) = take (t - 1) ss"
      using leaf sl by (simp add: split_left_def t_def)
    moreover have "inorder (split_right c) = drop t ss"
      using leaf sr by (simp add: split_right_def t_def)
    moreover have "ss = take (t - 1) ss @ ss ! (t - 1) # drop t ss"
      using id_take_nth_drop [OF m] t0 by simp
    ultimately show ?thesis using mid by simp
  next
    assume int: "\<not> is_leaf c \<and> length (children c) = 2 * order c"
    have lcs: "length Cs = Suc (length ss)" using int lss t0 by (simp add: Cs_def t_def)
    have "inorder c = interleave Cs ss" by (simp add: inorder_sel [of c] ss_def Cs_def)
    also have "\<dots> = interleave (take (t - 1) Cs) (take (t - 1) ss) @ Cs ! (t - 1)
                      @ interleave2 (drop (t - 1) ss) (drop (Suc (t - 1)) Cs)"
      using m by (intro interleave_take_drop [OF lcs]) simp
    also have "interleave2 (drop (t - 1) ss) (drop (Suc (t - 1)) Cs)
        = ss ! (t - 1) # Cs ! Suc (t - 1) @ interleave2 (drop (Suc (t - 1)) ss) (drop (Suc (Suc (t - 1))) Cs)"
      by (rule interleave2_step [OF m lcs])
    finally have c: "inorder c = (interleave (take (t - 1) Cs) (take (t - 1) ss) @ Cs ! (t - 1))
        @ ss ! (t - 1) # (Cs ! t @ interleave2 (drop t ss) (drop (Suc t) Cs))"
      using t0 by simp
    have ll: "length (take t Cs) = Suc (length (take (t - 1) ss))"
      using lcs lss t0 by simp
    have "inorder (split_left c) = interleave (take t Cs) (take (t - 1) ss)"
      using int sl by (simp add: split_left_def t_def Cs_def take_map)
    also have "\<dots> = interleave (take (t - 1) (take t Cs)) (take (t - 1) (take (t - 1) ss))
          @ take t Cs ! (t - 1)
          @ interleave2 (drop (t - 1) (take (t - 1) ss)) (drop (Suc (t - 1)) (take t Cs))"
      using lss t0 by (intro interleave_take_drop [OF ll]) simp
    finally have l: "inorder (split_left c)
        = interleave (take (t - 1) Cs) (take (t - 1) ss) @ Cs ! (t - 1)"
      using t0 by (simp add: min_def)
    have tc: "take t (drop t (children c)) = drop t (children c)" using int by (simp add: t_def)
    have dc: "drop t Cs = Cs ! t # drop (Suc t) Cs"
      using lcs lss t0 by (simp add: Cons_nth_drop_Suc)
    have "inorder (split_right c) = interleave (drop t Cs) (drop t ss)"
      using int sr tc by (simp add: split_right_def t_def [symmetric] Cs_def drop_map)
    also have "\<dots> = Cs ! t @ interleave2 (drop t ss) (drop (Suc t) Cs)"
      unfolding dc using lcs by (intro interleave_Cons2) simp
    finally have r: "inorder (split_right c) = Cs ! t @ interleave2 (drop t ss) (drop (Suc t) Cs)" .
    show ?thesis unfolding c l r mid by simp
  qed
qed

lemma split_child_inorder:
  assumes sh: "length (children n) = Suc (n_keys n)" "length (vals n) = n_keys n"
    and i: "i \<le> n_keys n"
    and t: "0 < order (children n ! i)"
    and k: "n_keys (children n ! i) = 2 * order (children n ! i) - 1"
    and v: "length (vals (children n ! i)) = 2 * order (children n ! i) - 1"
    and cs: "is_leaf (children n ! i) \<and> children (children n ! i) = []
             \<or> \<not> is_leaf (children n ! i)
               \<and> length (children (children n ! i)) = 2 * order (children n ! i)"
  shows "inorder (split_child n i) = inorder n"
proof -
  define c where "c = children n ! i"
  define ss where "ss = zip (keys n) (vals n)"
  define m where "m = (keys c ! (order c - 1), vals c ! (order c - 1))"
  define rest where "rest = map inorder (drop (Suc i) (children n))"
  have h: "inorder c = inorder (split_left c) @ m # inorder (split_right c)"
    unfolding m_def c_def by (rule split_halves_inorder [OF t k v cs])
  have z: "zip (keys (split_child n i)) (vals (split_child n i)) = take i ss @ m # drop i ss"
    unfolding split_child_sel ss_def m_def c_def by (rule zip_insert_at [OF sh(2)])
  have "inorder (split_child n i)
        = interleave (map inorder (take i (children n))
                        @ inorder (split_left c) # inorder (split_right c) # rest)
                     (take i ss @ m # drop i ss)"
    unfolding inorder_sel [of "split_child n i"] z
    by (simp add: split_child_children2 c_def rest_def)
  also have "\<dots> = interleave (map inorder (take i (children n))) (take i ss)
        @ interleave (inorder (split_left c) # inorder (split_right c) # rest) (m # drop i ss)"
    using sh i by (intro interleave_append) (simp add: ss_def)
  also have "interleave (inorder (split_left c) # inorder (split_right c) # rest) (m # drop i ss)
        = inorder (split_left c) @ m # interleave (inorder (split_right c) # rest) (drop i ss)"
    by simp
  also have "interleave (inorder (split_right c) # rest) (drop i ss)
        = inorder (split_right c) @ interleave2 (drop i ss) rest"
    using sh i by (intro interleave_Cons2) (simp add: rest_def ss_def)
  finally have "inorder (split_child n i) = before n i @ inorder c @ behind n i"
    unfolding h by (simp add: before_def behind_def ss_def rest_def)
  then show ?thesis using inorder_shape [OF sh i] by (simp add: c_def)
qed


section \<open>The shape of a split node\<close>

lemma well_formed_split_left:
  assumes "well_formed t c" "n_keys c = 2 * t - 1" "0 < t"
  shows "well_formed t (split_left c)"
proof -
  have o: "order c = t" and v: "length (vals c) = n_keys c"
    using assms(1) well_formed_order well_formed_vals by blast+
  have ch: "\<forall>x \<in> set (take t (children c)). well_formed t x"
    using assms(1) well_formed_child by (metis in_set_takeD)
  show ?thesis
  proof (cases "is_leaf c")
    case True
    then show ?thesis
      using o v well_formed_leaf_children [OF assms(1)] by (simp add: split_left_def)
  next
    case False
    then have "length (children c) = Suc (n_keys c)" using assms(1) well_formed_length by blast
    moreover have "min (2 * t - 1) (t - 1) = t - 1" using assms(3) by simp
    ultimately show ?thesis
      using False o v ch assms(2,3) by (simp add: split_left_def)
  qed
qed

lemma well_formed_split_right:
  assumes "well_formed t c" "n_keys c = 2 * t - 1" "0 < t"
  shows "well_formed t (split_right c)"
proof -
  have o: "order c = t" and v: "length (vals c) = n_keys c"
    using assms(1) well_formed_order well_formed_vals by blast+
  have ch: "\<forall>x \<in> set (take t (drop t (children c))). well_formed t x"
    using assms(1) well_formed_child by (metis in_set_takeD in_set_dropD)
  show ?thesis
  proof (cases "is_leaf c")
    case True
    then show ?thesis
      using o v by (simp add: split_right_def)
  next
    case False
    then have "length (children c) = Suc (n_keys c)" using assms(1) well_formed_length by blast
    then show ?thesis
      using False o v ch assms(2,3) by (auto simp: split_right_def)
  qed
qed

lemma split_halves_n_keys:
  assumes "order c = t" "n_keys c = 2 * t - 1" "0 < t"
  shows "n_keys (split_left c) = t - 1" "n_keys (split_right c) = t - 1"
  using assms by (simp_all add: split_left_def split_right_def min_def)

lemma leaves_at_children: "leaves_at d n \<Longrightarrow> \<not> is_leaf n \<Longrightarrow> c \<in> set (children n) \<Longrightarrow> leaves_at (d - 1) c"
  by (cases n) simp

lemma leaves_at_leaf: "leaves_at d n \<Longrightarrow> is_leaf n \<longleftrightarrow> d = 0"
  by (cases n) (simp split: if_splits)

lemma leaves_at_split_halves:
  assumes "leaves_at d c"
  shows "leaves_at d (split_left c)" "leaves_at d (split_right c)"
proof -
  have "\<forall>x \<in> set (take k (children c)). leaves_at (d - 1) x" if "\<not> is_leaf c" for k
    using assms that leaves_at_children by (metis in_set_takeD)
  moreover have "\<forall>x \<in> set (take k (drop j (children c))). leaves_at (d - 1) x"
    if "\<not> is_leaf c" for k j
    using assms that leaves_at_children by (metis in_set_takeD in_set_dropD)
  moreover have "is_leaf c \<longleftrightarrow> d = 0" using assms by (rule leaves_at_leaf)
  ultimately show "leaves_at d (split_left c)" "leaves_at d (split_right c)"
    by (auto simp: split_left_def split_right_def)
qed

lemma occupancy_children: "occupancy t n \<Longrightarrow> c \<in> set (children n) \<Longrightarrow> occupancy t c"
  by (cases n) simp

lemma occupancy_split_halves:
  assumes "occupancy t c" "order c = t" "n_keys c = 2 * t - 1" "0 < t"
  shows "occupancy t (split_left c)" "occupancy t (split_right c)"
proof -
  have "\<forall>x \<in> set (take k (children c)). occupancy t x" for k
    using assms(1) occupancy_children by (metis in_set_takeD)
  moreover have "\<forall>x \<in> set (take k (drop j (children c))). occupancy t x" for k j
    using assms(1) occupancy_children by (metis in_set_takeD in_set_dropD)
  moreover have "\<forall>x \<in> set (children c). occupancy t x"
    using assms(1) occupancy_children by blast
  ultimately show "occupancy t (split_left c)" "occupancy t (split_right c)"
    using assms(2-4) by (auto simp: split_left_def split_right_def min_def)
qed

lemma set_split_children:
  assumes "i < length (children n)" "x \<in> set (children (split_child n i))"
  shows "x \<in> set (children n) \<or> x = split_left (children n ! i) \<or> x = split_right (children n ! i)"
  using assms by (auto simp: split_child_children2 dest: in_set_takeD in_set_dropD)

lemma split_child_node:
  assumes wf: "well_formed t n" and nl: "\<not> is_leaf n" and i: "i \<le> n_keys n"
    and t: "0 < t" and full: "n_keys (children n ! i) = 2 * t - 1"
    and lv: "leaves_at d n" and occ: "\<forall>c \<in> set (children n). occupancy t c"
  shows "well_formed t (split_child n i)"
    and "leaves_at d (split_child n i)"
    and "\<forall>c \<in> set (children (split_child n i)). occupancy t c"
    and "inorder (split_child n i) = inorder n"
    and "n_keys (split_child n i) = Suc (n_keys n)"
    and "\<not> is_leaf (split_child n i)"
proof -
  note sh = well_formed_length [OF wf nl] well_formed_vals [OF wf]
  have il: "i < length (children n)" using sh i by simp
  define c where "c = children n ! i"
  have cin: "c \<in> set (children n)" using il by (simp add: c_def)
  have cwf: "well_formed t c" using wf cin by (rule well_formed_child)
  have co: "order c = t" using cwf by (rule well_formed_order)
  have cv: "length (vals c) = n_keys c" using cwf by (rule well_formed_vals)
  have ck: "n_keys c = 2 * t - 1" using full by (simp add: c_def)
  have L: "well_formed t (split_left c)" "well_formed t (split_right c)"
    using well_formed_split_left [OF cwf ck t] well_formed_split_right [OF cwf ck t] by simp_all
  have all: "P x" if "x \<in> set (children (split_child n i))"
      "\<forall>y \<in> set (children n). P y" "P (split_left c)" "P (split_right c)" for x P
    using set_split_children [OF il that(1)] that(2-4) by (auto simp: c_def)
  have "\<forall>x \<in> set (children (split_child n i)). well_formed t x"
    using all [where P = "well_formed t"] L wf well_formed_child by blast
  moreover have "length (children (split_child n i)) = Suc (n_keys (split_child n i))"
    using sh i by (simp add: split_child_sel split_child_children2)
  moreover have "length (vals (split_child n i)) = n_keys (split_child n i)"
    using sh i by (simp add: split_child_sel)
  ultimately show "well_formed t (split_child n i)"
    using well_formed_sel [of t "split_child n i"] nl well_formed_order [OF wf]
    by (simp add: split_child_sel)
  have d: "0 < d" using lv nl leaves_at_leaf by blast
  have "leaves_at (d - 1) c" using lv nl cin by (rule leaves_at_children)
  then have "leaves_at (d - 1) (split_left c)" "leaves_at (d - 1) (split_right c)"
    by (rule leaves_at_split_halves)+
  then have "\<forall>x \<in> set (children (split_child n i)). leaves_at (d - 1) x"
    using all [where P = "leaves_at (d - 1)"] lv nl leaves_at_children by blast
  then show "leaves_at d (split_child n i)"
    using leaves_at_sel [of d "split_child n i"] nl d by (simp add: split_child_sel)
  have "occupancy t c" using occ cin by simp
  then have "occupancy t (split_left c)" "occupancy t (split_right c)"
    using occupancy_split_halves [OF _ co ck t] by simp_all
  then show "\<forall>c \<in> set (children (split_child n i)). occupancy t c"
    using all [where P = "occupancy t"] occ by blast
  have cs: "is_leaf c \<and> children c = [] \<or> \<not> is_leaf c \<and> length (children c) = 2 * order c"
    using well_formed_leaf_children [OF cwf] well_formed_length [OF cwf] ck co t by auto
  show "inorder (split_child n i) = inorder n"
    using split_child_inorder [OF sh i] t ck cv cs co by (simp add: c_def)
  show "n_keys (split_child n i) = Suc (n_keys n)"
    using i by (simp add: split_child_sel)
  show "\<not> is_leaf (split_child n i)" using nl by (simp add: split_child_sel)
qed


section \<open>Replacing a child, replacing a value\<close>

lemma inorder_child_update:
  assumes "length (children n) = Suc (n_keys n)" "length (vals n) = n_keys n" "j \<le> n_keys n"
  shows "inorder (Node ord leaf (keys n) (vals n) ((children n)[j := c]))
         = before n j @ inorder c @ behind n j"
proof -
  let ?n = "Node ord leaf (keys n) (vals n) ((children n)[j := c])"
  have "inorder ?n = before ?n j @ inorder (children ?n ! j) @ behind ?n j"
    using assms by (intro inorder_shape) simp_all
  moreover have "before ?n j = before n j" by (simp add: before_def)
  moreover have "behind ?n j = behind n j" by (simp add: behind_def)
  moreover have "children ?n ! j = c" using assms by simp
  ultimately show ?thesis by simp
qed

lemma child_update_node:
  assumes wf: "well_formed t n" and nl: "\<not> is_leaf n" and j: "j \<le> n_keys n"
    and lv: "leaves_at d n" and occ: "\<forall>c \<in> set (children n). occupancy t c"
    and c: "well_formed t c" "leaves_at (d - 1) c" "occupancy t c"
  shows "well_formed t (Node (order n) (is_leaf n) (keys n) (vals n) ((children n)[j := c]))"
    and "leaves_at d (Node (order n) (is_leaf n) (keys n) (vals n) ((children n)[j := c]))"
    and "\<forall>x \<in> set ((children n)[j := c]). occupancy t x"
proof -
  have all: "P x" if "x \<in> set ((children n)[j := c])" "\<forall>y \<in> set (children n). P y" "P c" for x P
  proof -
    have "set ((children n)[j := c]) \<subseteq> insert c (set (children n))"
      by (rule set_update_subset_insert)
    then show ?thesis using that by auto
  qed
  have "\<forall>x \<in> set ((children n)[j := c]). well_formed t x"
    using all [where P = "well_formed t"] c(1) wf well_formed_child by blast
  then show "well_formed t (Node (order n) (is_leaf n) (keys n) (vals n) ((children n)[j := c]))"
    using well_formed_length [OF wf nl] well_formed_vals [OF wf] well_formed_order [OF wf] nl
    by simp
  have d: "0 < d" using lv nl leaves_at_leaf by blast
  have "\<forall>x \<in> set ((children n)[j := c]). leaves_at (d - 1) x"
    using all [where P = "leaves_at (d - 1)"] c(2) lv nl leaves_at_children by blast
  then show "leaves_at d (Node (order n) (is_leaf n) (keys n) (vals n) ((children n)[j := c]))"
    using nl d by simp
  show "\<forall>x \<in> set ((children n)[j := c]). occupancy t x"
    using all [where P = "occupancy t"] c(3) occ by blast
qed

lemma upd_list_at:
  assumes "sorted1 (A @ (k, old) # B)"
  shows "upd_list k v (A @ (k, old) # B) = A @ (k, v) # B"
proof -
  have "\<forall>x \<in> set A. fst x < k" "\<forall>x \<in> set B. k < fst x"
    using assms by (auto simp: sorted_wrt_append)
  then have "upd_list k v (A @ [(k, old)] @ B) = A @ upd_list k v [(k, old)] @ B"
    by (rule upd_list_mid)
  then show ?thesis by simp
qed

lemma upd_list_absent:
  assumes "\<forall>p \<in> set A. fst p < k" "\<forall>p \<in> set B. k < fst p"
  shows "upd_list k v (A @ B) = A @ (k, v) # B"
  using upd_list_mid [OF assms, of v "[]"] by simp

lemma inorder_found:
  assumes wf: "well_formed t n" and i: "i < n_keys n"
  shows "\<exists>A B. inorder n = A @ (keys n ! i, vals n ! i) # B
          \<and> inorder (Node ord (is_leaf n) (keys n) ((vals n)[i := v]) (children n))
              = A @ (keys n ! i, v) # B"
proof (cases "is_leaf n")
  case True
  let ?ss = "zip (keys n) (vals n)"
  have l: "i < length ?ss" using i well_formed_vals [OF wf] by simp
  have "inorder n = take i ?ss @ ?ss ! i # drop (Suc i) ?ss"
    using well_formed_leaf_inorder [OF wf True] id_take_nth_drop [OF l] by simp
  moreover have "?ss[i := (keys n ! i, v)] = take i ?ss @ (keys n ! i, v) # drop (Suc i) ?ss"
    using l by (rule upd_conv_take_nth_drop)
  then have "inorder (Node ord (is_leaf n) (keys n) ((vals n)[i := v]) (children n))
      = take i ?ss @ (keys n ! i, v) # drop (Suc i) ?ss"
    using well_formed_leaf_children [OF wf True]
    by (simp add: zip_update_val del: zip_append zip_Cons_Cons)
  ultimately show ?thesis using l by auto
next
  case False
  note sh = well_formed_length [OF wf False] well_formed_vals [OF wf]
  let ?n = "Node ord (is_leaf n) (keys n) ((vals n)[i := v]) (children n)"
  have le: "i \<le> n_keys n" using i by simp
  have a: "inorder n = (before n i @ inorder (children n ! i)) @ (keys n ! i, vals n ! i)
            # (inorder (children n ! Suc i) @ behind n (Suc i))"
    using inorder_shape [OF sh le] behind_step [OF sh i] by simp
  have sh': "length (children ?n) = Suc (n_keys ?n)" "length (vals ?n) = n_keys ?n"
    using sh by simp_all
  have i': "i < n_keys ?n" "i \<le> n_keys ?n" using i by simp_all
  have "before ?n i = before n i"
    by (simp add: before_def zip_update_val)
  moreover have "behind ?n (Suc i) = behind n (Suc i)"
    by (simp add: behind_def zip_update_val)
  moreover have "vals ?n ! i = v" using i sh by simp
  ultimately have b: "inorder ?n = (before n i @ inorder (children n ! i)) @ (keys n ! i, v)
            # (inorder (children n ! Suc i) @ behind n (Suc i))"
    using inorder_shape [OF sh' i'(2)] behind_step [OF sh' i'(1)] by simp
  show ?thesis using a b by blast
qed

lemma value_update_node:
  assumes wf: "well_formed t n" and srt: "sorted1 (inorder n)" and i: "i < n_keys n"
  shows "inorder (Node (order n) (is_leaf n) (keys n) ((vals n)[i := v]) (children n))
           = upd_list (keys n ! i) v (inorder n)"
    and "well_formed t (Node (order n) (is_leaf n) (keys n) ((vals n)[i := v]) (children n))"
proof -
  obtain A B where ab: "inorder n = A @ (keys n ! i, vals n ! i) # B"
    "inorder (Node (order n) (is_leaf n) (keys n) ((vals n)[i := v]) (children n))
       = A @ (keys n ! i, v) # B"
    using inorder_found [OF wf i] by blast
  show "inorder (Node (order n) (is_leaf n) (keys n) ((vals n)[i := v]) (children n))
           = upd_list (keys n ! i) v (inorder n)"
    using upd_list_at [of A "keys n ! i" "vals n ! i" B v] srt ab by simp
  show "well_formed t (Node (order n) (is_leaf n) (keys n) ((vals n)[i := v]) (children n))"
    using well_formed_sel [of t n] wf by simp
qed


section \<open>Insertion into a node with room\<close>

lemma slots_take_bound:
  assumes "\<forall>x \<in> set (take i ks). P x" "p \<in> set (take i (zip ks vs))"
  shows "P (fst p)"
proof -
  have "p \<in> set (zip (take i ks) (take i vs))" using assms(2) by (simp add: take_zip)
  then have "fst p \<in> set (take i ks)" by (metis prod.collapse set_zip_leftD)
  then show ?thesis using assms(1) by simp
qed

lemma slots_drop_bound:
  assumes "\<forall>x \<in> set (drop i ks). P x" "p \<in> set (drop i (zip ks vs))"
  shows "P (fst p)"
proof -
  have "p \<in> set (zip (drop i ks) (drop i vs))" using assms(2) by (simp add: drop_zip)
  then have "fst p \<in> set (drop i ks)" by (metis prod.collapse set_zip_leftD)
  then show ?thesis using assms(1) by simp
qed

lemma insert_leaf:
  assumes h: "total_host h" and wf: "well_formed t n" and leaf: "is_leaf n"
    and srt: "sorted1 (inorder n)"
  shows "\<exists>n'. insert_non_full h n key v
            = (Inr (if key \<in> fst ` set (inorder n) then 1 else 0), n')
          \<and> inorder n' = upd_list key v (inorder n) \<and> well_formed t n' \<and> is_leaf n'
          \<and> n_keys n \<le> n_keys n' \<and> n_keys n' \<le> Suc (n_keys n)"
proof -
  let ?ks = "keys n" and ?vs = "vals n"
  let ?ss = "zip ?ks ?vs"
  define i where "i = lower ?ks key"
  have ks: "sorted_wrt (<) ?ks" using wf srt by (rule keys_sorted)
  have io: "inorder n = ?ss" using wf leaf by (rule well_formed_leaf_inorder)
  have lv: "length ?vs = length ?ks" using wf by (rule well_formed_vals)
  have cs: "children n = []" using wf leaf by (rule well_formed_leaf_children)
  have o: "order n = t" using wf by (rule well_formed_order)
  have mem: "fst ` set (inorder n) = set ?ks" unfolding io using lv by (rule fst_set_zip)
  have srch: "node_search_key h n key = Inr (i, key \<in> set ?ks)"
    unfolding i_def by (rule node_search_key_sorted [OF h ks])
  show ?thesis
  proof (cases "key \<in> set ?ks")
    case True
    have i: "i < n_keys n" "?ks ! i = key"
      using lower_found [OF ks True] by (simp_all add: i_def)
    let ?n' = "Node (order n) (is_leaf n) ?ks (?vs[i := v]) (children n)"
    have "insert_non_full h n key v = (Inr 1, ?n')"
      using leaf srch True by (subst insert_non_full.simps) simp
    moreover have "inorder ?n' = upd_list key v (inorder n)" "well_formed t ?n'"
      using value_update_node [OF wf srt i(1), of v] i(2) by simp_all
    ultimately show ?thesis using True mem leaf by auto
  next
    case False
    let ?n' = "Node (order n) (is_leaf n) (take i ?ks @ key # drop i ?ks)
                 (take i ?vs @ v # drop i ?vs) (children n)"
    have eq: "insert_non_full h n key v = (Inr 0, ?n')"
      using leaf srch False by (subst insert_non_full.simps) simp
    have b: "\<forall>x \<in> set (take i ?ks). x < key" "\<forall>x \<in> set (drop i ?ks). key < x"
      using lower_bounds [OF ks False] by (simp_all add: i_def)
    have "inorder ?n' = take i ?ss @ (key, v) # drop i ?ss"
      using cs zip_insert_at [OF lv, of i key v] by simp
    also have "\<dots> = upd_list key v (take i ?ss @ drop i ?ss)"
      using slots_take_bound [OF b(1)] slots_drop_bound [OF b(2)]
      by (intro upd_list_absent [symmetric]) blast+
    finally have "inorder ?n' = upd_list key v (inorder n)" using io by simp
    moreover have "well_formed t ?n'" using cs lv o leaf by simp
    ultimately show ?thesis using eq False mem leaf by auto
  qed
qed

lemma descend_member:
  assumes "well_formed t n" "\<not> is_leaf n" "sorted1 (inorder n)" "j \<le> n_keys n"
    and "\<forall>x \<in> set (take j (keys n)). x < key" "\<forall>x \<in> set (drop j (keys n)). key < x"
  shows "key \<in> fst ` set (inorder n) \<longleftrightarrow> key \<in> fst ` set (inorder (children n ! j))"
proof -
  have "\<forall>p \<in> set (before n j). fst p \<noteq> key" "\<forall>p \<in> set (behind n j). fst p \<noteq> key"
    using descend_bounds [OF assms] by fastforce+
  then show ?thesis unfolding inorder_at [OF assms(1,2,4)] by auto
qed

lemma descend_insert:
  assumes wf: "well_formed t n" and nl: "\<not> is_leaf n" and srt: "sorted1 (inorder n)"
    and j: "j \<le> n_keys n"
    and lo: "\<forall>x \<in> set (take j (keys n)). x < key"
    and hi: "\<forall>x \<in> set (drop j (keys n)). key < x"
    and c: "inorder c = upd_list key v (inorder (children n ! j))"
  shows "inorder (Node (order n) (is_leaf n) (keys n) (vals n) ((children n)[j := c]))
         = upd_list key v (inorder n)"
proof -
  note sh = well_formed_length [OF wf nl] well_formed_vals [OF wf]
  note b = descend_bounds [OF wf nl srt j lo hi]
  show ?thesis
    unfolding inorder_child_update [OF sh j] inorder_at [OF wf nl j] c
    by (rule upd_list_mid [OF b, symmetric])
qed


lemma occupancyI:
  "t - 1 \<le> n_keys n \<Longrightarrow> n_keys n \<le> 2 * t - 1 \<Longrightarrow> \<forall>c \<in> set (children n). occupancy t c
    \<Longrightarrow> occupancy t n"
  by (cases n) simp

lemma occupancy_keys: "occupancy t n \<Longrightarrow> t - 1 \<le> n_keys n \<and> n_keys n \<le> 2 * t - 1"
  by (cases n) simp

lemma leaves_at_same_children:
  "leaves_at d n \<Longrightarrow> leaves_at d (Node ord (is_leaf n) ks vs (children n))"
  by (cases n) simp

lemma insert_non_full_correct:
  assumes h: "total_host h" and t: "2 \<le> t"
  shows "well_formed t n \<Longrightarrow> leaves_at d n \<Longrightarrow> sorted1 (inorder n) \<Longrightarrow> n_keys n < 2 * t - 1
     \<Longrightarrow> \<forall>c \<in> set (children n). occupancy t c
     \<Longrightarrow> \<exists>n'. insert_non_full h n key v
                = (Inr (if key \<in> fst ` set (inorder n) then 1 else 0), n')
          \<and> inorder n' = upd_list key v (inorder n) \<and> well_formed t n' \<and> leaves_at d n'
          \<and> n_keys n \<le> n_keys n' \<and> n_keys n' \<le> 2 * t - 1
          \<and> (\<forall>c \<in> set (children n'). occupancy t c)"
proof (induction d arbitrary: n)
  case 0
  have leaf: "is_leaf n" using "0.prems"(2) leaves_at_leaf by blast
  obtain n' where n': "insert_non_full h n key v
            = (Inr (if key \<in> fst ` set (inorder n) then 1 else 0), n')"
    "inorder n' = upd_list key v (inorder n)" "well_formed t n'" "is_leaf n'"
    "n_keys n \<le> n_keys n'" "n_keys n' \<le> Suc (n_keys n)"
    using insert_leaf [OF h "0.prems"(1) leaf "0.prems"(3), of key v] by blast
  have "leaves_at 0 n'" using n'(4) leaves_at_sel [of 0 n'] by simp
  moreover have "children n' = []" using n'(3,4) by (rule well_formed_leaf_children)
  moreover have "n_keys n' \<le> 2 * t - 1" using n'(6) "0.prems"(4) by simp
  ultimately show ?case using n' by auto
next
  case (Suc d)
  note wf = Suc.prems(1) and lv = Suc.prems(2) and srt = Suc.prems(3)
    and room = Suc.prems(4) and occ = Suc.prems(5)
  have nl: "\<not> is_leaf n" using lv leaves_at_leaf by blast
  note sh = well_formed_length [OF wf nl] well_formed_vals [OF wf]
  have o: "order n = t" using wf by (rule well_formed_order)
  have ks: "sorted_wrt (<) (keys n)" using wf srt by (rule keys_sorted)
  define i where "i = lower (keys n) key"
  have srch: "node_search_key h n key = Inr (i, key \<in> set (keys n))"
    unfolding i_def by (rule node_search_key_sorted [OF h ks])
  have step: "\<exists>c'. insert_non_full h (children N ! j) key v
                = (Inr (if key \<in> fst ` set (inorder N) then 1 else 0), c')
       \<and> inorder (Node (order N) (is_leaf N) (keys N) (vals N) ((children N)[j := c']))
           = upd_list key v (inorder N)
       \<and> well_formed t (Node (order N) (is_leaf N) (keys N) (vals N) ((children N)[j := c']))
       \<and> leaves_at (Suc d) (Node (order N) (is_leaf N) (keys N) (vals N) ((children N)[j := c']))
       \<and> (\<forall>x \<in> set ((children N)[j := c']). occupancy t x)"
    if N: "well_formed t N" "\<not> is_leaf N" "sorted1 (inorder N)" "leaves_at (Suc d) N"
      "\<forall>c \<in> set (children N). occupancy t c" "j \<le> n_keys N"
      "\<forall>x \<in> set (take j (keys N)). x < key" "\<forall>x \<in> set (drop j (keys N)). key < x"
      "n_keys (children N ! j) < 2 * t - 1"
    for N j
  proof -
    define c where "c = children N ! j"
    have cin: "c \<in> set (children N)"
      using well_formed_length [OF N(1,2)] N(6) by (simp add: c_def)
    have cwf: "well_formed t c" using N(1) cin by (rule well_formed_child)
    have clv: "leaves_at d c" using leaves_at_children [OF N(4,2) cin] by simp
    have csrt: "sorted1 (inorder c)" using N(1,3) cin by (rule child_sorted)
    have cocc: "occupancy t c" using N(5) cin by simp
    have cch: "\<forall>x \<in> set (children c). occupancy t x" using cocc occupancy_children by blast
    obtain c' where c': "insert_non_full h c key v
            = (Inr (if key \<in> fst ` set (inorder c) then 1 else 0), c')"
      "inorder c' = upd_list key v (inorder c)" "well_formed t c'" "leaves_at d c'"
      "n_keys c \<le> n_keys c'" "n_keys c' \<le> 2 * t - 1" "\<forall>x \<in> set (children c'). occupancy t x"
      using Suc.IH [OF cwf clv csrt _ cch] N(9) unfolding c_def by blast
    have occ': "occupancy t c'"
      using occupancy_keys [OF cocc] c'(5,6,7) by (intro occupancyI) simp_all
    have mem: "key \<in> fst ` set (inorder N) \<longleftrightarrow> key \<in> fst ` set (inorder c)"
      unfolding c_def by (rule descend_member [OF N(1,2,3,6,7,8)])
    have "inorder (Node (order N) (is_leaf N) (keys N) (vals N) ((children N)[j := c']))
           = upd_list key v (inorder N)"
      using descend_insert [OF N(1,2,3,6,7,8)] c'(2) by (simp add: c_def)
    moreover note child_update_node [OF N(1,2,6,4,5) c'(3) _ occ']
    ultimately show ?thesis using c'(1,4) mem by (auto simp: c_def)
  qed
  show ?case
  proof (cases "key \<in> set (keys n)")
    case True
    have i: "i < n_keys n" "keys n ! i = key"
      using lower_found [OF ks True] by (simp_all add: i_def)
    let ?n' = "Node (order n) (is_leaf n) (keys n) ((vals n)[i := v]) (children n)"
    have "insert_non_full h n key v = (Inr 1, ?n')"
      using nl srch True by (subst insert_non_full.simps) simp
    moreover have "inorder ?n' = upd_list key v (inorder n)" "well_formed t ?n'"
      using value_update_node [OF wf srt i(1), of v] i(2) by simp_all
    moreover have "key \<in> fst ` set (inorder n)"
      using True keys_subset_inorder [OF wf] by blast
    moreover have "leaves_at (Suc d) ?n'" using lv by (rule leaves_at_same_children)
    ultimately show ?thesis using room occ by auto
  next
    case False
    have il: "i < length (children n)" "i \<le> n_keys n"
      using sh lower_le [of "keys n" key] by (simp_all add: i_def)
    have b: "\<forall>x \<in> set (take i (keys n)). x < key" "\<forall>x \<in> set (drop i (keys n)). key < x"
      using lower_bounds [OF ks False] by (simp_all add: i_def)
    define c where "c = children n ! i"
    have cin: "c \<in> set (children n)" using il by (simp add: c_def)
    have cocc: "occupancy t c" using occ cin by simp
    show ?thesis
    proof (cases "n_keys c = 2 * t - 1")
      case False
      then have nf: "n_keys (children n ! i) < 2 * t - 1"
        using occupancy_keys [OF cocc] by (simp add: c_def)
      have nfi: "int (n_keys (children n ! i)) \<noteq> 2 * int (order n) - 1"
        using False t o by (simp add: c_def)
      obtain c' where c': "insert_non_full h (children n ! i) key v
                = (Inr (if key \<in> fst ` set (inorder n) then 1 else 0), c')"
        "inorder (Node (order n) (is_leaf n) (keys n) (vals n) ((children n)[i := c']))
           = upd_list key v (inorder n)"
        "well_formed t (Node (order n) (is_leaf n) (keys n) (vals n) ((children n)[i := c']))"
        "leaves_at (Suc d) (Node (order n) (is_leaf n) (keys n) (vals n) ((children n)[i := c']))"
        "\<forall>x \<in> set ((children n)[i := c']). occupancy t x"
        using step [OF wf nl srt lv occ il(2) b nf] by blast
      have "insert_non_full h n key v
          = (Inr (if key \<in> fst ` set (inorder n) then 1 else 0),
             Node (order n) (is_leaf n) (keys n) (vals n) ((children n)[i := c']))"
        using nl srch \<open>key \<notin> set (keys n)\<close> il(1) nfi c'(1)
        by (subst insert_non_full.simps) simp
      then show ?thesis using c'(2-5) room by auto
    next
      case True
      then have full: "n_keys (children n ! i) = 2 * t - 1" by (simp add: c_def)
      have fulli: "int (n_keys (children n ! i)) = 2 * int (order n) - 1"
        using full t o by simp
      define n1 where "n1 = split_child n i"
      have t0: "0 < t" using t by simp
      note s = split_child_node [OF wf nl il(2) t0 full lv occ, folded n1_def]
      have sh1: "length (children n1) = Suc (n_keys n1)"
        using well_formed_length [OF s(1) s(6)] .
      have o1: "order n1 = order n" "is_leaf n1 = is_leaf n"
        by (simp_all add: n1_def split_child_sel)
      define m where "m = keys c ! (t - 1)"
      have k1: "keys n1 = take i (keys n) @ m # drop i (keys n)"
        using well_formed_order [OF well_formed_child [OF wf cin]]
        by (simp add: n1_def split_child_sel c_def m_def)
      have mi: "keys n1 ! i = m" using il(2) by (simp add: k1 nth_take_append0)
      have srt1: "sorted1 (inorder n1)" using srt s(4) by simp
      have i1: "i < n_keys n1" using s(5) il(2) by simp
      have cmp: "compare_keys h key (keys n1 ! i)
                 = (if key = m then 0 else if key < m then - 1 else 1)"
        unfolding mi by (rule compare_keys_total [OF h])
      have halves: "n_keys (split_left c) = t - 1" "n_keys (split_right c) = t - 1"
        using split_halves_n_keys [OF well_formed_order [OF well_formed_child [OF wf cin]] True t0]
        by simp_all
      have ch1: "children n1 ! i = split_left c" "children n1 ! Suc i = split_right c"
        using il(1) by (simp_all add: n1_def c_def split_child_nth_left split_child_nth_right)
      consider "key = m" | "key < m" | "m < key" by (meson linorder_neqE)
      then show ?thesis
      proof cases
        case 1
        let ?n' = "Node (order n1) (is_leaf n1) (keys n1) ((vals n1)[i := v]) (children n1)"
        have cv: "compare_keys h key (keys n1 ! i) = 0" using cmp 1 by simp
        have "insert_non_full h n key v = (Inr 1, ?n')"
          using nl srch False il(1) fulli cv
          by (subst insert_non_full.simps) (simp add: Let_def n1_def [symmetric])
        moreover have "inorder ?n' = upd_list key v (inorder n)" "well_formed t ?n'"
          using value_update_node [OF s(1) srt1 i1, of v] mi 1 s(4) by simp_all
        moreover have "key \<in> fst ` set (inorder n)"
          using keys_subset_inorder [OF s(1)] i1 mi 1 s(4) nth_mem by fastforce
        moreover have "leaves_at (Suc d) ?n'" using s(2) by (rule leaves_at_same_children)
        moreover have "n_keys ?n' = Suc (n_keys n)" using s(5) by simp
        ultimately show ?thesis using room s(3) by auto
      next
        case 2
        have cv: "compare_keys h key (keys n1 ! i) = - 1" using cmp 2 by auto
        have b1: "\<forall>x \<in> set (take i (keys n1)). x < key" "\<forall>x \<in> set (drop i (keys n1)). key < x"
          using b 2 il(2) by (simp_all add: k1)
        have nf: "n_keys (children n1 ! i) < 2 * t - 1" using halves t by (simp add: ch1)
        obtain c' where c': "insert_non_full h (children n1 ! i) key v
                = (Inr (if key \<in> fst ` set (inorder n1) then 1 else 0), c')"
          "inorder (Node (order n1) (is_leaf n1) (keys n1) (vals n1) ((children n1)[i := c']))
             = upd_list key v (inorder n1)"
          "well_formed t (Node (order n1) (is_leaf n1) (keys n1) (vals n1) ((children n1)[i := c']))"
          "leaves_at (Suc d) (Node (order n1) (is_leaf n1) (keys n1) (vals n1) ((children n1)[i := c']))"
          "\<forall>x \<in> set ((children n1)[i := c']). occupancy t x"
          using i1 step [OF s(1) s(6) srt1 s(2) s(3) _ b1 nf] by auto
        have "insert_non_full h n key v
            = (Inr (if key \<in> fst ` set (inorder n1) then 1 else 0),
               Node (order n1) (is_leaf n1) (keys n1) (vals n1) ((children n1)[i := c']))"
          using nl srch False il(1) fulli cv c'(1)
          by (subst insert_non_full.simps) (simp add: Let_def n1_def [symmetric])
        then show ?thesis using c'(2-5) room s(4,5) by auto
      next
        case 3
        have cv: "compare_keys h key (keys n1 ! i) = 1" using cmp 3 by auto
        have b1: "\<forall>x \<in> set (take (Suc i) (keys n1)). x < key"
          "\<forall>x \<in> set (drop (Suc i) (keys n1)). key < x"
          using b 3 il(2) by (simp_all add: k1)
        have nf: "n_keys (children n1 ! Suc i) < 2 * t - 1" using halves t by (simp add: ch1)
        obtain c' where c': "insert_non_full h (children n1 ! Suc i) key v
                = (Inr (if key \<in> fst ` set (inorder n1) then 1 else 0), c')"
          "inorder (Node (order n1) (is_leaf n1) (keys n1) (vals n1) ((children n1)[Suc i := c']))
             = upd_list key v (inorder n1)"
          "well_formed t (Node (order n1) (is_leaf n1) (keys n1) (vals n1) ((children n1)[Suc i := c']))"
          "leaves_at (Suc d) (Node (order n1) (is_leaf n1) (keys n1) (vals n1) ((children n1)[Suc i := c']))"
          "\<forall>x \<in> set ((children n1)[Suc i := c']). occupancy t x"
          using i1 step [OF s(1) s(6) srt1 s(2) s(3) _ b1 nf] by auto
        have "insert_non_full h n key v
            = (Inr (if key \<in> fst ` set (inorder n1) then 1 else 0),
               Node (order n1) (is_leaf n1) (keys n1) (vals n1) ((children n1)[Suc i := c']))"
          using nl srch False il(1) fulli cv c'(1)
          by (subst insert_non_full.simps) (simp add: Let_def n1_def [symmetric])
        then show ?thesis using c'(2-5) room s(4,5) by auto
      qed
    qed
  qed
qed


section \<open>Lookup returns the value of the in-order sequence\<close>

lemma map_of_at:
  assumes "sorted1 (A @ (k, v) # B)"
  shows "map_of (A @ (k, v) # B) k = Some v"
proof -
  have "\<forall>x \<in> set A. fst x < k" "\<forall>x \<in> set B. k < fst x"
    using assms by (auto simp: sorted_wrt_append)
  then have "map_of (A @ [(k, v)] @ B) k = map_of [(k, v)] k"
    by (rule map_of_mid)
  then show ?thesis by simp
qed

lemma node_search_correct:
  assumes h: "total_host h"
  shows "well_formed t n \<Longrightarrow> sorted1 (inorder n)
          \<Longrightarrow> node_search h n key = Inr (map_of (inorder n) key)"
proof (induction n rule: measure_induct_rule [where f = nodes])
  case (less n)
  note wf = less.prems(1) and srt = less.prems(2)
  have ks: "sorted_wrt (<) (keys n)" using wf srt by (rule keys_sorted)
  define i where "i = lower (keys n) key"
  have srch: "node_search_key h n key = Inr (i, key \<in> set (keys n))"
    unfolding i_def by (rule node_search_key_sorted [OF h ks])
  show ?case
  proof (cases "key \<in> set (keys n)")
    case True
    have i: "i < n_keys n" "keys n ! i = key"
      using lower_found [OF ks True] by (simp_all add: i_def)
    obtain A B where "inorder n = A @ (keys n ! i, vals n ! i) # B"
      using inorder_found [OF wf i(1)] by blast
    then have "map_of (inorder n) key = Some (vals n ! i)"
      using map_of_at [of A key "vals n ! i" B] srt i(2) by simp
    then show ?thesis using srch True by (subst node_search.simps) simp
  next
    case False
    note b = lower_bounds [OF ks False, folded i_def]
    show ?thesis
    proof (cases "is_leaf n")
      case True
      have "\<forall>x \<in> set (inorder n). fst x \<noteq> key"
        using False keys_inorder_leaf [OF wf True] by (metis image_eqI list.set_map)
      then have "map_of (inorder n) key = None" by (rule map_of_None_lt)
      then show ?thesis using srch False True by (subst node_search.simps) simp
    next
      case nl: False
      have il: "i < length (children n)" "i \<le> n_keys n"
        using well_formed_length [OF wf nl] lower_le [of "keys n" key] by (simp_all add: i_def)
      have cin: "children n ! i \<in> set (children n)" using il by simp
      have "node_search h (children n ! i) key = Inr (map_of (inorder (children n ! i)) key)"
        using less.IH [OF nodes_nth [OF il(1)] well_formed_child [OF wf cin]
            child_sorted [OF wf srt cin]] .
      moreover have "map_of (inorder n) key = map_of (inorder (children n ! i)) key"
        unfolding inorder_at [OF wf nl il(2)]
        by (rule map_of_mid [OF descend_bounds [OF wf nl srt il(2) b]])
      ultimately show ?thesis
        using srch False nl il(1) by (subst node_search.simps) simp
    qed
  qed
qed

lemma node_contains_correct:
  assumes h: "total_host h"
  shows "well_formed t n \<Longrightarrow> sorted1 (inorder n)
          \<Longrightarrow> node_contains h n key = Inr (if key \<in> fst ` set (inorder n) then 1 else 0)"
proof (induction n rule: measure_induct_rule [where f = nodes])
  case (less n)
  note wf = less.prems(1) and srt = less.prems(2)
  have ks: "sorted_wrt (<) (keys n)" using wf srt by (rule keys_sorted)
  define i where "i = lower (keys n) key"
  have srch: "node_search_key h n key = Inr (i, key \<in> set (keys n))"
    unfolding i_def by (rule node_search_key_sorted [OF h ks])
  show ?case
  proof (cases "key \<in> set (keys n)")
    case True
    then have "key \<in> fst ` set (inorder n)" using keys_subset_inorder [OF wf] by blast
    then show ?thesis using srch True by (subst node_contains.simps) simp
  next
    case False
    note b = lower_bounds [OF ks False, folded i_def]
    show ?thesis
    proof (cases "is_leaf n")
      case True
      have "key \<notin> fst ` set (inorder n)"
        using False keys_inorder_leaf [OF wf True] by (metis list.set_map)
      then show ?thesis using srch False True by (subst node_contains.simps) simp
    next
      case nl: False
      have il: "i < length (children n)" "i \<le> n_keys n"
        using well_formed_length [OF wf nl] lower_le [of "keys n" key] by (simp_all add: i_def)
      have cin: "children n ! i \<in> set (children n)" using il by simp
      have "node_contains h (children n ! i) key
            = Inr (if key \<in> fst ` set (inorder (children n ! i)) then 1 else 0)"
        using less.IH [OF nodes_nth [OF il(1)] well_formed_child [OF wf cin]
            child_sorted [OF wf srt cin]] .
      then show ?thesis
        using srch False nl il(1) descend_member [OF wf nl srt il(2) b]
        by (subst node_contains.simps) simp
    qed
  qed
qed

section \<open>The walks return the in-order sequence\<close>

lemma interleave_concat:
  "length cs = Suc (length ss) \<Longrightarrow>
   interleave cs ss = concat (map (\<lambda>i. cs ! i @ [ss ! i]) [0..<length ss]) @ cs ! length ss"
proof (induction cs ss rule: interleave.induct)
  case (1 c cs s ss)
  have "map (\<lambda>i. (c # cs) ! i @ [(s # ss) ! i]) [0..<length (s # ss)]
        = (c @ [s]) # map (\<lambda>i. cs ! i @ [ss ! i]) [0..<length ss]"
  proof -
    have "[0..<Suc (length ss)] = 0 # map Suc [0..<length ss]"
      by (simp add: upt_conv_Cons map_Suc_upt del: upt_Suc)
    then show ?thesis by (simp add: comp_def del: upt_Suc)
  qed
  then show ?case using 1 by simp
next
  case (2 c cs)
  then show ?case by simp
next
  case (3 ss)
  then show ?case by simp
qed

lemma collect_items_fast_inorder: "well_formed t n \<Longrightarrow> collect_items_fast n = inorder n"
proof (induction n rule: measure_induct_rule [where f = nodes])
  case (less n)
  note wf = less.prems
  show ?case
  proof (cases "is_leaf n")
    case True
    have "collect_items_fast n = map (\<lambda>i. (keys n ! i, vals n ! i)) [0..<n_keys n]"
      using True by (subst collect_items_fast.simps) (simp add: concat_map_singleton)
    also have "\<dots> = zip (keys n) (vals n)"
      using well_formed_vals [OF wf]
      by (intro nth_equalityI) simp_all
    finally show ?thesis using well_formed_leaf_inorder [OF wf True] by simp
  next
    case False
    note sh = well_formed_length [OF wf False] well_formed_vals [OF wf]
    have ih: "collect_items_fast (children n ! i) = inorder (children n ! i)"
      if "i < length (children n)" for i
      using less.IH [OF nodes_nth [OF that] well_formed_nth [OF wf that]] .
    let ?Cs = "map inorder (children n)" and ?ss = "zip (keys n) (vals n)"
    have l: "length ?Cs = Suc (length ?ss)" using sh by simp
    have "collect_items_fast n
        = concat (map (\<lambda>i. inorder (children n ! i) @ [(keys n ! i, vals n ! i)]) [0..<n_keys n])
          @ inorder (children n ! n_keys n)"
    proof -
      have "map (\<lambda>i. (if \<not> is_leaf n \<and> i < length (children n)
                         then collect_items_fast (children n ! i) else [])
                        @ [(keys n ! i, vals n ! i)]) [0..<n_keys n]
            = map (\<lambda>i. inorder (children n ! i) @ [(keys n ! i, vals n ! i)]) [0..<n_keys n]"
        by (rule map_cong [OF refl]) (simp add: False sh ih)
      note eq = this
      show ?thesis
        unfolding collect_items_fast.simps [of n] eq
        using False sh ih [of "n_keys n"] by simp
    qed
    also have "\<dots> = concat (map (\<lambda>i. ?Cs ! i @ [?ss ! i]) [0..<length ?ss]) @ ?Cs ! length ?ss"
    proof -
      have "map (\<lambda>i. inorder (children n ! i) @ [(keys n ! i, vals n ! i)]) [0..<n_keys n]
            = map (\<lambda>i. ?Cs ! i @ [?ss ! i]) [0..<n_keys n]"
        by (rule map_cong [OF refl]) (simp add: sh)
      note eq = this
      show ?thesis unfolding eq using sh by simp
    qed
    also have "\<dots> = interleave ?Cs ?ss" by (rule interleave_concat [OF l, symmetric])
    finally show ?thesis by (simp add: inorder_sel [of n])
  qed
qed


section \<open>Insertion at the level of the tree\<close>

lemma height_leaves_at: "well_formed t n \<Longrightarrow> leaves_at d n \<Longrightarrow> height n = d"
proof (induction n arbitrary: d)
  case (Node ord leaf ks vs cs)
  show ?case
  proof (cases leaf)
    case True
    then show ?thesis using Node.prems by (cases cs) simp_all
  next
    case False
    then obtain c cs' where cs: "cs = c # cs'" using Node.prems(1) by (cases cs) simp_all
    have "height c = d - 1"
      using Node.IH [of c "d - 1"] Node.prems False cs by simp
    then show ?thesis using False cs Node.prems(2) by simp
  qed
qed

lemma btree_invI:
  assumes "2 \<le> bt_order tr" "well_formed (bt_order tr) (bt_root tr)" "leaves_at d (bt_root tr)"
    and "\<forall>c \<in> set (children (bt_root tr)). occupancy (bt_order tr) c"
    and "n_keys (bt_root tr) \<le> 2 * bt_order tr - 1"
    and "n_keys (bt_root tr) = 0 \<longrightarrow> is_leaf (bt_root tr)"
    and "sorted1 (inorder (bt_root tr))"
    and "bt_size tr = int (length (inorder (bt_root tr)))"
  shows "btree_inv tr"
proof -
  have "bt_size tr = 0" if "n_keys (bt_root tr) = 0"
  proof -
    have "is_leaf (bt_root tr)" using that assms(6) by simp
    then have "map fst (inorder (bt_root tr)) = keys (bt_root tr)"
      using keys_inorder_leaf [OF assms(2)] by simp
    then have "length (inorder (bt_root tr)) = 0" using that by (metis length_map)
    then show ?thesis using assms(8) by simp
  qed
  then show ?thesis
    unfolding btree_inv_def
    using assms height_leaves_at [OF assms(2,3)] ordered_iff_sorted [OF assms(2)]
      count_keys_inorder [OF assms(2)] by simp
qed

lemma btree_invD:
  assumes "btree_inv tr"
  shows "2 \<le> bt_order tr" "well_formed (bt_order tr) (bt_root tr)"
    "leaves_at (height (bt_root tr)) (bt_root tr)"
    "\<forall>c \<in> set (children (bt_root tr)). occupancy (bt_order tr) c"
    "n_keys (bt_root tr) \<le> 2 * bt_order tr - 1"
    "n_keys (bt_root tr) = 0 \<longrightarrow> is_leaf (bt_root tr)"
    "sorted1 (inorder (bt_root tr))"
    "bt_size tr = int (length (inorder (bt_root tr)))"
proof -
  show wf: "well_formed (bt_order tr) (bt_root tr)" using assms by (simp add: btree_inv_def)
  show "sorted1 (inorder (bt_root tr))"
    using assms ordered_iff_sorted [OF wf] by (simp add: btree_inv_def)
  show "bt_size tr = int (length (inorder (bt_root tr)))"
    using assms count_keys_inorder [OF wf] by (simp add: btree_inv_def)
qed (use assms in \<open>simp_all add: btree_inv_def\<close>)

lemma PyBTree_Insert_correct:
  assumes h: "total_host h" and inv: "btree_inv tr"
  shows "\<exists>tr'. PyBTree_Insert h tr key v = (Inr (), tr') \<and> btree_inv tr'
           \<and> bt_order tr' = bt_order tr
           \<and> inorder (bt_root tr') = upd_list key v (inorder (bt_root tr))
           \<and> bt_size tr' = (if key \<in> fst ` set (inorder (bt_root tr)) then bt_size tr
                            else bt_size tr + 1)"
proof -
  define t where "t = bt_order tr"
  define r where "r = bt_root tr"
  note D = btree_invD [OF inv, folded t_def r_def]
  have t: "2 \<le> t" by (rule D(1))
  have full_iff: "int (n_keys r) = 2 * int t - 1 \<longleftrightarrow> n_keys r = 2 * t - 1"
    using t by auto
  define n0 where "n0 = Node t False [] [] [r]"
  define n1 where "n1 = (if n_keys r = 2 * t - 1 then split_child n0 0 else r)"
  have n1: "well_formed t n1 \<and> (\<exists>d. leaves_at d n1) \<and> inorder n1 = inorder r
            \<and> n_keys n1 < 2 * t - 1 \<and> (\<forall>c \<in> set (children n1). occupancy t c)
            \<and> (n_keys n1 = 0 \<longrightarrow> is_leaf n1)"
  proof (cases "n_keys r = 2 * t - 1")
    case True
    have wf0: "well_formed t n0" using D(2) by (simp add: n0_def)
    have lv0: "leaves_at (Suc (height r)) n0" using D(3) by (simp add: n0_def)
    have occ0: "\<forall>c \<in> set (children n0). occupancy t c"
      using occupancyI [of t r] True D(4) by (simp add: n0_def)
    have io0: "inorder n0 = inorder r" by (simp add: n0_def)
    have "0 < t" using t by simp
    note S = split_child_node [OF wf0 _ _ this _ lv0 occ0, of 0]
    have pre: "\<not> is_leaf n0" "0 \<le> n_keys n0" "n_keys (children n0 ! 0) = 2 * t - 1"
      using True by (simp_all add: n0_def)
    note S' = S [OF pre]
    have "n_keys (split_child n0 0) = 1" using S'(5) by (simp add: n0_def)
    then show ?thesis using True S' io0 t unfolding n1_def by auto
  next
    case False
    then show ?thesis using D unfolding n1_def by auto
  qed
  then obtain d where lv: "leaves_at d n1" by blast
  have srt: "sorted1 (inorder n1)" using n1 D(7) by simp
  obtain n' where n': "insert_non_full h n1 key v
                     = (Inr (if key \<in> fst ` set (inorder n1) then 1 else 0), n')"
      "inorder n' = upd_list key v (inorder n1)" "well_formed t n'" "leaves_at d n'"
      "n_keys n1 \<le> n_keys n'" "n_keys n' \<le> 2 * t - 1"
      "\<forall>c \<in> set (children n'). occupancy t c"
    using insert_non_full_correct [OF h t, of n1 d key v] n1 lv srt by blast
  define sz where "sz = (if key \<in> fst ` set (inorder r) then bt_size tr else bt_size tr + 1)"
  define tr' where "tr' = tr\<lparr>bt_root := n', bt_size := sz\<rparr>"
  have io1: "inorder n1 = inorder r" using n1 by simp
  have unf: "PyBTree_Insert h tr key v =
      (case insert_non_full h n1 key v of
         (Inl e, r') \<Rightarrow> (Inl e, tr\<lparr>bt_root := r'\<rparr>)
       | (Inr rc, r') \<Rightarrow>
           (Inr (), tr\<lparr>bt_root := r',
                          bt_size := (if rc = 0 then bt_size tr + 1 else bt_size tr)\<rparr>))"
    by (simp add: PyBTree_Insert_def Let_def full_iff r_def [symmetric] t_def [symmetric]
        n1_def n0_def split: prod.split sum.split)
  have res: "PyBTree_Insert h tr key v = (Inr (), tr')"
    unfolding unf n'(1) io1 by (simp add: tr'_def sz_def)
  have leaf': "n_keys n' = 0 \<longrightarrow> is_leaf n'"
  proof
    assume "n_keys n' = 0"
    then have "is_leaf n1" using n1 n'(5) by simp
    then have "d = 0" using lv leaves_at_sel [of d n1] by simp
    then show "is_leaf n'" using n'(4) leaves_at_sel [of d n'] by (simp split: if_splits)
  qed
  have len: "sz = int (length (inorder n'))"
    using n'(2) n1 D(8) length_upd_list [OF D(7), of key v] by (simp add: sz_def)
  have "btree_inv tr'"
    by (rule btree_invI [where d = d])
       (use t n' leaf' len sorted1_upd_list [OF srt, of key v] in \<open>simp_all add: tr'_def t_def [symmetric]\<close>)
  then show ?thesis
    using res n'(2) n1 by (auto simp: tr'_def sz_def r_def t_def)
qed


section \<open>The interface on a tree that satisfies the invariants\<close>

lemma PyBTree_Search_correct:
  "total_host h \<Longrightarrow> btree_inv tr
    \<Longrightarrow> PyBTree_Search h tr key = Inr (map_of (inorder (bt_root tr)) key)"
  unfolding PyBTree_Search_def
  by (rule node_search_correct [where t = "bt_order tr"]) (simp_all add: btree_invD)

lemma PyBTree_Contains_correct:
  "total_host h \<Longrightarrow> btree_inv tr
    \<Longrightarrow> PyBTree_Contains h tr key
        = Inr (if key \<in> fst ` set (inorder (bt_root tr)) then 1 else 0)"
  unfolding PyBTree_Contains_def
  by (rule node_contains_correct [where t = "bt_order tr"]) (simp_all add: btree_invD)

lemma PyBTree_Items_correct: "btree_inv tr \<Longrightarrow> PyBTree_Items tr = inorder (bt_root tr)"
  using collect_items_fast_inorder [OF btree_invD(2), of tr] btree_invD(8) [of tr]
  by (simp add: PyBTree_Items_def)

section \<open>Four ordered hosts\<close>

text \<open>Four hosts whose handles are natural numbers in their order. In \<open>nat_host\<close> every
  handle is an exact \<^verbatim>\<open>int\<close>, in \<open>float_host\<close> an exact \<^verbatim>\<open>float\<close> whose double is the
  number, in \<open>unicode_host\<close> an exact \<^verbatim>\<open>str\<close>, and in \<open>object_host\<close> an object of another
  type; each takes another branch of \<^verbatim>\<open>compare_keys\<close>.\<close>

definition nat_host :: "nat host" where
  "nat_host =
     \<lparr>PyLong_CheckExact = (\<lambda>_. True), PyFloat_CheckExact = (\<lambda>_. False),
      PyFloat_AS_DOUBLE = (\<lambda>_. DNaN), PyUnicode_CheckExact = (\<lambda>_. False),
      PyUnicode_Compare = (\<lambda>_ _. None),
      PyObject_RichCompareBool = (\<lambda>a b op. Some (case op of Py_LT \<Rightarrow> a < b | Py_EQ \<Rightarrow> a = b))\<rparr>"

definition float_host :: "nat host" where
  "float_host =
     \<lparr>PyLong_CheckExact = (\<lambda>_. False), PyFloat_CheckExact = (\<lambda>_. True),
      PyFloat_AS_DOUBLE = (\<lambda>a. DFin (real a)), PyUnicode_CheckExact = (\<lambda>_. False),
      PyUnicode_Compare = (\<lambda>_ _. None),
      PyObject_RichCompareBool = (\<lambda>a b op. Some (case op of Py_LT \<Rightarrow> a < b | Py_EQ \<Rightarrow> a = b))\<rparr>"


definition object_host :: "nat host" where
  "object_host =
     \<lparr>PyLong_CheckExact = (\<lambda>_. False), PyFloat_CheckExact = (\<lambda>_. False),
      PyFloat_AS_DOUBLE = (\<lambda>_. DNaN), PyUnicode_CheckExact = (\<lambda>_. False),
      PyUnicode_Compare = (\<lambda>_ _. None),
      PyObject_RichCompareBool = (\<lambda>a b op. Some (case op of Py_LT \<Rightarrow> a < b | Py_EQ \<Rightarrow> a = b))\<rparr>"


lemma host_order_float_host: "host_order float_host"
  by (simp add: host_order_def float_host_def)


lemma host_order_object_host: "host_order object_host"
  by (simp add: host_order_def object_host_def)




section \<open>Construction\<close>

text \<open>The arithmetic of \<^verbatim>\<open>btreenode_new\<close> on the orders a constructor passes: up to
  \<open>2^30\<close> the request for a leaf stays below \<^verbatim>\<open>PY_SSIZE_T_MAX\<close>; above, \<^verbatim>\<open>2 * order - 1\<close>
  is negative as an \<^verbatim>\<open>int\<close> and the request, as a \<^verbatim>\<open>size_t\<close>, is refused.\<close>

lemma c_int_id: "- 2147483648 \<le> x \<Longrightarrow> x \<le> 2147483647 \<Longrightarrow> c_int x = x"
  by (simp add: c_int_def)

lemma c_int_range: "- 2147483648 \<le> c_int x \<and> c_int x \<le> 2147483647"
proof -
  have "0 \<le> (x + 2147483648) mod 4294967296" "(x + 2147483648) mod 4294967296 < 4294967296"
    by simp_all
  then show ?thesis unfolding c_int_def by linarith
qed

lemma c_int_above:
  assumes "2147483648 \<le> x" "x < 6442450944"
  shows "c_int x = x - 4294967296"
proof -
  have "(x + 2147483648) mod 4294967296 = (x - 2147483648 + 4294967296) mod 4294967296"
    by (simp add: algebra_simps)
  also have "\<dots> = (x - 2147483648) mod 4294967296" by (rule mod_add_self2)
  also have "\<dots> = x - 2147483648" by (rule mod_pos_pos_trivial) (use assms in simp_all)
  finally show ?thesis by (simp add: c_int_def)
qed

lemma c_size_t_id: "0 \<le> x \<Longrightarrow> x < 18446744073709551616 \<Longrightarrow> c_size_t x = x"
  by (simp add: c_size_t_def)

lemma c_size_t_neg:
  assumes "- 18446744073709551616 \<le> x" "x < 0"
  shows "c_size_t x = x + 18446744073709551616"
proof -
  have "x mod 18446744073709551616 = (x + 18446744073709551616) mod 18446744073709551616"
    by (rule mod_add_self2 [symmetric])
  also have "\<dots> = x + 18446744073709551616"
    by (rule mod_pos_pos_trivial) (use assms in simp_all)
  finally show ?thesis by (simp add: c_size_t_def)
qed

lemma c_size_t_above:
  assumes "18446744073709551616 \<le> x" "x < 36893488147419103232"
  shows "c_size_t x = x - 18446744073709551616"
proof -
  have "x mod 18446744073709551616 = (x - 18446744073709551616 + 18446744073709551616) mod 18446744073709551616"
    by simp
  also have "\<dots> = (x - 18446744073709551616) mod 18446744073709551616" by (rule mod_add_self2)
  also have "\<dots> = x - 18446744073709551616"
    by (rule mod_pos_pos_trivial) (use assms in simp_all)
  finally show ?thesis by (simp add: c_size_t_def)
qed

lemma max_keys_small:
  assumes "2 \<le> ord" "ord \<le> 1073741824"
  shows "c_int (c_int (2 * ord) - 1) = 2 * ord - 1"
proof (cases "ord = 1073741824")
  case True
  then show ?thesis by (simp add: c_int_def)
next
  case False
  then have "c_int (2 * ord) = 2 * ord" using assms by (intro c_int_id) simp_all
  then show ?thesis using assms False by (simp add: c_int_id)
qed

lemma max_keys_large:
  assumes "1073741824 < ord" "ord \<le> 2147483647"
  shows "c_int (c_int (2 * ord) - 1) = 2 * ord - 4294967297"
proof -
  have "c_int (2 * ord) = 2 * ord - 4294967296" using assms by (intro c_int_above) simp_all
  then show ?thesis using assms by (simp add: c_int_id)
qed

lemma btreenode_new_leaf:
  assumes "2 \<le> ord" "ord \<le> 2147483647"
  shows "(btreenode_new ord True :: error + ('k, 'v) node) =
           (if 1073741824 < ord then Inl AllocationFailed else Inr (Node (nat ord) True [] [] []))"
proof (cases "1073741824 < ord")
  case False
  then have mk: "c_int (c_int (2 * ord) - 1) = 2 * ord - 1" using assms by (intro max_keys_small) simp_all
  have s: "c_size_t (2 * ord - 1) = 2 * ord - 1" using assms by (intro c_size_t_id) simp_all
  have s8: "c_size_t ((2 * ord - 1) * 8) = (2 * ord - 1) * 8" using assms False by (intro c_size_t_id) simp_all
  have tot: "c_size_t ((2 * ord - 1) * 8 + (2 * ord - 1) * 8 + 0) = (2 * ord - 1) * 8 + (2 * ord - 1) * 8"
    using assms False by (simp add: c_size_t_id)
  show ?thesis
    using False assms unfolding btreenode_new_def Let_def mk s s8 if_True tot
    by (simp add: PY_SSIZE_T_MAX_def)
next
  case True
  define x where "x = 2 * ord - 4294967297"
  have x: "- 2147483648 < x" "x < 0" using True assms by (simp_all add: x_def)
  have mk: "c_int (c_int (2 * ord) - 1) = x" unfolding x_def using True assms by (intro max_keys_large) simp_all
  have s: "c_size_t x = x + 18446744073709551616" using x by (intro c_size_t_neg) simp_all
  have "(x + 18446744073709551616) * 8 = 8 * x + 18446744073709551616 + 7 * 18446744073709551616"
    by simp
  then have "c_size_t ((x + 18446744073709551616) * 8)
           = (8 * x + 18446744073709551616 + 7 * 18446744073709551616) mod 18446744073709551616"
    by (simp only: c_size_t_def)
  also have "\<dots> = (8 * x + 18446744073709551616) mod 18446744073709551616"
    by (rule mod_mult_self1)
  also have "\<dots> = 8 * x + 18446744073709551616"
    by (rule mod_pos_pos_trivial) (use x in simp_all)
  finally have s8: "c_size_t ((x + 18446744073709551616) * 8) = 8 * x + 18446744073709551616" .
  have tot: "c_size_t (8 * x + 18446744073709551616 + (8 * x + 18446744073709551616) + 0)
             = 16 * x + 18446744073709551616"
    using x by (simp add: c_size_t_above)
  show ?thesis
    using True x unfolding btreenode_new_def Let_def mk s s8 if_True tot
    by (simp add: PY_SSIZE_T_MAX_def)
qed

text \<open>
  Claim C7, as amended. The constructor of the binding, \<^verbatim>\<open>btree_init\<close>, fails with
  \<open>BadArgument\<close> on an explicit order below 2 that is an \<^verbatim>\<open>int\<close> of C, and with \<open>Overflow\<close>
  on an order that is not; with no order it makes an empty tree of order 8, and with an
  explicit order from 2 to \<open>2^30\<close> an empty tree of that order: size 0 and a root that is
  an empty leaf. Above \<open>2^30\<close> the allocation of the root is refused. The constructor of
  the C interface, \<^verbatim>\<open>PyBTree_New\<close>, does not fail on an order below 2: it replaces it by
  the default 8.
\<close>

theorem construction_spec:
  "(btree_init (Some ord) :: error + ('k, 'v) PyBTreeObject) =
     (if ord < - 2147483648 \<or> 2147483647 < ord then Inl Overflow
      else if ord < 2 then Inl BadArgument
      else if 1073741824 < ord then Inl AllocationFailed
      else Inr \<lparr>bt_root = Node (nat ord) True [] [] [], bt_size = 0, bt_order = nat ord\<rparr>)
   \<and> (btree_init None :: error + ('k, 'v) PyBTreeObject) =
       Inr \<lparr>bt_root = Node 8 True [] [] [], bt_size = 0, bt_order = 8\<rparr>
   \<and> (PyBTree_New ord :: error + ('k, 'v) PyBTreeObject) =
       (if c_int ord < 2 then Inr \<lparr>bt_root = Node 8 True [] [] [], bt_size = 0, bt_order = 8\<rparr>
        else if 1073741824 < c_int ord then Inl AllocationFailed
        else Inr \<lparr>bt_root = Node (nat (c_int ord)) True [] [] [], bt_size = 0,
                  bt_order = nat (c_int ord)\<rparr>)"
proof -
  have n8: "(btreenode_new 8 True :: error + ('k, 'v) node) = Inr (Node 8 True [] [] [])"
    by (simp add: btreenode_new_leaf)
  have a: "(btree_init None :: error + ('k, 'v) PyBTreeObject) =
       Inr \<lparr>bt_root = Node 8 True [] [] [], bt_size = 0, bt_order = 8\<rparr>"
    by (simp add: btree_init_def BTREE_DEFAULT_ORDER_def BTREE_MIN_ORDER_def n8)
  have b: "(btree_init (Some ord) :: error + ('k, 'v) PyBTreeObject) =
     (if ord < - 2147483648 \<or> 2147483647 < ord then Inl Overflow
      else if ord < 2 then Inl BadArgument
      else if 1073741824 < ord then Inl AllocationFailed
      else Inr \<lparr>bt_root = Node (nat ord) True [] [] [], bt_size = 0, bt_order = nat ord\<rparr>)"
  proof (cases "2 \<le> ord \<and> ord \<le> 2147483647")
    case True
    then show ?thesis
      by (simp add: btree_init_def BTREE_MIN_ORDER_def btreenode_new_leaf)
  next
    case False
    then show ?thesis by (auto simp: btree_init_def BTREE_MIN_ORDER_def)
  qed
  have c: "(PyBTree_New ord :: error + ('k, 'v) PyBTreeObject) =
       (if c_int ord < 2 then Inr \<lparr>bt_root = Node 8 True [] [] [], bt_size = 0, bt_order = 8\<rparr>
        else if 1073741824 < c_int ord then Inl AllocationFailed
        else Inr \<lparr>bt_root = Node (nat (c_int ord)) True [] [] [], bt_size = 0,
                  bt_order = nat (c_int ord)\<rparr>)"
  proof (cases "2 \<le> c_int ord")
    case True
    then show ?thesis
      using c_int_range [of ord]
      by (simp add: PyBTree_New_def BTREE_MIN_ORDER_def Let_def btreenode_new_leaf)
  next
    case False
    then show ?thesis
      by (simp add: PyBTree_New_def BTREE_MIN_ORDER_def BTREE_DEFAULT_ORDER_def Let_def n8)
  qed
  show ?thesis using a b c by simp
qed

text \<open>
  Claim C7 as stated fails for \<^verbatim>\<open>PyBTree_New\<close>: the explicit order 1 gives a tree of
  order 8, not \<open>BadArgument\<close>.
\<close>

theorem PyBTree_New_order_counterexample:
  "(PyBTree_New 1 :: error + (nat, nat) PyBTreeObject) =
     Inr \<lparr>bt_root = Node 8 True [] [] [], bt_size = 0, bt_order = 8\<rparr>"
  by (simp add: PyBTree_New_def BTREE_DEFAULT_ORDER_def BTREE_MIN_ORDER_def Let_def
      c_int_id btreenode_new_leaf)


section \<open>Failures of the host comparison\<close>

text \<open>
  \<open>host_fails h a b\<close>: a call of the runtime that \<^verbatim>\<open>compare_keys\<close> makes for the handles
  \<open>a\<close> and \<open>b\<close> reports an error. The calls are read off the code: on two exact ints the
  less-than test and, when it is false, the equality test; nothing on two floats that are
  not NaN; \<^verbatim>\<open>PyUnicode_Compare\<close> on two exact strings; otherwise the equality test and,
  when it is false, the less-than test.
\<close>

definition host_fails :: "'k host \<Rightarrow> 'k \<Rightarrow> 'k \<Rightarrow> bool" where
  "host_fails h a b \<longleftrightarrow>
     a \<noteq> b \<and>
     (if PyLong_CheckExact h a \<and> PyLong_CheckExact h b then
        PyObject_RichCompareBool h a b Py_LT = None
        \<or> (PyObject_RichCompareBool h a b Py_LT = Some False
            \<and> PyObject_RichCompareBool h a b Py_EQ = None)
      else if PyFloat_CheckExact h a \<and> PyFloat_CheckExact h b
              \<and> PyFloat_AS_DOUBLE h a \<noteq> DNaN \<and> PyFloat_AS_DOUBLE h b \<noteq> DNaN then False
      else if PyUnicode_CheckExact h a \<and> PyUnicode_CheckExact h b then
        PyUnicode_Compare h a b = None
      else
        PyObject_RichCompareBool h a b Py_EQ = None
        \<or> (PyObject_RichCompareBool h a b Py_EQ = Some False
            \<and> PyObject_RichCompareBool h a b Py_LT = None))"

text \<open>
  The comparisons of a search. \<open>search_probes\<close> lists the slots that the loop of
  \<^verbatim>\<open>node_search_key\<close> compares the key with, in the order of the loop, and \<open>search_path\<close>
  the nodes that \<^verbatim>\<open>node_search\<close> and \<^verbatim>\<open>node_contains\<close> visit. \<open>probe_fails h node key\<close>:
  one of the comparisons made in the node returns the error code \<open>-2\<close>.
\<close>

function search_probes :: "'k host \<Rightarrow> 'k list \<Rightarrow> 'k \<Rightarrow> int \<Rightarrow> int \<Rightarrow> nat list" where
  "search_probes h ks key low high =
    (if low \<le> high then
       (let mid = low + (high - low) div 2;
            cmp = compare_keys h key (ks ! nat mid)
        in nat mid #
           (if cmp = - 2 then []
            else if cmp = 0 then []
            else if cmp < 0 then search_probes h ks key low (mid - 1)
            else search_probes h ks key (mid + 1) high))
     else [])"
  by pat_completeness auto
termination
  by (relation "measure (\<lambda>(h, ks, key, low, high). nat (high - low + 1))") auto

declare search_probes.simps [simp del]

definition probe_fails :: "'k host \<Rightarrow> ('k, 'v) node \<Rightarrow> 'k \<Rightarrow> bool" where
  "probe_fails h node key \<longleftrightarrow>
     (\<exists>m \<in> set (search_probes h (keys node) key 0 (int (n_keys node) - 1)).
        compare_keys h key (keys node ! m) = - 2)"

function search_path :: "'k host \<Rightarrow> ('k, 'v) node \<Rightarrow> 'k \<Rightarrow> ('k, 'v) node list" where
  "search_path h node key =
     node #
     (case node_search_key h node key of
        Inl e \<Rightarrow> []
      | Inr (i, found) \<Rightarrow>
          if found \<or> is_leaf node \<or> length (children node) \<le> i then []
          else search_path h (children node ! i) key)"
  by pat_completeness auto
termination
  by (relation "measure (\<lambda>(h, node, key). nodes node)") (auto simp: nodes_nth)

declare search_path.simps [simp del]

text \<open>Three hosts over the handles \<open>nat\<close>. The rich comparison of the first two always
  fails: for the first every handle is an exact int, for the second none is. In the third
  no handle is of an exact type and the rich comparison fails only against the handle
  40.\<close>

definition failing_long_host :: "nat host" where
  "failing_long_host =
     \<lparr>PyLong_CheckExact = (\<lambda>_. True), PyFloat_CheckExact = (\<lambda>_. False),
      PyFloat_AS_DOUBLE = (\<lambda>_. DNaN), PyUnicode_CheckExact = (\<lambda>_. False),
      PyUnicode_Compare = (\<lambda>_ _. None), PyObject_RichCompareBool = (\<lambda>_ _ _. None)\<rparr>"

definition failing_object_host :: "nat host" where
  "failing_object_host =
     \<lparr>PyLong_CheckExact = (\<lambda>_. False), PyFloat_CheckExact = (\<lambda>_. False),
      PyFloat_AS_DOUBLE = (\<lambda>_. DNaN), PyUnicode_CheckExact = (\<lambda>_. False),
      PyUnicode_Compare = (\<lambda>_ _. None), PyObject_RichCompareBool = (\<lambda>_ _ _. None)\<rparr>"

definition failing_at_40_host :: "nat host" where
  "failing_at_40_host =
     \<lparr>PyLong_CheckExact = (\<lambda>_. False), PyFloat_CheckExact = (\<lambda>_. False),
      PyFloat_AS_DOUBLE = (\<lambda>_. DNaN), PyUnicode_CheckExact = (\<lambda>_. False),
      PyUnicode_Compare = (\<lambda>_ _. None),
      PyObject_RichCompareBool =
        (\<lambda>a b op. if b = 40 then None
                   else Some (case op of Py_LT \<Rightarrow> a < b | Py_EQ \<Rightarrow> a = b))\<rparr>"

lemma compare_keys_host_fails:
  "host_fails h a b \<Longrightarrow>
   compare_keys h a b = (if PyLong_CheckExact h a \<and> PyLong_CheckExact h b then 0 else - 2)"
  unfolding host_fails_def compare_keys_def
  by (auto split: option.splits bool.splits if_splits)

lemma compare_keys_error_host_fails:
  "compare_keys h a b = - 2 \<Longrightarrow> host_fails h a b"
  unfolding host_fails_def compare_keys_def
  by (auto split: option.splits bool.splits if_splits)

lemma node_search_loop_error_iff:
  "node_search_loop h ks key low high = Inl e \<longleftrightarrow>
     e = ComparisonError
     \<and> (\<exists>m \<in> set (search_probes h ks key low high). compare_keys h key (ks ! m) = - 2)"
proof (induction h ks key low high rule: node_search_loop.induct)
  case (1 h ks key low high)
  define mid where "mid = low + (high - low) div 2"
  define cmp where "cmp = compare_keys h key (ks ! nat mid)"
  show ?case
  proof (cases "low \<le> high")
    case False
    then show ?thesis
      by (subst node_search_loop.simps, subst search_probes.simps) simp
  next
    case True
    consider (err) "cmp = - 2" | (eq) "cmp = 0" | (lt) "cmp \<noteq> - 2" "cmp \<noteq> 0" "cmp < 0"
      | (gt) "cmp \<noteq> - 2" "cmp \<noteq> 0" "\<not> cmp < 0"
      by blast
    then show ?thesis
    proof cases
      case err
      then show ?thesis
        using True
        by (subst node_search_loop.simps, subst search_probes.simps)
           (auto simp: Let_def mid_def cmp_def)
    next
      case eq
      then show ?thesis
        using True
        by (subst node_search_loop.simps, subst search_probes.simps)
           (auto simp: Let_def mid_def cmp_def)
    next
      case lt
      have "node_search_loop h ks key low (mid - 1) = Inl e \<longleftrightarrow>
              e = ComparisonError
              \<and> (\<exists>m \<in> set (search_probes h ks key low (mid - 1)). compare_keys h key (ks ! m) = - 2)"
        using "1.IH"(1) [OF True mid_def cmp_def] lt by simp
      then show ?thesis
        using True lt
        by (subst node_search_loop.simps, subst search_probes.simps)
           (simp add: Let_def mid_def [symmetric] cmp_def [symmetric])
    next
      case gt
      have "node_search_loop h ks key (mid + 1) high = Inl e \<longleftrightarrow>
              e = ComparisonError
              \<and> (\<exists>m \<in> set (search_probes h ks key (mid + 1) high). compare_keys h key (ks ! m) = - 2)"
        using "1.IH"(2) [OF True mid_def cmp_def] gt by simp
      then show ?thesis
        using True gt
        by (subst node_search_loop.simps, subst search_probes.simps)
           (simp add: Let_def mid_def [symmetric] cmp_def [symmetric])
    qed
  qed
qed

lemma node_search_key_error_iff:
  "node_search_key h node key = Inl e \<longleftrightarrow> e = ComparisonError \<and> probe_fails h node key"
  unfolding node_search_key_def probe_fails_def by (rule node_search_loop_error_iff)

lemma node_search_error_iff:
  "node_search h node key = Inl e \<longleftrightarrow>
     e = ComparisonError \<and> (\<exists>n \<in> set (search_path h node key). probe_fails h n key)"
proof (induction h node key rule: node_search.induct)
  case (1 h node key)
  show ?case
  proof (cases "node_search_key h node key")
    case (Inl e')
    then have "e' = ComparisonError" "probe_fails h node key"
      using node_search_key_error_iff [of h node key e'] by simp_all
    then show ?thesis
      using Inl by (subst node_search.simps, subst search_path.simps) auto
  next
    case (Inr r)
    obtain i found where r: "r = (i, found)" by (cases r)
    have np: "\<not> probe_fails h node key"
      using node_search_key_error_iff [of h node key ComparisonError] Inr by simp
    show ?thesis
    proof (cases "found \<or> is_leaf node \<or> length (children node) \<le> i")
      case True
      then show ?thesis
        using Inr r np by (subst node_search.simps, subst search_path.simps) auto
    next
      case False
      then have "node_search h (children node ! i) key = Inl e \<longleftrightarrow>
          e = ComparisonError
          \<and> (\<exists>n \<in> set (search_path h (children node ! i) key). probe_fails h n key)"
        using "1.IH" [OF Inr r [symmetric]] by simp
      then show ?thesis
        using Inr r np False by (subst node_search.simps, subst search_path.simps) auto
    qed
  qed
qed

lemma node_contains_error_iff:
  "node_contains h node key = Inl e \<longleftrightarrow>
     e = ComparisonError \<and> (\<exists>n \<in> set (search_path h node key). probe_fails h n key)"
proof (induction h node key rule: node_contains.induct)
  case (1 h node key)
  show ?case
  proof (cases "node_search_key h node key")
    case (Inl e')
    then have "e' = ComparisonError" "probe_fails h node key"
      using node_search_key_error_iff [of h node key e'] by simp_all
    then show ?thesis
      using Inl by (subst node_contains.simps, subst search_path.simps) auto
  next
    case (Inr r)
    obtain i found where r: "r = (i, found)" by (cases r)
    have np: "\<not> probe_fails h node key"
      using node_search_key_error_iff [of h node key ComparisonError] Inr by simp
    show ?thesis
    proof (cases "found \<or> is_leaf node \<or> length (children node) \<le> i")
      case True
      then show ?thesis
        using Inr r np by (subst node_contains.simps, subst search_path.simps) auto
    next
      case False
      then have "node_contains h (children node ! i) key = Inl e \<longleftrightarrow>
          e = ComparisonError
          \<and> (\<exists>n \<in> set (search_path h (children node ! i) key). probe_fails h n key)"
        using "1.IH" [OF Inr r [symmetric]] by simp
      then show ?thesis
        using Inr r np False by (subst node_contains.simps, subst search_path.simps) auto
    qed
  qed
qed

lemma mutation_error:
  assumes "probe_fails h node key"
  shows "insert_non_full h node key val = (Inl ComparisonError, node)"
    and "delete_from_node h node key = (Inl ComparisonError, node)"
  using assms node_search_key_error_iff [of h node key ComparisonError]
  by (simp_all add: insert_non_full.simps delete_from_node.simps)

text \<open>
  Claim C6, which the code does not meet. What it does: when a host call made for two
  handles fails, \<^verbatim>\<open>compare_keys\<close> returns the error code \<open>-2\<close>, unless both handles are
  exact ints: then it returns 0, equal. The code \<open>-2\<close> is returned for no other reason.
  \<^verbatim>\<open>node_search_key\<close> fails with \<open>ComparisonError\<close> exactly when one of its comparisons
  returns \<open>-2\<close>, whichever it is; a lookup and a membership test fail with it exactly
  when that happens in one of the nodes of their descent, the root or below; insertion
  into a node and deletion from a node where it happens fail with it and leave the node
  as it was, and so do \<^verbatim>\<open>PyBTree_Delete\<close> and, on a root that is not full,
  \<^verbatim>\<open>PyBTree_Insert\<close> when it happens in the root.
\<close>

theorem comparison_error_spec:
  "(host_fails h a b \<longrightarrow>
      compare_keys h a b = (if PyLong_CheckExact h a \<and> PyLong_CheckExact h b then 0 else - 2))
   \<and> (compare_keys h a b = - 2 \<longrightarrow> host_fails h a b)
   \<and> (node_search_key h node key = Inl ComparisonError \<longleftrightarrow> probe_fails h node key)
   \<and> (PyBTree_Search h btree key = Inl ComparisonError
        \<longleftrightarrow> (\<exists>n \<in> set (search_path h (bt_root btree) key). probe_fails h n key))
   \<and> (PyBTree_Contains h btree key = Inl ComparisonError
        \<longleftrightarrow> (\<exists>n \<in> set (search_path h (bt_root btree) key). probe_fails h n key))
   \<and> (probe_fails h node key \<longrightarrow>
        insert_non_full h node key val = (Inl ComparisonError, node)
        \<and> delete_from_node h node key = (Inl ComparisonError, node))
   \<and> (probe_fails h (bt_root btree) key \<and> bt_size btree \<noteq> 0 \<longrightarrow>
        PyBTree_Delete h btree key = (Inl ComparisonError, btree))
   \<and> (probe_fails h (bt_root btree) key
        \<and> int (n_keys (bt_root btree)) \<noteq> 2 * int (bt_order btree) - 1 \<longrightarrow>
        PyBTree_Insert h btree key val = (Inl ComparisonError, btree))"
proof -
  have "PyBTree_Delete h btree key = (Inl ComparisonError, btree)"
    if "probe_fails h (bt_root btree) key" "bt_size btree \<noteq> 0"
    using that mutation_error(2) [of h "bt_root btree" key] by (simp add: PyBTree_Delete_def)
  moreover have "PyBTree_Insert h btree key val = (Inl ComparisonError, btree)"
    if "probe_fails h (bt_root btree) key"
      "int (n_keys (bt_root btree)) \<noteq> 2 * int (bt_order btree) - 1"
    using that mutation_error(1) [of h "bt_root btree" key val]
    by (simp add: PyBTree_Insert_def Let_def)
  ultimately show ?thesis
    using compare_keys_host_fails [of h a b] compare_keys_error_host_fails [of h a b]
      node_search_key_error_iff [of h node key ComparisonError]
      node_search_error_iff [of h "bt_root btree" key ComparisonError]
      node_contains_error_iff [of h "bt_root btree" key ComparisonError]
      mutation_error(1) [of h node key val] mutation_error(2) [of h node key]
    unfolding PyBTree_Search_def PyBTree_Contains_def by blast
qed

theorem comparison_error_spec_witness:
  "host_fails failing_at_40_host 35 40
   \<and> compare_keys failing_at_40_host 35 40 = - 2
   \<and> \<not> probe_fails failing_at_40_host
         (Node 2 False [20] [''b''] [Node 2 True [10] [''a''] [], Node 2 True [30, 40] [''c'', ''d''] []]) 35
   \<and> probe_fails failing_at_40_host (Node 2 True [30, 40] [''c'', ''d''] []) 35
   \<and> PyBTree_Search failing_at_40_host
        \<lparr>bt_root = Node 2 False [20] [''b'']
                    [Node 2 True [10] [''a''] [], Node 2 True [30, 40] [''c'', ''d''] []],
         bt_size = 4, bt_order = 2\<rparr> 35
      = Inl ComparisonError
   \<and> insert_non_full failing_at_40_host (Node 2 True [30, 40] [''c'', ''d''] []) 35 ''e''
      = (Inl ComparisonError, Node 2 True [30, 40] [''c'', ''d''] [])"
proof -
  let ?leaf = "Node 2 True [30::nat, 40] [''c'', ''d''] []"
  let ?root = "Node 2 False [20::nat] [''b''] [Node 2 True [10] [''a''] [], ?leaf]"
  let ?T = "\<lparr>bt_root = ?root, bt_size = 4, bt_order = 2\<rparr>"
  have hf: "host_fails failing_at_40_host 35 40" by code_simp
  have ck: "compare_keys failing_at_40_host 35 40 = - 2" by code_simp
  have np: "\<not> probe_fails failing_at_40_host ?root 35" by code_simp
  have pf: "probe_fails failing_at_40_host ?leaf 35" by code_simp
  have path: "search_path failing_at_40_host ?root 35 = [?root, ?leaf]" by code_simp
  show ?thesis
    using comparison_error_spec [of failing_at_40_host 35 40 ?leaf 35 ?T "''e''"] hf ck np pf path
    by simp
qed

text \<open>
  Claim C6 fails on two exact ints: the host comparison of the handles 1 and 2 fails,
  \<^verbatim>\<open>compare_keys\<close> answers 0, and the lookup of 1 returns the value stored under 2
  instead of \<open>ComparisonError\<close>.
\<close>

theorem comparison_error_counterexample:
  "host_fails failing_long_host 1 2
   \<and> compare_keys failing_long_host 1 2 = 0
   \<and> PyBTree_Search failing_long_host
        \<lparr>bt_root = Node 2 True [2] [''two''] [], bt_size = 1, bt_order = 2\<rparr> 1
      = Inr (Some ''two'')"
  by (simp add: host_fails_def failing_long_host_def compare_keys_def PyBTree_Search_def
      node_search.simps node_search_key_def node_search_loop.simps)


section \<open>Nodes below the root\<close>

text \<open>\<open>subtree_ok t d c\<close>: the subtree \<open>c\<close> is well formed, has all its leaves \<open>d\<close> levels
  down and every node of it, \<open>c\<close> included, holds between \<open>t - 1\<close> and \<open>2t - 1\<close> keys.
  \<open>node_ok t d n\<close> asks the same of \<open>n\<close> but for the lower bound on the keys of \<open>n\<close>
  itself.\<close>

definition subtree_ok :: "nat \<Rightarrow> nat \<Rightarrow> ('k, 'v) node \<Rightarrow> bool" where
  "subtree_ok t d c \<longleftrightarrow> well_formed t c \<and> leaves_at d c \<and> occupancy t c"

definition node_ok :: "nat \<Rightarrow> nat \<Rightarrow> ('k, 'v) node \<Rightarrow> bool" where
  "node_ok t d n \<longleftrightarrow> well_formed t n \<and> leaves_at d n \<and> n_keys n \<le> 2 * t - 1
                     \<and> (\<forall>c \<in> set (children n). occupancy t c)"

lemma subtree_ok_Node:
  "subtree_ok t d (Node ord leaf ks vs cs) \<longleftrightarrow>
     ord = t \<and> length vs = length ks \<and> t - 1 \<le> length ks \<and> length ks \<le> 2 * t - 1
     \<and> (if leaf then cs = [] \<and> d = 0
         else length cs = Suc (length ks) \<and> 0 < d \<and> (\<forall>c \<in> set cs. subtree_ok t (d - 1) c))"
  by (auto simp: subtree_ok_def)

lemma node_ok_Node:
  "node_ok t d (Node ord leaf ks vs cs) \<longleftrightarrow>
     ord = t \<and> length vs = length ks \<and> length ks \<le> 2 * t - 1
     \<and> (if leaf then cs = [] \<and> d = 0
         else length cs = Suc (length ks) \<and> 0 < d \<and> (\<forall>c \<in> set cs. subtree_ok t (d - 1) c))"
  by (auto simp: subtree_ok_def node_ok_def)

lemma subtree_ok_sel:
  "subtree_ok t d n \<longleftrightarrow>
     order n = t \<and> length (vals n) = n_keys n \<and> t - 1 \<le> n_keys n \<and> n_keys n \<le> 2 * t - 1
     \<and> (if is_leaf n then children n = [] \<and> d = 0
         else length (children n) = Suc (n_keys n) \<and> 0 < d
              \<and> (\<forall>c \<in> set (children n). subtree_ok t (d - 1) c))"
  by (cases n) (simp add: subtree_ok_Node)

lemma node_ok_sel:
  "node_ok t d n \<longleftrightarrow>
     order n = t \<and> length (vals n) = n_keys n \<and> n_keys n \<le> 2 * t - 1
     \<and> (if is_leaf n then children n = [] \<and> d = 0
         else length (children n) = Suc (n_keys n) \<and> 0 < d
              \<and> (\<forall>c \<in> set (children n). subtree_ok t (d - 1) c))"
  by (cases n) (simp add: node_ok_Node)

lemma subtree_ok_node_ok: "subtree_ok t d n \<longleftrightarrow> node_ok t d n \<and> t - 1 \<le> n_keys n"
  by (auto simp: subtree_ok_sel [of t d n] node_ok_sel [of t d n])

lemma node_ok_child:
  "node_ok t d n \<Longrightarrow> \<not> is_leaf n \<Longrightarrow> i < length (children n) \<Longrightarrow> subtree_ok t (d - 1) (children n ! i)"
  by (simp add: node_ok_sel [of t d n])

lemma node_ok_shape:
  assumes "node_ok t d n"
  shows "well_formed t n" "order n = t" "length (vals n) = n_keys n" "n_keys n \<le> 2 * t - 1"
    "\<not> is_leaf n \<Longrightarrow> length (children n) = Suc (n_keys n)"
    "\<not> is_leaf n \<Longrightarrow> 0 < d"
    "leaves_at d n" "\<forall>c \<in> set (children n). occupancy t c"
  using assms by (cases n; simp add: node_ok_def split: if_splits)+

lemma subtree_ok_shape:
  assumes "subtree_ok t d n"
  shows "well_formed t n" "order n = t" "length (vals n) = n_keys n" "n_keys n \<le> 2 * t - 1"
    "t - 1 \<le> n_keys n" "is_leaf n \<longleftrightarrow> d = 0"
    "\<not> is_leaf n \<Longrightarrow> length (children n) = Suc (n_keys n)"
    "is_leaf n \<Longrightarrow> children n = []"
  using assms by (cases n; simp add: subtree_ok_def split: if_splits)+

lemma subtree_ok_child:
  "subtree_ok t d n \<Longrightarrow> \<not> is_leaf n \<Longrightarrow> i < length (children n) \<Longrightarrow> subtree_ok t (d - 1) (children n ! i)"
  by (simp add: subtree_ok_sel [of t d n])

section \<open>The in-order sequence around a separator\<close>

lemma interleave_append_Suc:
  "length cs = Suc (length ss) \<or> cs = [] \<and> cs' = [] \<Longrightarrow>
   interleave (cs @ cs') (ss @ s # ss') = interleave cs ss @ s # interleave cs' ss'"
proof (induction cs ss rule: interleave.induct)
  case (1 c cs s ss)
  then show ?case by simp
next
  case (2 c cs)
  then show ?case by (cases cs') simp_all
next
  case (3 ss)
  then show ?case by simp
qed

lemma inorder_segment:
  assumes "length (children n) = Suc (n_keys n)" "length (vals n) = n_keys n" "i < n_keys n"
  shows "inorder n = before n i @ inorder (children n ! i) @ (keys n ! i, vals n ! i)
                       # inorder (children n ! Suc i) @ behind n (Suc i)"
  using inorder_shape [OF assms(1,2), of i] behind_step [OF assms] assms(3) by simp

lemma segment_bounds:
  assumes "length (children n) = Suc (n_keys n)" "length (vals n) = n_keys n" "i < n_keys n"
    and "sorted1 (inorder n)"
  shows "\<forall>p \<in> set (inorder (children n ! i)). fst p < keys n ! i"
    and "\<forall>p \<in> set (inorder (children n ! Suc i)). keys n ! i < fst p"
    and "\<forall>p \<in> set (before n i). fst p < keys n ! i"
    and "\<forall>p \<in> set (behind n (Suc i)). keys n ! i < fst p"
  using assms(4) unfolding inorder_segment [OF assms(1-3)]
  by (auto simp: sorted_wrt_append)


section \<open>Merging two children\<close>

lemma before_cong:
  "take i (children n') = take i (children n) \<Longrightarrow>
   take i (zip (keys n') (vals n')) = take i (zip (keys n) (vals n)) \<Longrightarrow> before n' i = before n i"
  by (simp add: before_def)

lemma behind_cong:
  "drop (Suc j) (children n') = drop (Suc i) (children n) \<Longrightarrow>
   drop j (zip (keys n') (vals n')) = drop i (zip (keys n) (vals n)) \<Longrightarrow> behind n' j = behind n i"
  by (simp add: behind_def)

lemma inorder_merged:
  assumes "is_leaf c \<and> children c = [] \<and> children s = [] \<or> length (children c) = Suc (n_keys c)"
    and "length (vals c) = n_keys c"
  shows "inorder (Node ord leaf (keys c @ k # keys s) (vals c @ v # vals s) (children c @ children s))
         = inorder c @ (k, v) # inorder s"
proof -
  have "interleave (map inorder (children c) @ map inorder (children s))
          (zip (keys c) (vals c) @ (k, v) # zip (keys s) (vals s))
        = interleave (map inorder (children c)) (zip (keys c) (vals c))
          @ (k, v) # interleave (map inorder (children s)) (zip (keys s) (vals s))"
    by (rule interleave_append_Suc) (use assms in auto)
  then show ?thesis using assms(2) by (simp add: inorder_sel [of c] inorder_sel [of s])
qed

lemma merge_children_node:
  assumes ok: "node_ok t d n" and nl: "\<not> is_leaf n" and i: "i < n_keys n" and t: "0 < t"
    and c: "n_keys (children n ! i) = t - 1" and s: "n_keys (children n ! Suc i) = t - 1"
  shows "\<exists>n1. merge_children n i = Inr n1 \<and> node_ok t d n1 \<and> \<not> is_leaf n1
            \<and> inorder n1 = inorder n
            \<and> keys n1 = take i (keys n) @ drop (Suc i) (keys n)
            \<and> n_keys (children n1 ! i) = 2 * t - 1"
proof -
  note sh = node_ok_shape [OF ok]
  have len: "length (children n) = Suc (n_keys n)" using sh nl by simp
  define ch where "ch = children n ! i"
  define sb where "sb = children n ! Suc i"
  have cok: "subtree_ok t (d - 1) ch" unfolding ch_def
    by (rule node_ok_child [OF ok nl]) (use len i in simp)
  have sok: "subtree_ok t (d - 1) sb" unfolding sb_def
    by (rule node_ok_child [OF ok nl]) (use len i in simp)
  note csh = subtree_ok_shape [OF cok] and ssh = subtree_ok_shape [OF sok]
  have ck: "n_keys ch = t - 1" and sk: "n_keys sb = t - 1" using c s by (simp_all add: ch_def sb_def)
  define m where "m = Node t (is_leaf ch) (keys ch @ keys n ! i # keys sb)
                        (vals ch @ vals n ! i # vals sb) (children ch @ children sb)"
  define n1 where "n1 = Node t False (take i (keys n) @ drop (Suc i) (keys n))
                          (take i (vals n) @ drop (Suc i) (vals n))
                          (take i (children n) @ m # drop (i + 2) (children n))"
  have tk: "take (t - 1) (keys ch) = keys ch" "take (t - 1) (vals ch) = vals ch"
    using ck csh(3) by simp_all
  have tc: "(if is_leaf ch then children ch else take t (children ch) @ children sb)
            = children ch @ children sb"
    using csh ssh ck t by (auto simp: csh(6))
  have r: "merge_children n i = Inr n1"
    using i len sh(2,3) nl
    by (simp add: merge_children_def Let_def n1_def m_def ch_def [symmetric] sb_def [symmetric]
        ck tc csh(2,3))
  have mok: "subtree_ok t (d - 1) m"
    unfolding m_def subtree_ok_Node
    using csh ssh ck sk t subtree_ok_child [OF cok] subtree_ok_child [OF sok]
    by (auto simp: in_set_conv_nth)
  have sub: "x \<in> set (children n) \<or> x = m" if "x \<in> set (take i (children n) @ m # drop (i + 2) (children n))" for x
    using that by (auto dest: in_set_takeD in_set_dropD)
  have n1ok: "node_ok t d n1"
    unfolding n1_def node_ok_Node
    using sh nl i len mok node_ok_child [OF ok nl] sub
    by (auto simp: in_set_conv_nth)
  have sh1: "length (children n1) = Suc (n_keys n1)" "length (vals n1) = n_keys n1" "i \<le> n_keys n1"
    using i len sh by (simp_all add: n1_def)
  have z: "zip (keys n1) (vals n1)
           = take i (zip (keys n) (vals n)) @ drop (Suc i) (zip (keys n) (vals n))"
    using sh(3) by (simp add: n1_def take_zip drop_zip)
  have cs1: "children n1 = take i (children n) @ m # drop (i + 2) (children n)"
    by (simp add: n1_def)
  have b1: "before n1 i = before n i"
    by (rule before_cong) (use i len sh(3) in \<open>simp_all add: z cs1\<close>)
  have b2: "behind n1 i = behind n (Suc i)"
    by (rule behind_cong) (use i len sh(3) in \<open>simp_all add: z cs1\<close>)
  have im: "inorder m = inorder ch @ (keys n ! i, vals n ! i) # inorder sb"
    unfolding m_def by (rule inorder_merged) (use csh ssh in auto)
  have "inorder n1 = before n1 i @ inorder (children n1 ! i) @ behind n1 i"
    by (rule inorder_shape [OF sh1])
  also have "children n1 ! i = m" using i len by (simp add: n1_def nth_append)
  finally have "inorder n1 = inorder n"
    unfolding b1 b2 im inorder_segment [OF len sh(3) i] by (simp add: ch_def sb_def)
  moreover have "n_keys (children n1 ! i) = 2 * t - 1"
    using i len ck sk t by (simp add: n1_def nth_append m_def)
  ultimately show ?thesis using r n1ok by (simp add: n1_def)
qed


section \<open>Borrowing a key from a sibling\<close>

lemma inorder_uncons:
  assumes "0 < n_keys s" "length (vals s) = n_keys s"
    and "children s = [] \<or> length (children s) = Suc (n_keys s)"
  shows "inorder s = interleave (map inorder (take 1 (children s))) []
                     @ (keys s ! 0, vals s ! 0)
                       # inorder (Node ord leaf (drop 1 (keys s)) (drop 1 (vals s)) (drop 1 (children s)))"
proof -
  obtain k ks where k: "keys s = k # ks" using assms(1) by (cases "keys s") auto
  obtain v vs where v: "vals s = v # vs" using assms(1,2) by (cases "vals s") auto
  show ?thesis
  proof (cases "children s")
    case Nil
    then show ?thesis using k v by (simp add: inorder_sel [of s])
  next
    case (Cons c cs)
    then show ?thesis using k v by (simp add: inorder_sel [of s])
  qed
qed

lemma inorder_snoc:
  assumes "length (vals c) = n_keys c"
    and "children c = [] \<and> xs = [] \<or> length (children c) = Suc (n_keys c)"
  shows "inorder (Node ord leaf (keys c @ [k]) (vals c @ [v]) (children c @ xs))
         = inorder c @ (k, v) # interleave (map inorder xs) []"
proof -
  have "interleave (map inorder (children c) @ map inorder xs) (zip (keys c) (vals c) @ (k, v) # [])
        = interleave (map inorder (children c)) (zip (keys c) (vals c))
          @ (k, v) # interleave (map inorder xs) []"
    by (rule interleave_append_Suc) (use assms in auto)
  then show ?thesis using assms(1) by (simp add: inorder_sel [of c])
qed

lemma inorder_cons:
  assumes "children c = [] \<and> xs = [] \<or> length xs = 1"
  shows "inorder (Node ord leaf (k # keys c) (v # vals c) (xs @ children c))
         = interleave (map inorder xs) [] @ (k, v) # inorder c"
proof (cases xs)
  case Nil
  then show ?thesis using assms by (simp add: inorder_sel [of c])
next
  case (Cons x ys)
  then show ?thesis using assms by (simp add: inorder_sel [of c])
qed

lemma inorder_unsnoc:
  assumes "0 < n_keys s" "length (vals s) = n_keys s"
    and "children s = [] \<or> length (children s) = Suc (n_keys s)"
  shows "inorder s
         = inorder (Node ord leaf (take (n_keys s - 1) (keys s)) (take (n_keys s - 1) (vals s))
                      (take (n_keys s) (children s)))
           @ (keys s ! (n_keys s - 1), vals s ! (n_keys s - 1))
             # interleave (map inorder (drop (n_keys s) (children s))) []"
proof -
  let ?m = "n_keys s - 1"
  let ?Z = "zip (keys s) (vals s)"
  have Z: "?Z = take ?m ?Z @ ?Z ! ?m # []"
    by (rule trans [OF id_take_nth_drop [of ?m ?Z]]) (use assms(1,2) in simp_all)
  have cs: "map inorder (children s)
            = map inorder (take (n_keys s) (children s)) @ map inorder (drop (n_keys s) (children s))"
    by (simp flip: map_append)
  have "inorder s = interleave (map inorder (children s)) ?Z" by (rule inorder_sel)
  also have "\<dots> = interleave (map inorder (take (n_keys s) (children s)) @ map inorder (drop (n_keys s) (children s)))
          (take ?m ?Z @ ?Z ! ?m # [])"
    by (rule arg_cong2 [where f = interleave, OF cs Z])
  also have "\<dots> = interleave (map inorder (take (n_keys s) (children s))) (take ?m ?Z)
          @ ?Z ! ?m # interleave (map inorder (drop (n_keys s) (children s))) []"
    by (rule interleave_append_Suc) (use assms in auto)
  finally have "inorder s = interleave (map inorder (take (n_keys s) (children s))) (take ?m ?Z)
          @ ?Z ! ?m # interleave (map inorder (drop (n_keys s) (children s))) []" .
  then show ?thesis using assms(1,2) by (simp add: take_zip)
qed

lemma subtree_ok_children:
  "subtree_ok t d n \<Longrightarrow> \<forall>x \<in> set (children n). subtree_ok t (d - 1) x"
  by (cases n) (auto simp: subtree_ok_Node split: if_splits)

lemma node_ok_children:
  "node_ok t d n \<Longrightarrow> \<forall>x \<in> set (children n). subtree_ok t (d - 1) x"
  by (cases n) (auto simp: node_ok_Node split: if_splits)

lemma subtree_okI:
  assumes "order c = t" "length (vals c) = n_keys c" "t - 1 \<le> n_keys c" "n_keys c \<le> 2 * t - 1"
    and "is_leaf c \<Longrightarrow> children c = [] \<and> d = 0"
    and "\<not> is_leaf c \<Longrightarrow> length (children c) = Suc (n_keys c) \<and> 0 < d"
    and "\<forall>x \<in> set (children c). subtree_ok t (d - 1) x"
  shows "subtree_ok t d c"
  using assms by (simp add: subtree_ok_sel [of t d c])

lemma node_okI:
  assumes "order c = t" "length (vals c) = n_keys c" "n_keys c \<le> 2 * t - 1"
    and "is_leaf c \<Longrightarrow> children c = [] \<and> d = 0"
    and "\<not> is_leaf c \<Longrightarrow> length (children c) = Suc (n_keys c) \<and> 0 < d"
    and "\<forall>x \<in> set (children c). subtree_ok t (d - 1) x"
  shows "node_ok t d c"
  using assms by (simp add: node_ok_sel [of t d c])

lemma set_update2:
  "x \<in> set (xs[i := a, j := b]) \<Longrightarrow> x \<in> set xs \<or> x = a \<or> x = b"
  using set_update2_cases [of x xs i a j b] by blast

lemma borrow_from_next_node:
  assumes ok: "node_ok t d n" and nl: "\<not> is_leaf n" and i: "i < n_keys n" and t: "0 < t"
    and c: "n_keys (children n ! i) = t - 1" and s: "t \<le> n_keys (children n ! Suc i)"
  shows "\<exists>n1 k'. borrow_from_next n i = Inr n1 \<and> node_ok t d n1 \<and> \<not> is_leaf n1
            \<and> inorder n1 = inorder n
            \<and> keys n1 = (keys n)[i := k'] \<and> k' \<in> fst ` set (inorder (children n ! Suc i))
            \<and> n_keys (children n1 ! i) = t"
proof -
  note sh = node_ok_shape [OF ok]
  have len: "length (children n) = Suc (n_keys n)" using sh nl by simp
  define ch where "ch = children n ! i"
  define sb where "sb = children n ! Suc i"
  have cok: "subtree_ok t (d - 1) ch" unfolding ch_def
    by (rule node_ok_child [OF ok nl]) (use len i in simp)
  have sok: "subtree_ok t (d - 1) sb" unfolding sb_def
    by (rule node_ok_child [OF ok nl]) (use len i in simp)
  note csh = subtree_ok_shape [OF cok] and ssh = subtree_ok_shape [OF sok]
  have ck: "n_keys ch = t - 1" and sk: "t \<le> n_keys sb" using c s by (simp_all add: ch_def sb_def)
  have sk0: "0 < n_keys sb" using sk t by (cases "keys sb") auto
  have lf: "is_leaf sb = is_leaf ch" using csh(6) ssh(6) by simp
  define c1 where "c1 = Node t (is_leaf ch) (keys ch @ [keys n ! i]) (vals ch @ [vals n ! i])
                          (children ch @ take 1 (children sb))"
  define s1 where "s1 = Node t (is_leaf ch) (drop 1 (keys sb)) (drop 1 (vals sb))
                          (drop 1 (children sb))"
  define n1 where "n1 = Node t False ((keys n)[i := keys sb ! 0]) ((vals n)[i := vals sb ! 0])
                          ((children n)[i := c1, Suc i := s1])"
  have g: "\<not> (n_keys sb = 0 \<or> length (vals sb) = 0 \<or> (\<not> is_leaf ch \<and> children sb = []))"
    using sk0 ssh(3,7) lf by auto
  have r: "borrow_from_next n i = Inr n1"
  proof (cases "is_leaf ch")
    case True
    then have e: "children ch = []" "children sb = []" using csh(8) ssh(8) lf by simp_all
    show ?thesis
      using i len sh(2,3) nl g True
      by (simp add: borrow_from_next_def Let_def ch_def [symmetric] sb_def [symmetric]
          e csh(2) ssh(2) lf n1_def c1_def s1_def)
  next
    case False
    then have l: "length (children ch) = Suc (n_keys ch)" "length (children sb) = Suc (n_keys sb)"
      using csh(7) ssh(7) lf by simp_all
    then have tk: "take (Suc 0) (children sb) = [children sb ! 0]"
      by (cases "children sb") simp_all
    show ?thesis
      using i len sh(2,3) nl g False
      by (simp add: borrow_from_next_def Let_def ch_def [symmetric] sb_def [symmetric]
          l tk csh(2) ssh(2) lf n1_def c1_def s1_def)
  qed
  have sbc: "\<forall>x \<in> set (children sb). subtree_ok t (d - 1 - 1) x"
    by (rule subtree_ok_children [OF sok])
  have chc: "\<forall>x \<in> set (children ch). subtree_ok t (d - 1 - 1) x"
    by (rule subtree_ok_children [OF cok])
  have kids: "\<forall>x \<in> set (children n). subtree_ok t (d - 1) x"
    by (rule node_ok_children [OF ok])
  have c1all: "\<forall>x \<in> set (children c1). subtree_ok t (d - 1 - 1) x"
    using chc sbc by (auto simp: c1_def dest: in_set_takeD)
  have s1all: "\<forall>x \<in> set (children s1). subtree_ok t (d - 1 - 1) x"
    using sbc by (auto simp: s1_def dest: in_set_dropD)
  have c1ok: "subtree_ok t (d - 1) c1"
  proof (rule subtree_okI)
    show "\<forall>x \<in> set (children c1). subtree_ok t (d - 1 - 1) x" by (rule c1all)
    show "is_leaf c1 \<Longrightarrow> children c1 = [] \<and> d - 1 = 0"
      using csh(6,8) ssh(8) lf by (simp add: c1_def)
    show "\<not> is_leaf c1 \<Longrightarrow> length (children c1) = Suc (n_keys c1) \<and> 0 < d - 1"
      using csh(6,7) ssh(7) lf by (simp add: c1_def)
  qed (use csh(3) ck t in \<open>simp_all add: c1_def\<close>)
  have s1ok: "subtree_ok t (d - 1) s1"
  proof (rule subtree_okI)
    show "\<forall>x \<in> set (children s1). subtree_ok t (d - 1 - 1) x" by (rule s1all)
    show "is_leaf s1 \<Longrightarrow> children s1 = [] \<and> d - 1 = 0"
      using csh(6) ssh(8) lf by (simp add: s1_def)
    show "\<not> is_leaf s1 \<Longrightarrow> length (children s1) = Suc (n_keys s1) \<and> 0 < d - 1"
      using csh(6) ssh(7) lf sk0 by (simp add: s1_def)
  qed (use ssh(3,4) sk t in \<open>simp_all add: s1_def\<close>)
  have all: "\<forall>x \<in> set (children n1). subtree_ok t (d - 1) x"
    using kids c1ok s1ok by (auto simp: n1_def dest!: set_update2)
  have n1ok: "node_ok t d n1"
    by (rule node_okI [OF _ _ _ _ _ all]) (use sh(2-6) nl len in \<open>simp_all add: n1_def\<close>)
  have sh1: "length (children n1) = Suc (n_keys n1)" "length (vals n1) = n_keys n1" "i < n_keys n1"
    using i len sh by (simp_all add: n1_def)
  have z: "zip (keys n1) (vals n1) = (zip (keys n) (vals n))[i := (keys sb ! 0, vals sb ! 0)]"
    by (simp add: n1_def zip_update)
  have cs1: "children n1 = (children n)[i := c1, Suc i := s1]" by (simp add: n1_def)
  have b1: "before n1 i = before n i"
    by (rule before_cong) (simp_all add: z cs1)
  have b2: "behind n1 (Suc i) = behind n (Suc i)"
    by (rule behind_cong) (simp_all add: z cs1 drop_update_cancel)
  have ic: "inorder c1 = inorder ch @ (keys n ! i, vals n ! i)
                           # interleave (map inorder (take 1 (children sb))) []"
    unfolding c1_def by (rule inorder_snoc) (use csh ssh lf in auto)
  have isb: "inorder sb = interleave (map inorder (take 1 (children sb))) []
                         @ (keys sb ! 0, vals sb ! 0) # inorder s1"
    unfolding s1_def by (rule inorder_uncons) (use sk0 ssh in auto)
  have el: "children n1 ! i = c1" "children n1 ! Suc i = s1" "keys n1 ! i = keys sb ! 0"
    "vals n1 ! i = vals sb ! 0"
    using i len sh(3) by (simp_all add: n1_def)
  have "inorder n1 = inorder n"
    unfolding inorder_segment [OF sh1] inorder_segment [OF len sh(3) i] b1 b2 el ic
    by (simp add: ch_def [symmetric] sb_def [symmetric] isb)
  moreover have "keys sb ! 0 \<in> fst ` set (inorder sb)"
    unfolding isb by force
  moreover have "n_keys (children n1 ! i) = t" using el ck t by (simp add: c1_def)
  ultimately show ?thesis using r n1ok by (auto simp: n1_def sb_def)
qed

lemma borrow_from_prev_node:
  assumes ok: "node_ok t d n" and nl: "\<not> is_leaf n" and i: "i < n_keys n" and t: "0 < t"
    and c: "n_keys (children n ! Suc i) = t - 1" and s: "t \<le> n_keys (children n ! i)"
  shows "\<exists>n1 k'. borrow_from_prev n (Suc i) = Inr n1 \<and> node_ok t d n1 \<and> \<not> is_leaf n1
            \<and> inorder n1 = inorder n
            \<and> keys n1 = (keys n)[i := k'] \<and> k' \<in> fst ` set (inorder (children n ! i))
            \<and> n_keys (children n1 ! Suc i) = t"
proof -
  note sh = node_ok_shape [OF ok]
  have len: "length (children n) = Suc (n_keys n)" using sh nl by simp
  define ch where "ch = children n ! Suc i"
  define sb where "sb = children n ! i"
  have cok: "subtree_ok t (d - 1) ch" unfolding ch_def
    by (rule node_ok_child [OF ok nl]) (use len i in simp)
  have sok: "subtree_ok t (d - 1) sb" unfolding sb_def
    by (rule node_ok_child [OF ok nl]) (use len i in simp)
  note csh = subtree_ok_shape [OF cok] and ssh = subtree_ok_shape [OF sok]
  have ck: "n_keys ch = t - 1" and sk: "t \<le> n_keys sb" using c s by (simp_all add: ch_def sb_def)
  have sk0: "0 < n_keys sb" using sk t by (cases "keys sb") auto
  have lf: "is_leaf sb = is_leaf ch" using csh(6) ssh(6) by simp
  define sn where "sn = n_keys sb"
  define c1 where "c1 = Node t (is_leaf ch) (keys n ! i # keys ch) (vals n ! i # vals ch)
                          (drop sn (children sb) @ children ch)"
  define s1 where "s1 = Node t (is_leaf ch) (take (sn - 1) (keys sb)) (take (sn - 1) (vals sb))
                          (take sn (children sb))"
  define n1 where "n1 = Node t False ((keys n)[i := keys sb ! (sn - 1)])
                          ((vals n)[i := vals sb ! (sn - 1)])
                          ((children n)[i := s1, Suc i := c1])"
  have kne: "keys sb \<noteq> []" using sk0 by auto
  have g: "\<not> (sn = 0 \<or> length (vals sb) < sn \<or> (\<not> is_leaf ch \<and> length (children sb) \<le> sn))"
    using sk0 ssh(3,7) lf by (auto simp: sn_def)
  have r: "borrow_from_prev n (Suc i) = Inr n1"
  proof (cases "is_leaf ch")
    case True
    then have e: "children ch = []" "children sb = []" using csh(8) ssh(8) lf by simp_all
    show ?thesis
      using i len sh(2,3) nl g True
      by (simp add: borrow_from_prev_def Let_def ch_def [symmetric] sb_def [symmetric]
          sn_def [symmetric] e kne csh(2) ssh(2) lf n1_def c1_def s1_def)
  next
    case False
    then have l: "length (children ch) = Suc (n_keys ch)" "length (children sb) = Suc sn"
      using csh(7) ssh(7) lf by (simp_all add: sn_def)
    then have dr: "drop sn (children sb) = [children sb ! sn]"
      by (metis Cons_nth_drop_Suc drop_all lessI order_refl)
    show ?thesis
      using i len sh(2,3) nl g False
      by (simp add: borrow_from_prev_def Let_def ch_def [symmetric] sb_def [symmetric]
          sn_def [symmetric] l dr kne csh(2) ssh(2) lf n1_def c1_def s1_def)
  qed
  have sbc: "\<forall>x \<in> set (children sb). subtree_ok t (d - 1 - 1) x"
    by (rule subtree_ok_children [OF sok])
  have chc: "\<forall>x \<in> set (children ch). subtree_ok t (d - 1 - 1) x"
    by (rule subtree_ok_children [OF cok])
  have kids: "\<forall>x \<in> set (children n). subtree_ok t (d - 1) x"
    by (rule node_ok_children [OF ok])
  have c1all: "\<forall>x \<in> set (children c1). subtree_ok t (d - 1 - 1) x"
    using chc sbc by (auto simp: c1_def dest: in_set_dropD)
  have s1all: "\<forall>x \<in> set (children s1). subtree_ok t (d - 1 - 1) x"
    using sbc by (auto simp: s1_def dest: in_set_takeD)
  have c1ok: "subtree_ok t (d - 1) c1"
  proof (rule subtree_okI)
    show "\<forall>x \<in> set (children c1). subtree_ok t (d - 1 - 1) x" by (rule c1all)
    show "is_leaf c1 \<Longrightarrow> children c1 = [] \<and> d - 1 = 0"
      using csh(6,8) ssh(8) lf by (simp add: c1_def)
    show "\<not> is_leaf c1 \<Longrightarrow> length (children c1) = Suc (n_keys c1) \<and> 0 < d - 1"
      using csh(6,7) ssh(7) lf by (simp add: c1_def sn_def)
  qed (use csh(3) ck t in \<open>simp_all add: c1_def\<close>)
  have s1ok: "subtree_ok t (d - 1) s1"
  proof (rule subtree_okI)
    show "\<forall>x \<in> set (children s1). subtree_ok t (d - 1 - 1) x" by (rule s1all)
    show "is_leaf s1 \<Longrightarrow> children s1 = [] \<and> d - 1 = 0"
      using csh(6) ssh(8) lf by (simp add: s1_def)
    show "\<not> is_leaf s1 \<Longrightarrow> length (children s1) = Suc (n_keys s1) \<and> 0 < d - 1"
      using csh(6) ssh(7) lf sk0 by (simp add: s1_def sn_def)
  qed (use ssh(3,4) sk t in \<open>simp_all add: s1_def sn_def\<close>)
  have all: "\<forall>x \<in> set (children n1). subtree_ok t (d - 1) x"
    using kids c1ok s1ok by (auto simp: n1_def dest!: set_update2)
  have n1ok: "node_ok t d n1"
    by (rule node_okI [OF _ _ _ _ _ all]) (use sh(2-6) nl len in \<open>simp_all add: n1_def\<close>)
  have sh1: "length (children n1) = Suc (n_keys n1)" "length (vals n1) = n_keys n1" "i < n_keys n1"
    using i len sh by (simp_all add: n1_def)
  have z: "zip (keys n1) (vals n1) = (zip (keys n) (vals n))[i := (keys sb ! (sn - 1), vals sb ! (sn - 1))]"
    by (simp add: n1_def zip_update)
  have cs1: "children n1 = (children n)[i := s1, Suc i := c1]" by (simp add: n1_def)
  have b1: "before n1 i = before n i"
    by (rule before_cong) (simp_all add: z cs1)
  have b2: "behind n1 (Suc i) = behind n (Suc i)"
    by (rule behind_cong) (simp_all add: z cs1 drop_update_cancel)
  have ic: "inorder c1 = interleave (map inorder (drop sn (children sb))) []
                         @ (keys n ! i, vals n ! i) # inorder ch"
    unfolding c1_def
  proof (rule inorder_cons)
    show "children ch = [] \<and> drop sn (children sb) = [] \<or> length (drop sn (children sb)) = 1"
      using csh(7,8) ssh(7,8) lf by (cases "is_leaf ch") (auto simp: sn_def)
  qed
  have isb: "inorder sb = inorder s1 @ (keys sb ! (sn - 1), vals sb ! (sn - 1))
                           # interleave (map inorder (drop sn (children sb))) []"
    unfolding s1_def sn_def by (rule inorder_unsnoc) (use sk0 ssh in auto)
  have el: "children n1 ! i = s1" "children n1 ! Suc i = c1" "keys n1 ! i = keys sb ! (sn - 1)"
    "vals n1 ! i = vals sb ! (sn - 1)"
    using i len sh(3) by (simp_all add: n1_def)
  have "inorder n1 = inorder n"
    unfolding inorder_segment [OF sh1] inorder_segment [OF len sh(3) i] b1 b2 el ic
    by (simp add: ch_def [symmetric] sb_def [symmetric] isb)
  moreover have "keys sb ! (sn - 1) \<in> fst ` set (inorder sb)"
    unfolding isb by force
  moreover have "n_keys (children n1 ! Suc i) = t" using el ck t by (simp add: c1_def)
  ultimately show ?thesis using r n1ok by (auto simp: n1_def sb_def)
qed


section \<open>Filling a child before the descent\<close>

lemma fill_child_node:
  assumes ok: "node_ok t d n" and nl: "\<not> is_leaf n" and t: "0 < t"
    and srt: "sorted1 (inorder n)" and nk: "0 < n_keys n" and idx: "idx \<le> n_keys n"
    and c: "n_keys (children n ! idx) < t"
    and lo: "\<forall>x \<in> set (take idx (keys n)). x < key"
    and hi: "\<forall>x \<in> set (drop idx (keys n)). key < x"
  shows "\<exists>n1 j. fill_child n idx = Inr n1
            \<and> j = (if idx = n_keys n \<and> n_keys n1 < idx then idx - 1 else idx)
            \<and> node_ok t d n1 \<and> \<not> is_leaf n1 \<and> inorder n1 = inorder n
            \<and> j \<le> n_keys n1 \<and> t \<le> n_keys (children n1 ! j)
            \<and> (\<forall>x \<in> set (take j (keys n1)). x < key)
            \<and> (\<forall>x \<in> set (drop j (keys n1)). key < x)
            \<and> n_keys n - 1 \<le> n_keys n1"
proof -
  note sh = node_ok_shape [OF ok]
  have len: "length (children n) = Suc (n_keys n)" using sh nl by simp
  have kid: "subtree_ok t (d - 1) (children n ! i)" if "i \<le> n_keys n" for i
    by (rule node_ok_child [OF ok nl]) (use that len in simp)
  have low: "t - 1 \<le> n_keys (children n ! i)" if "i \<le> n_keys n" for i
    using subtree_ok_shape(5) [OF kid [OF that]] .
  have ck: "n_keys (children n ! idx) = t - 1" using low [OF idx] c by simp
  note sb = segment_bounds [OF len sh(3) _ srt]
  consider
      (prev) "0 < idx" "t \<le> n_keys (children n ! (idx - 1))"
    | (nxt) "\<not> (0 < idx \<and> t \<le> n_keys (children n ! (idx - 1)))" "idx < n_keys n"
        "t \<le> n_keys (children n ! Suc idx)"
    | (merge) "\<not> (0 < idx \<and> t \<le> n_keys (children n ! (idx - 1)))" "idx < n_keys n"
        "\<not> t \<le> n_keys (children n ! Suc idx)"
    | (last) "\<not> (0 < idx \<and> t \<le> n_keys (children n ! (idx - 1)))" "idx = n_keys n"
    using idx by linarith
  then show ?thesis
  proof cases
    case prev
    define i where "i = idx - 1"
    have i: "i < n_keys n" "idx = Suc i" using prev(1) idx by (simp_all add: i_def)
    have pk: "t \<le> n_keys (children n ! i)" using prev(2) by (simp add: i_def)
    obtain n1 k' where n1: "borrow_from_prev n (Suc i) = Inr n1" "node_ok t d n1" "\<not> is_leaf n1"
        "inorder n1 = inorder n" "keys n1 = (keys n)[i := k']"
        "k' \<in> fst ` set (inorder (children n ! i))" "n_keys (children n1 ! Suc i) = t"
      using borrow_from_prev_node [OF ok nl i(1) t _ pk] ck i(2) by auto
    have f: "fill_child n idx = Inr n1"
      using prev len idx n1(1) [folded i(2)] by (simp add: fill_child_def Let_def sh(2))
    have "k' < keys n ! i" using sb(1) [OF i(1)] n1(6) by auto
    moreover have "keys n ! i < key" using lo i by (simp add: take_Suc_conv_app_nth)
    ultimately have k': "k' < key" by simp
    have "set (take idx (keys n1)) \<subseteq> insert k' (set (take idx (keys n)))"
      unfolding n1(5) take_update_swap by (rule set_update_subset_insert)
    then have lo1: "\<forall>x \<in> set (take idx (keys n1)). x < key" using lo k' by auto
    have hi1: "\<forall>x \<in> set (drop idx (keys n1)). key < x"
      using hi i by (simp add: n1(5) drop_update_cancel)
    have nk1: "n_keys n1 = n_keys n" by (simp add: n1(5))
    show ?thesis
      using f n1(2-4,7) lo1 hi1 nk1 idx i by auto
  next
    case nxt
    obtain n1 k' where n1: "borrow_from_next n idx = Inr n1" "node_ok t d n1" "\<not> is_leaf n1"
        "inorder n1 = inorder n" "keys n1 = (keys n)[idx := k']"
        "k' \<in> fst ` set (inorder (children n ! Suc idx))" "n_keys (children n1 ! idx) = t"
      using borrow_from_next_node [OF ok nl nxt(2) t ck nxt(3)] by auto
    have f: "fill_child n idx = Inr n1"
      using nxt len n1(1) by (auto simp: fill_child_def Let_def sh(2))
    have "keys n ! idx < k'" using sb(2) [OF nxt(2)] n1(6) by auto
    moreover have "key < keys n ! idx" using hi nxt(2) by (simp add: Cons_nth_drop_Suc [symmetric])
    ultimately have k': "key < k'" by simp
    have "set (drop idx (keys n1)) \<subseteq> insert k' (set (drop idx (keys n)))"
      unfolding n1(5) drop_update_swap [OF le_refl] by (rule set_update_subset_insert)
    then have hi1: "\<forall>x \<in> set (drop idx (keys n1)). key < x" using hi k' by auto
    have lo1: "\<forall>x \<in> set (take idx (keys n1)). x < key"
      using lo by (simp add: n1(5))
    have nk1: "n_keys n1 = n_keys n" by (simp add: n1(5))
    show ?thesis
      using f n1(2-4,7) lo1 hi1 nk1 nxt(2) by auto
  next
    case merge
    have sk: "n_keys (children n ! Suc idx) = t - 1"
      using low [of "Suc idx"] merge(2,3) by simp
    obtain n1 where n1: "merge_children n idx = Inr n1" "node_ok t d n1" "\<not> is_leaf n1"
        "inorder n1 = inorder n" "keys n1 = take idx (keys n) @ drop (Suc idx) (keys n)"
        "n_keys (children n1 ! idx) = 2 * t - 1"
      using merge_children_node [OF ok nl merge(2) t ck sk] by auto
    have f: "fill_child n idx = Inr n1"
      using merge len n1(1) by (auto simp: fill_child_def Let_def sh(2))
    have tk: "take idx (keys n1) = take idx (keys n)" "drop idx (keys n1) = drop (Suc idx) (keys n)"
      using merge(2) by (simp_all add: n1(5))
    have hi1: "\<forall>x \<in> set (drop idx (keys n1)). key < x"
      unfolding tk using hi set_drop_subset_set_drop [of idx "Suc idx" "keys n"] by auto
    have nk1: "n_keys n1 = n_keys n - 1" using merge(2) by (simp add: n1(5))
    show ?thesis
      using f n1(2-4,6) lo hi1 nk1 merge(2) t unfolding tk(1) [symmetric] by auto
  next
    case last
    define i where "i = idx - 1"
    have i: "i < n_keys n" "idx = Suc i" using last(2) nk by (simp_all add: i_def)
    have "\<not> t \<le> n_keys (children n ! i)" using last nk unfolding i_def by simp
    then have pk: "n_keys (children n ! i) = t - 1"
      using low [of i] i(1) by simp
    have ck': "n_keys (children n ! Suc i) = t - 1" using ck i by simp
    obtain n1 where n1: "merge_children n i = Inr n1" "node_ok t d n1" "\<not> is_leaf n1"
        "inorder n1 = inorder n" "keys n1 = take i (keys n) @ drop (Suc i) (keys n)"
        "n_keys (children n1 ! i) = 2 * t - 1"
      using merge_children_node [OF ok nl i(1) t pk ck'] by auto
    have f: "fill_child n idx = Inr n1"
      using last len n1(1) [unfolded i_def] nk by (auto simp: fill_child_def Let_def sh(2))
    have k1: "keys n1 = take i (keys n)" using i last(2) by (simp add: n1(5))
    have lo1: "\<forall>x \<in> set (take i (keys n1)). x < key"
      using lo i set_take_subset_set_take [of i "Suc i" "keys n"] by (auto simp: k1)
    have nk1: "n_keys n1 = i" using i by (simp add: k1)
    have j: "(if idx = n_keys n \<and> n_keys n1 < idx then idx - 1 else idx) = i"
      using last(2) nk1 i by simp
    have ni: "n_keys n = Suc i" using i(2) last(2) by simp
    have "2 * t - 1 \<ge> t" using t by simp
    then have "fill_child n idx = Inr n1
            \<and> i = (if idx = n_keys n \<and> n_keys n1 < idx then idx - 1 else idx)
            \<and> node_ok t d n1 \<and> \<not> is_leaf n1 \<and> inorder n1 = inorder n
            \<and> i \<le> n_keys n1 \<and> t \<le> n_keys (children n1 ! i)
            \<and> (\<forall>x \<in> set (take i (keys n1)). x < key)
            \<and> (\<forall>x \<in> set (drop i (keys n1)). key < x)
            \<and> n_keys n - 1 \<le> n_keys n1"
      unfolding j using f n1(2-4,6) lo1 nk1 ni by (simp add: k1)
    then show ?thesis by blast
  qed
qed

section \<open>The neighbours of a key of an internal node\<close>

lemma rightmost_leaf_last:
  assumes t: "2 \<le> t"
  shows "subtree_ok t d c \<Longrightarrow>
         \<exists>l. rightmost_leaf c = Inr l \<and> 0 < n_keys l \<and> length (vals l) = n_keys l
              \<and> inorder c \<noteq> []
              \<and> last (inorder c) = (keys l ! (n_keys l - 1), vals l ! (n_keys l - 1))"
proof (induction d arbitrary: c)
  case 0
  note sh = subtree_ok_shape [OF 0]
  have leaf: "is_leaf c" using sh(6) by simp
  have n: "0 < n_keys c" using sh(5) t by linarith
  have io: "inorder c = zip (keys c) (vals c)" by (rule well_formed_leaf_inorder [OF sh(1) leaf])
  have ne: "zip (keys c) (vals c) \<noteq> []" using n sh(3) by (cases "keys c"; cases "vals c") auto
  have "last (zip (keys c) (vals c)) = (keys c ! (n_keys c - 1), vals c ! (n_keys c - 1))"
    using n sh(3) by (simp add: last_conv_nth [OF ne])
  then show ?case using leaf n sh(3) io ne by (subst rightmost_leaf.simps) simp
next
  case (Suc d)
  note sh = subtree_ok_shape [OF Suc.prems]
  have nl: "\<not> is_leaf c" using sh(6) by simp
  have len: "length (children c) = Suc (n_keys c)" using sh(7) nl by simp
  have "subtree_ok t d (children c ! n_keys c)"
    using subtree_ok_child [OF Suc.prems nl, of "n_keys c"] len by simp
  from Suc.IH [OF this] obtain l where l: "rightmost_leaf (children c ! n_keys c) = Inr l"
      "0 < n_keys l" "length (vals l) = n_keys l" "inorder (children c ! n_keys c) \<noteq> []"
      "last (inorder (children c ! n_keys c)) = (keys l ! (n_keys l - 1), vals l ! (n_keys l - 1))"
    by blast
  have io: "inorder c = before c (n_keys c) @ inorder (children c ! n_keys c)"
    using inorder_shape [OF len sh(3), of "n_keys c"] behind_last [OF sh(3)] by simp
  have "rightmost_leaf c = Inr l" using nl len l(1) by (subst rightmost_leaf.simps) simp
  then show ?case using l io by simp
qed

lemma leftmost_leaf_hd:
  assumes t: "2 \<le> t"
  shows "subtree_ok t d c \<Longrightarrow>
         \<exists>l. leftmost_leaf c = Inr l \<and> 0 < n_keys l \<and> length (vals l) = n_keys l
              \<and> inorder c \<noteq> [] \<and> hd (inorder c) = (keys l ! 0, vals l ! 0)"
proof (induction d arbitrary: c)
  case 0
  note sh = subtree_ok_shape [OF 0]
  have leaf: "is_leaf c" using sh(6) by simp
  have n: "0 < n_keys c" using sh(5) t by linarith
  have io: "inorder c = zip (keys c) (vals c)" by (rule well_formed_leaf_inorder [OF sh(1) leaf])
  have ne: "zip (keys c) (vals c) \<noteq> []" using n sh(3) by (cases "keys c"; cases "vals c") auto
  have "hd (zip (keys c) (vals c)) = (keys c ! 0, vals c ! 0)"
    using n sh(3) by (simp add: hd_conv_nth [OF ne])
  then show ?case using leaf n sh(3) io ne by (subst leftmost_leaf.simps) simp
next
  case (Suc d)
  note sh = subtree_ok_shape [OF Suc.prems]
  have nl: "\<not> is_leaf c" using sh(6) by simp
  have len: "length (children c) = Suc (n_keys c)" using sh(7) nl by simp
  have "subtree_ok t d (children c ! 0)"
    using subtree_ok_child [OF Suc.prems nl, of 0] len by simp
  from Suc.IH [OF this] obtain l where l: "leftmost_leaf (children c ! 0) = Inr l"
      "0 < n_keys l" "length (vals l) = n_keys l" "inorder (children c ! 0) \<noteq> []"
      "hd (inorder (children c ! 0)) = (keys l ! 0, vals l ! 0)"
    by blast
  have io: "inorder c = inorder (children c ! 0) @ behind c 0"
    using inorder_shape [OF len sh(3), of 0] by simp
  have "leftmost_leaf c = Inr l" using nl len l(1) by (subst leftmost_leaf.simps) simp
  then show ?case using l io by simp
qed

lemma get_predecessor_last:
  assumes "2 \<le> t" "node_ok t d n" "\<not> is_leaf n" "idx \<le> n_keys n"
  shows "get_predecessor n idx = Inr (last (inorder (children n ! idx)))"
    and "inorder (children n ! idx) \<noteq> []"
proof -
  have len: "length (children n) = Suc (n_keys n)" using node_ok_shape(5) [OF assms(2,3)] .
  have "subtree_ok t (d - 1) (children n ! idx)"
    by (rule node_ok_child [OF assms(2,3)]) (use len assms(4) in simp)
  from rightmost_leaf_last [OF assms(1) this] obtain l where
    l: "rightmost_leaf (children n ! idx) = Inr l" "0 < n_keys l" "length (vals l) = n_keys l"
      "inorder (children n ! idx) \<noteq> []"
      "last (inorder (children n ! idx)) = (keys l ! (n_keys l - 1), vals l ! (n_keys l - 1))"
    by blast
  show "get_predecessor n idx = Inr (last (inorder (children n ! idx)))"
    using l len assms(4) by (simp add: get_predecessor_def)
  show "inorder (children n ! idx) \<noteq> []" by (rule l(4))
qed

lemma get_successor_hd:
  assumes "2 \<le> t" "node_ok t d n" "\<not> is_leaf n" "idx < n_keys n"
  shows "get_successor n idx = Inr (hd (inorder (children n ! Suc idx)))"
    and "inorder (children n ! Suc idx) \<noteq> []"
proof -
  have len: "length (children n) = Suc (n_keys n)" using node_ok_shape(5) [OF assms(2,3)] .
  have "subtree_ok t (d - 1) (children n ! Suc idx)"
    by (rule node_ok_child [OF assms(2,3)]) (use len assms(4) in simp)
  from leftmost_leaf_hd [OF assms(1) this] obtain l where
    l: "leftmost_leaf (children n ! Suc idx) = Inr l" "0 < n_keys l" "length (vals l) = n_keys l"
      "inorder (children n ! Suc idx) \<noteq> []"
      "hd (inorder (children n ! Suc idx)) = (keys l ! 0, vals l ! 0)"
    by blast
  show "get_successor n idx = Inr (hd (inorder (children n ! Suc idx)))"
    using l len assms(4) by (auto simp: get_successor_def)
  show "inorder (children n ! Suc idx) \<noteq> []" by (rule l(4))
qed

section \<open>Removing from a sorted list of pairs\<close>

lemma del_list_at:
  assumes "sorted1 (A @ (k, v) # B)"
  shows "del_list k (A @ (k, v) # B) = A @ B"
proof -
  have "\<forall>x \<in> set A. fst x < k" "\<forall>x \<in> set B. k < fst x"
    using assms by (auto simp: sorted_wrt_append)
  then have "del_list k (A @ [(k, v)] @ B) = A @ del_list k [(k, v)] @ B"
    by (rule del_list_mid)
  then show ?thesis by simp
qed

lemma del_list_last:
  assumes "sorted1 xs" "xs \<noteq> []"
  shows "del_list (fst (last xs)) xs = butlast xs"
proof -
  have xs: "xs = butlast xs @ (fst (last xs), snd (last xs)) # []" using assms(2) by simp
  have "del_list (fst (last xs)) (butlast xs @ (fst (last xs), snd (last xs)) # []) = butlast xs @ []"
    by (rule del_list_at) (use assms(1) xs in simp)
  then show ?thesis using xs by simp
qed

lemma del_list_hd:
  assumes "xs \<noteq> []"
  shows "del_list (fst (hd xs)) xs = tl xs"
  using assms by (cases xs) auto


section \<open>Deletion from a subtree\<close>

lemma descend_delete:
  assumes wf: "well_formed t n" and nl: "\<not> is_leaf n" and srt: "sorted1 (inorder n)"
    and j: "j \<le> n_keys n"
    and lo: "\<forall>x \<in> set (take j (keys n)). x < key"
    and hi: "\<forall>x \<in> set (drop j (keys n)). key < x"
    and c: "inorder c = del_list key (inorder (children n ! j))"
  shows "inorder (Node (order n) (is_leaf n) (keys n) (vals n) ((children n)[j := c]))
         = del_list key (inorder n)"
proof -
  note sh = well_formed_length [OF wf nl] well_formed_vals [OF wf]
  note b = descend_bounds [OF wf nl srt j lo hi]
  show ?thesis
    unfolding inorder_child_update [OF sh j] inorder_at [OF wf nl j] c
    by (rule del_list_mid [OF b, symmetric])
qed

lemma node_ok_rebuild:
  assumes "node_ok t d n" "\<not> is_leaf n" "length ks = n_keys n" "length vs = n_keys n"
    and "length cs = Suc (n_keys n)" "\<forall>x \<in> set cs. subtree_ok t (d - 1) x"
  shows "node_ok t d (Node (order n) (is_leaf n) ks vs cs)"
  by (rule node_okI) (use assms node_ok_shape [OF assms(1)] in simp_all)

lemma set_update1: "x \<in> set (xs[i := a]) \<Longrightarrow> x \<in> set xs \<or> x = a"
  using set_update_subset_insert [of xs i a] by auto

lemma node_ok_child_update:
  assumes "node_ok t d n" "\<not> is_leaf n" "subtree_ok t (d - 1) c"
    and "length ks = n_keys n" "length vs = n_keys n"
  shows "node_ok t d (Node (order n) (is_leaf n) ks vs ((children n)[j := c]))"
proof (rule node_ok_rebuild [OF assms(1,2,4,5)])
  show "length ((children n)[j := c]) = Suc (n_keys n)"
    using node_ok_shape(5) [OF assms(1,2)] by simp
  show "\<forall>x \<in> set ((children n)[j := c]). subtree_ok t (d - 1) x"
    using node_ok_children [OF assms(1)] assms(3) by (auto dest!: set_update1)
qed

lemma sorted_keys_bounds:
  assumes "sorted_wrt (<) ks" "i < length ks"
  shows "\<forall>x \<in> set (take i ks). x < ks ! i" and "\<forall>x \<in> set (drop (Suc i) ks). ks ! i < x"
proof -
  have "sorted_wrt (<) (take i ks @ ks ! i # drop (Suc i) ks)"
    using assms(1) by (simp only: id_take_nth_drop [OF assms(2), symmetric])
  then show "\<forall>x \<in> set (take i ks). x < ks ! i" "\<forall>x \<in> set (drop (Suc i) ks). ks ! i < x"
    by (auto simp: sorted_wrt_append)
qed

lemma delete_leaf:
  assumes h: "total_host h" and ok: "node_ok t d n" and leaf: "is_leaf n"
    and srt: "sorted1 (inorder n)"
  shows "\<exists>n'. delete_from_node h n key
              = ((if key \<in> fst ` set (inorder n) then Inr () else Inl KeyNotFound), n')
          \<and> inorder n' = del_list key (inorder n) \<and> node_ok t d n' \<and> n_keys n - 1 \<le> n_keys n'"
proof -
  note sh = node_ok_shape [OF ok]
  have ks: "sorted_wrt (<) (keys n)" using sh(1) srt by (rule keys_sorted)
  have io: "inorder n = zip (keys n) (vals n)" by (rule well_formed_leaf_inorder [OF sh(1) leaf])
  have ki: "fst ` set (inorder n) = set (keys n)"
    using keys_inorder_leaf [OF sh(1) leaf] by (metis list.set_map)
  define i where "i = lower (keys n) key"
  have srch: "node_search_key h n key = Inr (i, key \<in> set (keys n))"
    unfolding i_def by (rule node_search_key_sorted [OF h ks])
  have cn: "children n = []" using sh(1) leaf by (rule well_formed_leaf_children)
  have d0: "d = 0" using sh(7) leaf leaves_at_leaf by blast
  show ?thesis
  proof (cases "key \<in> set (keys n)")
    case False
    have "\<forall>x \<in> set (inorder n). fst x \<noteq> key" using False ki by force
    then have "del_list key (inorder n) = inorder n" by (rule del_list_absent)
    moreover have "delete_from_node h n key = (Inl KeyNotFound, n)"
      using srch False leaf by (subst delete_from_node.simps) simp
    ultimately show ?thesis using False ki ok by simp
  next
    case True
    have i: "i < n_keys n" "keys n ! i = key"
      using lower_found [OF ks True] by (simp_all add: i_def)
    define n' where "n' = delete_from_leaf n i"
    have r: "delete_from_node h n key = (Inr (), n')"
      using srch True leaf by (subst delete_from_node.simps) (simp add: n'_def)
    let ?Z = "zip (keys n) (vals n)"
    have iz: "i < length ?Z" using i sh(3) by simp
    have Z: "take i ?Z @ (key, vals n ! i) # drop (Suc i) ?Z = ?Z"
      using id_take_nth_drop [OF iz, symmetric] i sh(3) by simp
    have "sorted1 (take i ?Z @ (key, vals n ! i) # drop (Suc i) ?Z)"
      using srt io by (simp only: Z)
    then have "del_list key (take i ?Z @ (key, vals n ! i) # drop (Suc i) ?Z)
               = take i ?Z @ drop (Suc i) ?Z"
      by (rule del_list_at)
    then have dl: "del_list key (inorder n) = take i ?Z @ drop (Suc i) ?Z"
      by (simp only: Z io)
    have io': "inorder n' = take i ?Z @ drop (Suc i) ?Z"
      using sh(3) cn by (simp add: n'_def delete_from_leaf_def take_zip drop_zip)
    have ok': "node_ok t d n'"
      by (rule node_okI) (use sh(2,3,4) i leaf cn d0 in \<open>simp_all add: n'_def delete_from_leaf_def\<close>)
    have nk: "n_keys n - 1 \<le> n_keys n'"
      using i by (simp add: n'_def delete_from_leaf_def)
    show ?thesis using r True ki dl io' ok' nk by simp
  qed
qed

lemma delete_from_node_correct:
  fixes n :: "('k::linorder, 'v) node"
  assumes h: "total_host h" and t: "2 \<le> t"
  shows "node_ok t d n \<Longrightarrow> sorted1 (inorder n) \<Longrightarrow> is_leaf n \<or> 0 < n_keys n \<Longrightarrow>
     \<exists>n'. delete_from_node h n key
              = ((if key \<in> fst ` set (inorder n) then Inr () else Inl KeyNotFound), n')
          \<and> inorder n' = del_list key (inorder n) \<and> node_ok t d n' \<and> n_keys n - 1 \<le> n_keys n'"
proof (induction d arbitrary: n key)
  case 0
  have "is_leaf n" using node_ok_shape(7) [OF 0(1)] leaves_at_leaf by blast
  then show ?case using delete_leaf [OF h 0(1) _ 0(2)] by simp
next
  case (Suc d)
  note ok = Suc.prems(1) and srt = Suc.prems(2)
  note sh = node_ok_shape [OF ok]
  have t0: "0 < t" using t by simp
  have nl: "\<not> is_leaf n" using sh(7) leaves_at_leaf by blast
  have nk: "0 < n_keys n" using Suc.prems(3) nl by simp
  have len: "length (children n) = Suc (n_keys n)" using sh(5) nl by simp
  have ks: "sorted_wrt (<) (keys n)" using sh(1) srt by (rule keys_sorted)
  define i where "i = lower (keys n) key"
  have srch: "node_search_key h n key = Inr (i, key \<in> set (keys n))"
    unfolding i_def by (rule node_search_key_sorted [OF h ks])
  have ih: "\<exists>c'. delete_from_node h c k
                = ((if k \<in> fst ` set (inorder c) then Inr () else Inl KeyNotFound), c')
              \<and> inorder c' = del_list k (inorder c) \<and> subtree_ok t d c'"
    if c: "subtree_ok t d c" "t \<le> n_keys c" "sorted1 (inorder c)"
    for c :: "('k, 'v) node" and k
  proof -
    have "node_ok t d c" using c(1) by (simp add: subtree_ok_node_ok)
    moreover have "is_leaf c \<or> 0 < n_keys c" using c(2) t by (cases "keys c") auto
    ultimately obtain c' where c': "delete_from_node h c k
        = ((if k \<in> fst ` set (inorder c) then Inr () else Inl KeyNotFound), c')"
        "inorder c' = del_list k (inorder c)" "node_ok t d c'" "n_keys c - 1 \<le> n_keys c'"
      using Suc.IH [of c k] c(3) by blast
    have "t - 1 \<le> n_keys c'" using c'(4) c(2) by linarith
    then have "subtree_ok t d c'" using c'(3) by (simp add: subtree_ok_node_ok)
    then show ?thesis using c'(1,2) by blast
  qed
  have descend: "\<exists>n'. (case delete_from_node h (children n1 ! j) key of
                         (rc, c) \<Rightarrow> (rc, Node (order n1) (is_leaf n1) (keys n1) (vals n1)
                                           ((children n1)[j := c])))
              = ((if key \<in> fst ` set (inorder n1) then Inr () else Inl KeyNotFound), n')
          \<and> inorder n' = del_list key (inorder n1) \<and> node_ok t (Suc d) n'
          \<and> n_keys n' = n_keys n1"
    if n1: "node_ok t (Suc d) n1" "\<not> is_leaf n1" "sorted1 (inorder n1)" "j \<le> n_keys n1"
      "t \<le> n_keys (children n1 ! j)"
      "\<forall>x \<in> set (take j (keys n1)). x < key" "\<forall>x \<in> set (drop j (keys n1)). key < x"
    for n1 :: "('k, 'v) node" and j
  proof -
    note sh1 = node_ok_shape [OF n1(1)]
    have jl: "j < length (children n1)" using sh1(5) n1(2,4) by simp
    have cok: "subtree_ok t d (children n1 ! j)"
      using node_ok_child [OF n1(1,2) jl] by simp
    have csrt: "sorted1 (inorder (children n1 ! j))"
      by (rule child_sorted [OF sh1(1) n1(3)]) (use jl in simp)
    obtain c' where c': "delete_from_node h (children n1 ! j) key
          = ((if key \<in> fst ` set (inorder (children n1 ! j)) then Inr () else Inl KeyNotFound), c')"
        "inorder c' = del_list key (inorder (children n1 ! j))" "subtree_ok t d c'"
      using ih [OF cok n1(5) csrt, of key] by blast
    define n' where "n' = Node (order n1) (is_leaf n1) (keys n1) (vals n1) ((children n1)[j := c'])"
    have mem: "key \<in> fst ` set (inorder n1) \<longleftrightarrow> key \<in> fst ` set (inorder (children n1 ! j))"
      by (rule descend_member [OF sh1(1) n1(2,3,4,6,7)])
    have io: "inorder n' = del_list key (inorder n1)"
      unfolding n'_def by (rule descend_delete [OF sh1(1) n1(2,3,4,6,7) c'(2)])
    have ok': "node_ok t (Suc d) n'"
      unfolding n'_def by (rule node_ok_child_update [OF n1(1,2)]) (use c'(3) sh1(3) in simp_all)
    show ?thesis
      using c'(1) mem io ok' by (auto simp: n'_def)
  qed
  show ?case
  proof (cases "key \<in> set (keys n)")
    case False
    note b = lower_bounds [OF ks False, folded i_def]
    have il: "i \<le> n_keys n" using lower_le [of "keys n" key] by (simp add: i_def)
    have "\<exists>n1 j. (if n_keys (children n ! i) < t then fill_child n i else Inr n) = Inr n1
            \<and> j = (if i = n_keys n \<and> n_keys n1 < i then i - 1 else i)
            \<and> node_ok t (Suc d) n1 \<and> \<not> is_leaf n1 \<and> inorder n1 = inorder n
            \<and> j \<le> n_keys n1 \<and> t \<le> n_keys (children n1 ! j)
            \<and> (\<forall>x \<in> set (take j (keys n1)). x < key)
            \<and> (\<forall>x \<in> set (drop j (keys n1)). key < x)
            \<and> n_keys n - 1 \<le> n_keys n1"
    proof (cases "n_keys (children n ! i) < t")
      case True
      then show ?thesis
        using fill_child_node [OF ok nl t0 srt nk il True b] by simp
    next
      case nf: False
      then show ?thesis using ok nl il b by auto
    qed
    then obtain n1 j where n1: "(if n_keys (children n ! i) < t then fill_child n i else Inr n) = Inr n1"
        "j = (if i = n_keys n \<and> n_keys n1 < i then i - 1 else i)"
        "node_ok t (Suc d) n1" "\<not> is_leaf n1" "inorder n1 = inorder n"
        "j \<le> n_keys n1" "t \<le> n_keys (children n1 ! j)"
        "\<forall>x \<in> set (take j (keys n1)). x < key" "\<forall>x \<in> set (drop j (keys n1)). key < x"
        "n_keys n - 1 \<le> n_keys n1"
      by blast
    have jl: "\<not> length (children n1) \<le> j"
      using node_ok_shape(5) [OF n1(3,4)] n1(6) by simp
    have unf: "delete_from_node h n key
        = (case delete_from_node h (children n1 ! j) key of
             (rc, c) \<Rightarrow> (rc, Node (order n1) (is_leaf n1) (keys n1) (vals n1)
                               ((children n1)[j := c])))"
      using srch False nl len il n1(1) jl
      by (subst delete_from_node.simps) (simp add: Let_def sh(2) n1(2) [symmetric])
    obtain n' where n': "(case delete_from_node h (children n1 ! j) key of
             (rc, c) \<Rightarrow> (rc, Node (order n1) (is_leaf n1) (keys n1) (vals n1)
                               ((children n1)[j := c])))
        = ((if key \<in> fst ` set (inorder n1) then Inr () else Inl KeyNotFound), n')"
        "inorder n' = del_list key (inorder n1)" "node_ok t (Suc d) n'" "n_keys n' = n_keys n1"
      using descend [OF n1(3,4) _ n1(6,7,8,9)] srt n1(5) by auto
    show ?thesis
      unfolding unf using n' n1(5,10) by auto
  next
    case True
    have i: "i < n_keys n" "keys n ! i = key"
      using lower_found [OF ks True] by (simp_all add: i_def)
    have mem: "key \<in> fst ` set (inorder n)" using True keys_subset_inorder [OF sh(1)] by blast
    have il: "i < length (children n)" "Suc i < length (children n)" using i len by simp_all
    define c where "c = children n ! i"
    define s where "s = children n ! Suc i"
    define v where "v = vals n ! i"
    define B where "B = before n i"
    define R where "R = behind n (Suc i)"
    have seg: "inorder n = B @ inorder c @ (key, v) # inorder s @ R"
      using inorder_segment [OF len sh(3) i(1)] i(2) by (simp add: c_def s_def v_def B_def R_def)
    have cok: "subtree_ok t d c" unfolding c_def using node_ok_child [OF ok nl il(1)] by simp
    have sok: "subtree_ok t d s" unfolding s_def using node_ok_child [OF ok nl il(2)] by simp
    have csrt: "sorted1 (inorder c)" unfolding c_def
      by (rule child_sorted [OF sh(1) srt]) (use il in simp)
    have ssrt: "sorted1 (inorder s)" unfolding s_def
      by (rule child_sorted [OF sh(1) srt]) (use il in simp)
    have "sorted1 ((B @ inorder c) @ (key, v) # (inorder s @ R))" using srt seg by simp
    then have "del_list key ((B @ inorder c) @ (key, v) # (inorder s @ R))
               = (B @ inorder c) @ (inorder s @ R)"
      by (rule del_list_at)
    then have dl: "del_list key (inorder n) = B @ inorder c @ inorder s @ R"
      by (simp add: seg)
    have inter: "delete_from_node h n key = delete_from_internal h n i"
      using srch True nl by (subst delete_from_node.simps) simp
    have shape': "inorder (Node (order n) (is_leaf n) ks' vs' cs')
                  = B @ inorder (cs' ! i) @ (ks' ! i, vs' ! i) # inorder (cs' ! Suc i) @ R"
      if "length ks' = n_keys n" "length vs' = n_keys n" "length cs' = Suc (n_keys n)"
        "take i cs' = take i (children n)" "drop (Suc (Suc i)) cs' = drop (Suc (Suc i)) (children n)"
        "take i (zip ks' vs') = take i (zip (keys n) (vals n))"
        "drop (Suc i) (zip ks' vs') = drop (Suc i) (zip (keys n) (vals n))"
      for ks' vs' cs'
    proof -
      let ?n' = "Node (order n) (is_leaf n) ks' vs' cs'"
      have l: "length (children ?n') = Suc (n_keys ?n')" "length (vals ?n') = n_keys ?n'"
        "i < n_keys ?n'" using that i by simp_all
      have b1: "before ?n' i = B" unfolding B_def
        by (rule before_cong) (use that in simp_all)
      have b2: "behind ?n' (Suc i) = R" unfolding R_def
        by (rule behind_cong) (use that in simp_all)
      show ?thesis using inorder_segment [OF l] b1 b2 by simp
    qed
    consider (pred) "t \<le> n_keys c" | (succ) "\<not> t \<le> n_keys c" "t \<le> n_keys s"
      | (merge) "\<not> t \<le> n_keys c" "\<not> t \<le> n_keys s"
      by blast
    then show ?thesis
    proof cases
      case pred
      note gp = get_predecessor_last [OF t ok nl less_imp_le [OF i(1)], folded c_def]
      define pk where "pk = fst (last (inorder c))"
      define pv where "pv = snd (last (inorder c))"
      have gp': "get_predecessor n i = Inr (pk, pv)" using gp(1) by (simp add: pk_def pv_def)
      have pin: "pk \<in> fst ` set (inorder c)" using gp(2) by (simp add: pk_def)
      obtain c' where c': "delete_from_node h c pk = (Inr (), c')"
          "inorder c' = del_list pk (inorder c)" "subtree_ok t d c'"
        using ih [OF cok pred csrt, of pk] pin by auto
      have bl: "inorder c' = butlast (inorder c)"
        using c'(2) del_list_last [OF csrt gp(2)] by (simp add: pk_def)
      define n' where "n' = Node (order n) (is_leaf n) ((keys n)[i := pk]) ((vals n)[i := pv])
                               ((children n)[i := c'])"
      have r: "delete_from_internal h n i = (Inr (), n')"
        using il pred gp' c'(1)
        by (subst delete_from_internal.simps)
           (simp add: Let_def sh(2) c_def [symmetric] n'_def)
      have "inorder n' = B @ inorder (((children n)[i := c']) ! i)
              @ (((keys n)[i := pk]) ! i, ((vals n)[i := pv]) ! i)
              # inorder (((children n)[i := c']) ! Suc i) @ R"
        unfolding n'_def
        by (rule shape') (use len sh(3) in \<open>simp_all add: zip_update drop_update_cancel\<close>)
      also have "\<dots> = B @ butlast (inorder c) @ (pk, pv) # inorder s @ R"
        using il i sh(3) by (simp add: bl s_def)
      also have "\<dots> = B @ (butlast (inorder c) @ [last (inorder c)]) @ inorder s @ R"
        by (simp add: pk_def pv_def)
      also have "\<dots> = B @ inorder c @ inorder s @ R"
        by (simp only: append_butlast_last_id [OF gp(2)])
      finally have io: "inorder n' = del_list key (inorder n)" by (simp only: dl)
      have ok': "node_ok t (Suc d) n'"
        unfolding n'_def by (rule node_ok_child_update [OF ok nl]) (use c'(3) sh(3) in simp_all)
      have "n_keys n' = n_keys n" by (simp add: n'_def)
      then show ?thesis using inter r io ok' mem by simp
    next
      case succ
      note gs = get_successor_hd [OF t ok nl i(1), folded s_def]
      define sk where "sk = fst (hd (inorder s))"
      define sv where "sv = snd (hd (inorder s))"
      have gs': "get_successor n i = Inr (sk, sv)" using gs(1) by (simp add: sk_def sv_def)
      have sin: "sk \<in> fst ` set (inorder s)" using gs(2) by (simp add: sk_def)
      obtain s' where s': "delete_from_node h s sk = (Inr (), s')"
          "inorder s' = del_list sk (inorder s)" "subtree_ok t d s'"
        using ih [OF sok succ(2) ssrt, of sk] sin by auto
      have tl: "inorder s' = tl (inorder s)"
        using s'(2) del_list_hd [OF gs(2)] by (simp add: sk_def)
      define n' where "n' = Node (order n) (is_leaf n) ((keys n)[i := sk]) ((vals n)[i := sv])
                               ((children n)[Suc i := s'])"
      have r: "delete_from_internal h n i = (Inr (), n')"
        using il succ gs' s'(1)
        by (subst delete_from_internal.simps)
           (simp add: Let_def sh(2) c_def [symmetric] s_def [symmetric] n'_def)
      have "inorder n' = B @ inorder (((children n)[Suc i := s']) ! i)
              @ (((keys n)[i := sk]) ! i, ((vals n)[i := sv]) ! i)
              # inorder (((children n)[Suc i := s']) ! Suc i) @ R"
        unfolding n'_def
        by (rule shape') (use len sh(3) in \<open>simp_all add: zip_update drop_update_cancel\<close>)
      also have "\<dots> = B @ inorder c @ (sk, sv) # tl (inorder s) @ R"
        using il i sh(3) by (simp add: tl c_def)
      also have "\<dots> = B @ inorder c @ (hd (inorder s) # tl (inorder s)) @ R"
        by (simp add: sk_def sv_def)
      also have "\<dots> = B @ inorder c @ inorder s @ R"
        by (simp only: hd_Cons_tl [OF gs(2)])
      finally have io: "inorder n' = del_list key (inorder n)" by (simp only: dl)
      have ok': "node_ok t (Suc d) n'"
        unfolding n'_def by (rule node_ok_child_update [OF ok nl]) (use s'(3) sh(3) in simp_all)
      have "n_keys n' = n_keys n" by (simp add: n'_def)
      then show ?thesis using inter r io ok' mem by simp
    next
      case merge
      have ck: "n_keys c = t - 1" using subtree_ok_shape(5) [OF cok] merge(1) by simp
      have sk: "n_keys s = t - 1" using subtree_ok_shape(5) [OF sok] merge(2) by simp
      obtain n1 where n1: "merge_children n i = Inr n1" "node_ok t (Suc d) n1" "\<not> is_leaf n1"
          "inorder n1 = inorder n" "keys n1 = take i (keys n) @ drop (Suc i) (keys n)"
          "n_keys (children n1 ! i) = 2 * t - 1"
        using merge_children_node [OF ok nl i(1) t0] ck sk by (auto simp: c_def s_def)
      note kb = sorted_keys_bounds [OF ks i(1)]
      have tk: "take i (keys n1) = take i (keys n)" "drop i (keys n1) = drop (Suc i) (keys n)"
        using i(1) by (simp_all add: n1(5))
      have lo: "\<forall>x \<in> set (take i (keys n1)). x < key" using kb(1) i(2) by (simp add: tk)
      have hi: "\<forall>x \<in> set (drop i (keys n1)). key < x" using kb(2) i(2) by (simp add: tk)
      have nk1: "n_keys n1 = n_keys n - 1" using i(1) by (simp add: n1(5))
      have j: "i \<le> n_keys n1" using i(1) nk1 by simp
      have big: "t \<le> n_keys (children n1 ! i)" using n1(6) t by simp
      have jl: "\<not> length (children n1) \<le> i"
        using node_ok_shape(5) [OF n1(2,3)] j by simp
      have r: "delete_from_internal h n i
          = (case delete_from_node h (children n1 ! i) key of
               (rc, c) \<Rightarrow> (rc, Node (order n1) (is_leaf n1) (keys n1) (vals n1)
                                 ((children n1)[i := c])))"
        using il merge n1(1) jl i(2)
        by (subst delete_from_internal.simps)
           (simp add: Let_def sh(2) c_def [symmetric] s_def [symmetric])
      obtain n' where n': "(case delete_from_node h (children n1 ! i) key of
               (rc, c) \<Rightarrow> (rc, Node (order n1) (is_leaf n1) (keys n1) (vals n1)
                                 ((children n1)[i := c])))
          = ((if key \<in> fst ` set (inorder n1) then Inr () else Inl KeyNotFound), n')"
          "inorder n' = del_list key (inorder n1)" "node_ok t (Suc d) n'" "n_keys n' = n_keys n1"
        using descend [OF n1(2,3) _ j big lo hi] srt n1(4) by auto
      show ?thesis
        unfolding inter r using n' n1(4) nk1 by auto
    qed
  qed
qed


section \<open>Deletion at the level of the tree\<close>

lemma btree_inv_node_ok:
  assumes "btree_inv tr"
  shows "node_ok (bt_order tr) (height (bt_root tr)) (bt_root tr)"
  using btree_invD [OF assms] by (simp add: node_ok_def)

lemma inorder_single_child: "inorder (Node ord leaf [] [] [c]) = inorder c"
  by simp

lemma PyBTree_Delete_present:
  assumes th: "total_host h" and inv: "btree_inv tr"
    and mem: "key \<in> fst ` set (inorder (bt_root tr))"
  shows "\<exists>tr'. PyBTree_Delete h tr key = (Inr (), tr') \<and> btree_inv tr'
           \<and> bt_order tr' = bt_order tr
           \<and> inorder (bt_root tr') = del_list key (inorder (bt_root tr))
           \<and> bt_size tr' = bt_size tr - 1"
proof -
  define t where "t = bt_order tr"
  define r where "r = bt_root tr"
  define d where "d = height r"
  note D = btree_invD [OF inv, folded t_def r_def]
  have ok: "node_ok t d r" using btree_inv_node_ok [OF inv] by (simp add: t_def r_def d_def)
  have ne: "inorder r \<noteq> []" using mem by (auto simp: r_def)
  then have sz: "bt_size tr \<noteq> 0" using D(8) by simp
  obtain n' where n': "delete_from_node h r key = (Inr (), n')"
      "inorder n' = del_list key (inorder r)" "node_ok t d n'" "n_keys r - 1 \<le> n_keys n'"
    using delete_from_node_correct [OF th D(1) ok D(7), of key] D(6) mem
    by (auto simp: r_def)
  note sh' = node_ok_shape [OF n'(3)]
  have srt': "sorted1 (inorder n')" unfolding n'(2) by (rule sorted1_del_list [OF D(7)])
  have len': "bt_size tr - 1 = int (length (inorder n'))"
    using D(8) length_del_list [OF D(7), of key] mem ne
    by (simp add: n'(2) r_def [symmetric]) (cases "inorder r"; simp)
  show ?thesis
  proof (cases "n_keys n' = 0 \<and> \<not> is_leaf n'")
    case False
    define tr' where "tr' = tr\<lparr>bt_root := n', bt_size := bt_size tr - 1\<rparr>"
    have res: "PyBTree_Delete h tr key = (Inr (), tr')"
      using sz n'(1) False by (auto simp: PyBTree_Delete_def Let_def r_def [symmetric] tr'_def)
    have "btree_inv tr'"
      by (rule btree_invI [where d = d])
         (use D(1) sh'(1,4,7,8) False srt' len' in \<open>auto simp: tr'_def t_def [symmetric]\<close>)
    then show ?thesis using res n'(2) by (simp add: tr'_def r_def)
  next
    case True
    then have l: "length (children n') = 1" using sh'(5) by simp
    then obtain c where c: "children n' = [c]"
      by (cases "children n'") simp_all
    have cok: "subtree_ok t (d - 1) c" using node_ok_children [OF n'(3)] c by simp
    note csh = subtree_ok_shape [OF cok]
    have "keys n' = []" "vals n' = []" using True sh'(3) by simp_all
    then have ioc: "inorder n' = inorder c" using c by (simp add: inorder_sel [of n'])
    define tr' where "tr' = tr\<lparr>bt_root := c, bt_size := bt_size tr - 1\<rparr>"
    have res: "PyBTree_Delete h tr key = (Inr (), tr')"
      using sz n'(1) True c by (simp add: PyBTree_Delete_def Let_def r_def [symmetric] tr'_def)
    have cne: "n_keys c \<noteq> 0" using csh(5) D(1) by linarith
    have "btree_inv tr'"
      by (rule btree_invI [where d = "d - 1"])
         (use D(1) csh(1,4) cok cne srt' len' ioc in
           \<open>auto simp: tr'_def t_def [symmetric] subtree_ok_def occupancy_sel [of t c]\<close>)
    then show ?thesis using res n'(2) ioc by (simp add: tr'_def r_def)
  qed
qed

lemma PyBTree_Delete_absent:
  assumes th: "total_host h" and inv: "btree_inv tr"
    and mem: "key \<notin> fst ` set (inorder (bt_root tr))"
  shows "\<exists>tr'. PyBTree_Delete h tr key = (Inl KeyNotFound, tr')
           \<and> bt_order tr' = bt_order tr \<and> bt_size tr' = bt_size tr
           \<and> inorder (bt_root tr') = inorder (bt_root tr)
           \<and> well_formed (bt_order tr) (bt_root tr')"
proof (cases "bt_size tr = 0")
  case True
  then show ?thesis using btree_invD(2) [OF inv] by (simp add: PyBTree_Delete_def)
next
  case False
  define t where "t = bt_order tr"
  define r where "r = bt_root tr"
  define d where "d = height r"
  note D = btree_invD [OF inv, folded t_def r_def]
  have ok: "node_ok t d r" using btree_inv_node_ok [OF inv] by (simp add: t_def r_def d_def)
  obtain n' where n': "delete_from_node h r key = (Inl KeyNotFound, n')"
      "inorder n' = del_list key (inorder r)" "node_ok t d n'"
    using delete_from_node_correct [OF th D(1) ok D(7), of key] D(6) mem
    by (auto simp: r_def)
  have "\<forall>x \<in> set (inorder r). fst x \<noteq> key" using mem by (force simp: r_def)
  then have "del_list key (inorder r) = inorder r" by (rule del_list_absent)
  then show ?thesis
    using False n' node_ok_shape(1) [OF n'(3)]
    by (simp add: PyBTree_Delete_def r_def [symmetric] t_def [symmetric])
qed






section \<open>The invariants under the mutations\<close>

lemma insert_pairs_correct:
  assumes th: "total_host h"
  shows "btree_inv tr \<Longrightarrow>
         \<exists>tr'. insert_pairs h tr ps = (Inr (), tr') \<and> btree_inv tr' \<and> bt_order tr' = bt_order tr
           \<and> inorder (bt_root tr') = fold (\<lambda>(k, v). upd_list k v) ps (inorder (bt_root tr))"
proof (induction ps arbitrary: tr)
  case Nil
  then show ?case by simp
next
  case (Cons p ps)
  obtain k v where p: "p = (k, v)" by (cases p)
  obtain tr1 where tr1: "PyBTree_Insert h tr k v = (Inr (), tr1)" "btree_inv tr1"
      "bt_order tr1 = bt_order tr"
      "inorder (bt_root tr1) = upd_list k v (inorder (bt_root tr))"
    using PyBTree_Insert_correct [OF th Cons.prems, of k v] by blast
  from Cons.IH [OF tr1(2)] obtain tr' where
    "insert_pairs h tr1 ps = (Inr (), tr')" "btree_inv tr'" "bt_order tr' = bt_order tr1"
    "inorder (bt_root tr') = fold (\<lambda>(k, v). upd_list k v) ps (inorder (bt_root tr1))"
    by blast
  then show ?case using tr1 p by simp
qed

lemma fold_upd_list_sorted:
  "sorted1 ps \<Longrightarrow> fold (\<lambda>(k, v). upd_list k v) ps [] = ps"
proof (induction ps rule: rev_induct)
  case Nil
  then show ?case by simp
next
  case (snoc p ps)
  obtain k v where p: "p = (k, v)" by (cases p)
  have srt: "sorted1 ps" and gt: "\<forall>x \<in> set ps. fst x < k"
    using snoc.prems p by (auto simp: sorted_wrt_append)
  have "upd_list k v (ps @ []) = ps @ (k, v) # []"
    by (rule upd_list_absent) (use gt in simp_all)
  then show ?case using snoc.IH [OF srt] p by simp
qed

lemma btree_inv_empty:
  "2 \<le> t \<Longrightarrow> btree_inv \<lparr>bt_root = Node t True [] [] [], bt_size = 0, bt_order = t\<rparr>"
  by (simp add: btree_inv_def)

lemma btreenode_new_order:
  assumes "2 \<le> t" "int t \<le> 1073741824"
  shows "(btreenode_new (int t) True :: error + ('k, 'v) node) = Inr (Node t True [] [] [])"
  using assms by (simp add: btreenode_new_leaf)

lemma PyBTree_New_order:
  assumes "2 \<le> t" "int t \<le> 1073741824"
  shows "(PyBTree_New (int t) :: error + ('k, 'v) PyBTreeObject)
         = Inr \<lparr>bt_root = Node t True [] [] [], bt_size = 0, bt_order = t\<rparr>"
proof -
  have "c_int (int t) = int t" using assms by (intro c_int_id) simp_all
  then show ?thesis
    using assms by (simp add: PyBTree_New_def Let_def BTREE_MIN_ORDER_def btreenode_new_order)
qed

text \<open>
  Claim C1, which the code does not meet after a deletion that fails. What it does
  guarantee, for a tree that satisfies the invariants and a host whose primitives never
  fail and agree with the order of the keys: an insertion and an update succeed and the
  invariants hold after them; they hold after a deletion that succeeds; and, when the
  order is at most \<open>2^30\<close>, \<^verbatim>\<open>PyBTree_Clear\<close> gives the empty tree of the same order and
  \<^verbatim>\<open>btree_copy\<close> a tree with the same items, and the invariants hold for both.
\<close>

theorem invariants_spec:
  assumes "host_order h" and "btree_inv btree"
  shows "(\<exists>btree'. PyBTree_Insert h btree key val = (Inr (), btree') \<and> btree_inv btree')
       \<and> (\<exists>btree'. btree_update h btree pairs = (Inr (), btree') \<and> btree_inv btree')
       \<and> (\<forall>btree'. PyBTree_Delete h btree key = (Inr (), btree') \<longrightarrow> btree_inv btree')
       \<and> (int (bt_order btree) \<le> 1073741824 \<longrightarrow>
            (\<exists>btree'. PyBTree_Clear btree = Inr btree' \<and> btree_inv btree'
                     \<and> bt_size btree' = 0 \<and> bt_order btree' = bt_order btree)
            \<and> (\<exists>btree'. btree_copy h btree = Inr btree' \<and> btree_inv btree'
                     \<and> bt_size btree' = bt_size btree
                     \<and> PyBTree_Items btree' = PyBTree_Items btree))"
proof -
  have th: "total_host h" using assms(1) by (rule host_order_total_host)
  note D = btree_invD [OF assms(2)]
  have ins: "\<exists>btree'. PyBTree_Insert h btree key val = (Inr (), btree') \<and> btree_inv btree'"
    using PyBTree_Insert_correct [OF th assms(2), of key val] by blast
  have upd: "\<exists>btree'. btree_update h btree pairs = (Inr (), btree') \<and> btree_inv btree'"
    using insert_pairs_correct [OF th assms(2), of pairs] by (auto simp: btree_update_def)
  have del: "btree_inv btree'" if d: "PyBTree_Delete h btree key = (Inr (), btree')" for btree'
  proof (cases "key \<in> fst ` set (inorder (bt_root btree))")
    case True
    then show ?thesis using PyBTree_Delete_present [OF th assms(2) True] d by auto
  next
    case False
    then show ?thesis using PyBTree_Delete_absent [OF th assms(2) False] d by auto
  qed
  have clr: "\<exists>btree'. PyBTree_Clear btree = Inr btree' \<and> btree_inv btree'
                     \<and> bt_size btree' = 0 \<and> bt_order btree' = bt_order btree"
    if b: "int (bt_order btree) \<le> 1073741824"
  proof -
    have "PyBTree_Clear btree = Inr (btree\<lparr>bt_root := Node (bt_order btree) True [] [] [], bt_size := 0\<rparr>)"
      using D(1) b by (simp add: PyBTree_Clear_def btree_clear_internal_def btreenode_new_order)
    moreover have "btree_inv (btree\<lparr>bt_root := Node (bt_order btree) True [] [] [], bt_size := 0\<rparr>)"
      using D(1) by (simp add: btree_inv_def)
    ultimately show ?thesis by simp
  qed
  have cpy: "\<exists>btree'. btree_copy h btree = Inr btree' \<and> btree_inv btree'
                     \<and> bt_size btree' = bt_size btree
                     \<and> PyBTree_Items btree' = PyBTree_Items btree"
    if b: "int (bt_order btree) \<le> 1073741824"
  proof -
    let ?e = "\<lparr>bt_root = Node (bt_order btree) True [] [] [], bt_size = 0, bt_order = bt_order btree\<rparr>"
    have new: "PyBTree_New (int (bt_order btree)) = Inr ?e"
      by (rule PyBTree_New_order [OF D(1) b])
    have einv: "btree_inv ?e" by (rule btree_inv_empty [OF D(1)])
    have it: "PyBTree_Items btree = inorder (bt_root btree)"
      by (rule PyBTree_Items_correct [OF assms(2)])
    obtain tr' where tr': "insert_pairs h ?e (inorder (bt_root btree)) = (Inr (), tr')"
        "btree_inv tr'"
        "inorder (bt_root tr') = fold (\<lambda>(k, v). upd_list k v) (inorder (bt_root btree)) (inorder (bt_root ?e))"
      using insert_pairs_correct [OF th einv, of "inorder (bt_root btree)"] by blast
    have io: "inorder (bt_root tr') = inorder (bt_root btree)"
      using tr'(3) fold_upd_list_sorted [OF D(7)] by simp
    have "btree_copy h btree = Inr tr'"
      by (simp add: btree_copy_def it new tr'(1))
    moreover have "PyBTree_Items tr' = PyBTree_Items btree"
      using PyBTree_Items_correct [OF tr'(2)] io it by simp
    moreover have "bt_size tr' = bt_size btree"
      using btree_invD(8) [OF tr'(2)] D(8) io by simp
    ultimately show ?thesis using tr'(2) by blast
  qed
  show ?thesis using ins upd del clr cpy by blast
qed

theorem invariants_spec_witness:
  "btree_inv \<lparr>bt_root = Node 2 False [2::nat] [20]
                 [Node 2 True [1] [10] [], Node 2 True [3, 4] [30, 40 :: nat] []],
              bt_size = 4, bt_order = 2\<rparr>
   \<and> (\<exists>btree'. PyBTree_Insert float_host
          \<lparr>bt_root = Node 2 False [2] [20]
                 [Node 2 True [1] [10] [], Node 2 True [3, 4] [30, 40 :: nat] []],
              bt_size = 4, bt_order = 2\<rparr> 4 50 = (Inr (), btree') \<and> btree_inv btree')
   \<and> btree_inv \<lparr>bt_root = Node 2 False [2::nat] [20]
                 [Node 2 True [1] [10] [], Node 2 True [3] [30 :: nat] []],
              bt_size = 3, bt_order = 2\<rparr>"
proof -
  let ?T = "\<lparr>bt_root = Node 2 False [2::nat] [20]
                 [Node 2 True [1] [10] [], Node 2 True [3, 4] [30, 40 :: nat] []],
              bt_size = 4, bt_order = 2\<rparr>"
  let ?T' = "\<lparr>bt_root = Node 2 False [2::nat] [20]
                 [Node 2 True [1] [10] [], Node 2 True [3] [30 :: nat] []],
              bt_size = 3, bt_order = 2\<rparr>"
  have inv: "btree_inv ?T" by code_simp
  have del: "PyBTree_Delete float_host ?T 4 = (Inr (), ?T')" by code_simp
  show ?thesis
    using invariants_spec [OF host_order_float_host inv, of 4 50 "[]"] inv del by auto
qed

text \<open>
  Claim C1 fails after a deletion that fails. In the tree of order 2 made by inserting 1,
  2, 3, 4 and deleting 4, the root holds 2 above the leaves 1 and 3. Deleting the absent
  key 5 merges the two leaves with the key of the root before the key is looked for in
  them, and \<^verbatim>\<open>PyBTree_Delete\<close> returns the failure before it would replace a root without
  keys by its only child: the tree is left with 3 pairs under an internal root that
  holds no key.
\<close>

theorem failed_delete_breaks_invariants:
  "(case PyBTree_New 2 of
      Inl e \<Rightarrow> None
    | Inr b0 \<Rightarrow>
        (case insert_pairs nat_host b0 [(1, 10), (2, 20), (3, 30), (4, 40 :: nat)] of
           (r1, b1) \<Rightarrow>
             (case PyBTree_Delete nat_host b1 4 of
                (r2, b2) \<Rightarrow> Some (r1, r2, b2, btree_inv b2, PyBTree_Delete nat_host b2 5))))
   = Some (Inr (), Inr (),
        \<lparr>bt_root = Node 2 False [2] [20] [Node 2 True [1] [10] [], Node 2 True [3] [30] []],
         bt_size = 3, bt_order = 2\<rparr>,
        True,
        Inl KeyNotFound,
        \<lparr>bt_root = Node 2 False [] [] [Node 2 True [1, 2, 3] [10, 20, 30] []],
         bt_size = 3, bt_order = 2\<rparr>)
   \<and> btree_inv \<lparr>bt_root = Node 2 False [] [] [Node 2 True [1::nat, 2, 3] [10, 20, 30 :: nat] []],
         bt_size = 3, bt_order = 2\<rparr> = False"
  by code_simp


section \<open>The items at the two ends\<close>

lemma leftmost_leaf_root:
  assumes t: "2 \<le> t" and ok: "node_ok t d r" and nk: "0 < n_keys r"
  shows "\<exists>l. leftmost_leaf r = Inr l \<and> 0 < n_keys l \<and> length (vals l) = n_keys l
              \<and> inorder r \<noteq> [] \<and> hd (inorder r) = (keys l ! 0, vals l ! 0)"
proof (cases "is_leaf r")
  case True
  note sh = node_ok_shape [OF ok]
  have io: "inorder r = zip (keys r) (vals r)" by (rule well_formed_leaf_inorder [OF sh(1) True])
  have ne: "zip (keys r) (vals r) \<noteq> []" using nk sh(3) by (cases "keys r"; cases "vals r") auto
  have "hd (zip (keys r) (vals r)) = (keys r ! 0, vals r ! 0)"
    using nk sh(3) by (simp add: hd_conv_nth [OF ne])
  then show ?thesis using True nk sh(3) io ne by (subst leftmost_leaf.simps) simp
next
  case False
  note sh = node_ok_shape [OF ok]
  have len: "length (children r) = Suc (n_keys r)" using sh(5) False by simp
  have "subtree_ok t (d - 1) (children r ! 0)"
    by (rule node_ok_child [OF ok False]) (use len in simp)
  from leftmost_leaf_hd [OF t this] obtain l where l: "leftmost_leaf (children r ! 0) = Inr l"
      "0 < n_keys l" "length (vals l) = n_keys l" "inorder (children r ! 0) \<noteq> []"
      "hd (inorder (children r ! 0)) = (keys l ! 0, vals l ! 0)"
    by blast
  have io: "inorder r = inorder (children r ! 0) @ behind r 0"
    using inorder_shape [OF len sh(3), of 0] by simp
  have "leftmost_leaf r = Inr l" using False len l(1) by (subst leftmost_leaf.simps) simp
  then show ?thesis using l io by simp
qed

lemma rightmost_leaf_root:
  assumes t: "2 \<le> t" and ok: "node_ok t d r" and nk: "0 < n_keys r"
  shows "\<exists>l. rightmost_leaf r = Inr l \<and> 0 < n_keys l \<and> length (vals l) = n_keys l
              \<and> inorder r \<noteq> []
              \<and> last (inorder r) = (keys l ! (n_keys l - 1), vals l ! (n_keys l - 1))"
proof (cases "is_leaf r")
  case True
  note sh = node_ok_shape [OF ok]
  have io: "inorder r = zip (keys r) (vals r)" by (rule well_formed_leaf_inorder [OF sh(1) True])
  have ne: "zip (keys r) (vals r) \<noteq> []" using nk sh(3) by (cases "keys r"; cases "vals r") auto
  have "last (zip (keys r) (vals r)) = (keys r ! (n_keys r - 1), vals r ! (n_keys r - 1))"
    using nk sh(3) by (simp add: last_conv_nth [OF ne])
  then show ?thesis using True nk sh(3) io ne by (subst rightmost_leaf.simps) simp
next
  case False
  note sh = node_ok_shape [OF ok]
  have len: "length (children r) = Suc (n_keys r)" using sh(5) False by simp
  have "subtree_ok t (d - 1) (children r ! n_keys r)"
    by (rule node_ok_child [OF ok False]) (use len in simp)
  from rightmost_leaf_last [OF t this] obtain l where
    l: "rightmost_leaf (children r ! n_keys r) = Inr l"
      "0 < n_keys l" "length (vals l) = n_keys l" "inorder (children r ! n_keys r) \<noteq> []"
      "last (inorder (children r ! n_keys r))
         = (keys l ! (n_keys l - 1), vals l ! (n_keys l - 1))"
    by blast
  have io: "inorder r = before r (n_keys r) @ inorder (children r ! n_keys r)"
    using inorder_shape [OF len sh(3), of "n_keys r"] behind_last [OF sh(3)] by simp
  have "rightmost_leaf r = Inr l" using False len l(1) by (subst rightmost_leaf.simps) simp
  then show ?thesis using l io by simp
qed

lemma map_of_hd: "sorted1 ps \<Longrightarrow> ps \<noteq> [] \<Longrightarrow> map_of ps (fst (hd ps)) = Some (snd (hd ps))"
  by (cases ps) auto

lemma map_of_last:
  assumes "sorted1 ps" "ps \<noteq> []"
  shows "map_of ps (fst (last ps)) = Some (snd (last ps))"
proof -
  have "sorted1 (butlast ps @ (fst (last ps), snd (last ps)) # [])" using assms by simp
  then have "map_of (butlast ps @ (fst (last ps), snd (last ps)) # []) (fst (last ps))
             = Some (snd (last ps))"
    by (rule map_of_at)
  then show ?thesis using assms(2) by simp
qed

lemma ends_of_tree:
  assumes inv: "btree_inv tr" and sz: "bt_size tr \<noteq> 0"
  shows "PyBTree_Items tr \<noteq> []"
    and "\<exists>l. leftmost_leaf (bt_root tr) = Inr l \<and> 0 < n_keys l \<and> length (vals l) = n_keys l
            \<and> hd (PyBTree_Items tr) = (keys l ! 0, vals l ! 0)"
    and "\<exists>l. rightmost_leaf (bt_root tr) = Inr l \<and> 0 < n_keys l \<and> length (vals l) = n_keys l
            \<and> last (PyBTree_Items tr) = (keys l ! (n_keys l - 1), vals l ! (n_keys l - 1))"
    and "0 < n_keys (bt_root tr)"
proof -
  note D = btree_invD [OF inv]
  have it: "PyBTree_Items tr = inorder (bt_root tr)" by (rule PyBTree_Items_correct [OF inv])
  show nk: "0 < n_keys (bt_root tr)" using inv sz by (auto simp: btree_inv_def)
  note ok = btree_inv_node_ok [OF inv]
  show "PyBTree_Items tr \<noteq> []" using D(8) sz it by auto
  show "\<exists>l. leftmost_leaf (bt_root tr) = Inr l \<and> 0 < n_keys l \<and> length (vals l) = n_keys l
            \<and> hd (PyBTree_Items tr) = (keys l ! 0, vals l ! 0)"
    using leftmost_leaf_root [OF D(1) ok nk] it by auto
  show "\<exists>l. rightmost_leaf (bt_root tr) = Inr l \<and> 0 < n_keys l \<and> length (vals l) = n_keys l
            \<and> last (PyBTree_Items tr) = (keys l ! (n_keys l - 1), vals l ! (n_keys l - 1))"
    using rightmost_leaf_root [OF D(1) ok nk] it by auto
qed

lemma btree_peekitem_correct:
  assumes inv: "btree_inv tr" and sz: "bt_size tr \<noteq> 0" and p: "parse_index arg = Inr index"
  shows "btree_peekitem tr arg =
           (if index = 0 then Inr (hd (PyBTree_Items tr))
            else if index = - 1 \<or> index = bt_size tr - 1 then Inr (last (PyBTree_Items tr))
            else Inl IndexUnsupported)"
proof -
  note E = ends_of_tree [OF inv sz]
  obtain l where l: "leftmost_leaf (bt_root tr) = Inr l" "0 < n_keys l"
      "length (vals l) = n_keys l" "hd (PyBTree_Items tr) = (keys l ! 0, vals l ! 0)"
    using E(2) by blast
  obtain m where m: "rightmost_leaf (bt_root tr) = Inr m" "0 < n_keys m"
      "length (vals m) = n_keys m"
      "last (PyBTree_Items tr) = (keys m ! (n_keys m - 1), vals m ! (n_keys m - 1))"
    using E(3) by blast
  have "vals l \<noteq> []" using l(2,3) by auto
  then show ?thesis
    using sz p l m by (simp add: btree_peekitem_def)
qed

lemma btree_popitem_first:
  assumes th: "total_host h" and inv: "btree_inv tr" and sz: "bt_size tr \<noteq> 0"
    and p: "parse_index arg = Inr 0"
  shows "\<exists>tr'. btree_popitem h tr arg = (Inr (hd (PyBTree_Items tr)), tr')
           \<and> PyBTree_Items tr' = tl (PyBTree_Items tr) \<and> bt_size tr' = bt_size tr - 1
           \<and> btree_inv tr'"
proof -
  note D = btree_invD [OF inv] and E = ends_of_tree [OF inv sz]
  have it: "PyBTree_Items tr = inorder (bt_root tr)" by (rule PyBTree_Items_correct [OF inv])
  obtain l where l: "leftmost_leaf (bt_root tr) = Inr l" "0 < n_keys l"
      "length (vals l) = n_keys l" "hd (PyBTree_Items tr) = (keys l ! 0, vals l ! 0)"
    using E(2) by blast
  define k where "k = fst (hd (PyBTree_Items tr))"
  define v where "v = snd (hd (PyBTree_Items tr))"
  have kv: "hd (PyBTree_Items tr) = (k, v)" by (simp add: k_def v_def)
  have gm: "PyBTree_GetMin tr = Inr (Some k)"
    using E(4) l by (simp add: PyBTree_GetMin_def get_min_from_node_def k_def)
  have s: "PyBTree_Search h tr k = Inr (Some v)"
    using PyBTree_Search_correct [OF th inv, of k] map_of_hd [OF D(7)] E(1) it
    by (simp add: k_def v_def)
  have mem: "k \<in> fst ` set (inorder (bt_root tr))"
    using E(1) it by (simp add: k_def)
  obtain tr' where tr': "PyBTree_Delete h tr k = (Inr (), tr')" "btree_inv tr'"
      "inorder (bt_root tr') = del_list k (inorder (bt_root tr))" "bt_size tr' = bt_size tr - 1"
    using PyBTree_Delete_present [OF th inv mem] by blast
  have "PyBTree_Items tr' = tl (PyBTree_Items tr)"
    using PyBTree_Items_correct [OF tr'(2)] tr'(3) del_list_hd [of "inorder (bt_root tr)"] E(1) it
    by (simp add: k_def)
  moreover have "btree_popitem h tr arg = (Inr (k, v), tr')"
    using sz p gm s tr'(1) by (simp add: btree_popitem_def)
  ultimately show ?thesis using tr'(2,4) kv by simp
qed

lemma btree_popitem_last:
  assumes th: "total_host h" and inv: "btree_inv tr" and sz: "bt_size tr \<noteq> 0"
    and p: "parse_index arg = Inr index" and i0: "index \<noteq> 0"
    and i: "index = - 1 \<or> index = bt_size tr - 1"
  shows "\<exists>tr'. btree_popitem h tr arg = (Inr (last (PyBTree_Items tr)), tr')
           \<and> PyBTree_Items tr' = butlast (PyBTree_Items tr) \<and> bt_size tr' = bt_size tr - 1
           \<and> btree_inv tr'"
proof -
  note D = btree_invD [OF inv] and E = ends_of_tree [OF inv sz]
  have it: "PyBTree_Items tr = inorder (bt_root tr)" by (rule PyBTree_Items_correct [OF inv])
  obtain m where m: "rightmost_leaf (bt_root tr) = Inr m" "0 < n_keys m"
      "length (vals m) = n_keys m"
      "last (PyBTree_Items tr) = (keys m ! (n_keys m - 1), vals m ! (n_keys m - 1))"
    using E(3) by blast
  define k where "k = fst (last (PyBTree_Items tr))"
  define v where "v = snd (last (PyBTree_Items tr))"
  have kv: "last (PyBTree_Items tr) = (k, v)" by (simp add: k_def v_def)
  have gm: "PyBTree_GetMax tr = Inr (Some k)"
    using E(4) m by (simp add: PyBTree_GetMax_def get_max_from_node_def k_def)
  have s: "PyBTree_Search h tr k = Inr (Some v)"
    using PyBTree_Search_correct [OF th inv, of k] map_of_last [OF D(7)] E(1) it
    by (simp add: k_def v_def)
  have mem: "k \<in> fst ` set (inorder (bt_root tr))"
    using E(1) it by (simp add: k_def)
  obtain tr' where tr': "PyBTree_Delete h tr k = (Inr (), tr')" "btree_inv tr'"
      "inorder (bt_root tr') = del_list k (inorder (bt_root tr))" "bt_size tr' = bt_size tr - 1"
    using PyBTree_Delete_present [OF th inv mem] by blast
  have "PyBTree_Items tr' = butlast (PyBTree_Items tr)"
    using PyBTree_Items_correct [OF tr'(2)] tr'(3) del_list_last [OF D(7)] E(1) it
    by (simp add: k_def)
  moreover have "btree_popitem h tr arg = (Inr (k, v), tr')"
    using sz p gm s tr'(1) i0 i by (simp add: btree_popitem_def)
  ultimately show ?thesis using tr'(2,4) kv by simp
qed

text \<open>
  Claim C8, as amended. On a tree that satisfies the invariants, with a host whose
  primitives never fail and agree with the order of the keys. An index outside the range
  of \<^verbatim>\<open>Py_ssize_t\<close> fails with \<open>Overflow\<close> in both functions. For an index within it, \<open>-1\<close>
  when none is given: on an empty tree \<^verbatim>\<open>btree_peekitem\<close> fails with \<open>IndexEmpty\<close> and
  \<^verbatim>\<open>btree_popitem\<close> with \<open>KeyNotFound\<close>, whatever the index; on a tree that is not empty
  the index 0 gives the first item, the indices \<open>-1\<close> and \<open>size - 1\<close> give the last item,
  and every other index fails with \<open>IndexUnsupported\<close>; \<^verbatim>\<open>btree_popitem\<close> removes the item
  it returns, and a call that fails leaves the tree as it was.
\<close>

theorem peek_pop_spec:
  assumes "host_order h" and "btree_inv btree"
  shows "(parse_index arg = Inl Overflow \<longrightarrow>
            btree_peekitem btree arg = Inl Overflow
            \<and> btree_popitem h btree arg = (Inl Overflow, btree))
       \<and> (parse_index arg = Inr index \<and> bt_size btree = 0 \<longrightarrow>
            btree_peekitem btree arg = Inl IndexEmpty
            \<and> btree_popitem h btree arg = (Inl KeyNotFound, btree))
       \<and> (parse_index arg = Inr index \<and> bt_size btree \<noteq> 0 \<and> index = 0 \<longrightarrow>
            btree_peekitem btree arg = Inr (hd (PyBTree_Items btree))
            \<and> (\<exists>btree'. btree_popitem h btree arg = (Inr (hd (PyBTree_Items btree)), btree')
                  \<and> PyBTree_Items btree' = tl (PyBTree_Items btree)
                  \<and> bt_size btree' = bt_size btree - 1 \<and> btree_inv btree'))
       \<and> (parse_index arg = Inr index \<and> bt_size btree \<noteq> 0 \<and> index \<noteq> 0
            \<and> (index = - 1 \<or> index = bt_size btree - 1) \<longrightarrow>
            btree_peekitem btree arg = Inr (last (PyBTree_Items btree))
            \<and> (\<exists>btree'. btree_popitem h btree arg = (Inr (last (PyBTree_Items btree)), btree')
                  \<and> PyBTree_Items btree' = butlast (PyBTree_Items btree)
                  \<and> bt_size btree' = bt_size btree - 1 \<and> btree_inv btree'))
       \<and> (parse_index arg = Inr index \<and> bt_size btree \<noteq> 0 \<and> index \<noteq> 0
            \<and> index \<noteq> - 1 \<and> index \<noteq> bt_size btree - 1 \<longrightarrow>
            btree_peekitem btree arg = Inl IndexUnsupported
            \<and> btree_popitem h btree arg = (Inl IndexUnsupported, btree))"
proof -
  have th: "total_host h" using assms(1) by (rule host_order_total_host)
  have a: "btree_peekitem btree arg = Inl Overflow
           \<and> btree_popitem h btree arg = (Inl Overflow, btree)"
    if "parse_index arg = Inl Overflow"
    using that by (simp add: btree_peekitem_def btree_popitem_def)
  have b: "btree_peekitem btree arg = Inl IndexEmpty
           \<and> btree_popitem h btree arg = (Inl KeyNotFound, btree)"
    if "parse_index arg = Inr index" "bt_size btree = 0"
    using that by (simp add: btree_peekitem_def btree_popitem_def)
  have c: "btree_peekitem btree arg = Inr (hd (PyBTree_Items btree))
            \<and> (\<exists>btree'. btree_popitem h btree arg = (Inr (hd (PyBTree_Items btree)), btree')
                  \<and> PyBTree_Items btree' = tl (PyBTree_Items btree)
                  \<and> bt_size btree' = bt_size btree - 1 \<and> btree_inv btree')"
    if "parse_index arg = Inr index" "bt_size btree \<noteq> 0" "index = 0"
    using that btree_peekitem_correct [OF assms(2) that(2,1)]
      btree_popitem_first [OF th assms(2) that(2), of arg] by simp
  have d: "btree_peekitem btree arg = Inr (last (PyBTree_Items btree))
            \<and> (\<exists>btree'. btree_popitem h btree arg = (Inr (last (PyBTree_Items btree)), btree')
                  \<and> PyBTree_Items btree' = butlast (PyBTree_Items btree)
                  \<and> bt_size btree' = bt_size btree - 1 \<and> btree_inv btree')"
    if "parse_index arg = Inr index" "bt_size btree \<noteq> 0" "index \<noteq> 0"
      "index = - 1 \<or> index = bt_size btree - 1"
    using that btree_peekitem_correct [OF assms(2) that(2,1)]
      btree_popitem_last [OF th assms(2) that(2,1,3,4)] by simp
  have e: "btree_peekitem btree arg = Inl IndexUnsupported
            \<and> btree_popitem h btree arg = (Inl IndexUnsupported, btree)"
    if "parse_index arg = Inr index" "bt_size btree \<noteq> 0" "index \<noteq> 0"
      "index \<noteq> - 1" "index \<noteq> bt_size btree - 1"
    using that btree_peekitem_correct [OF assms(2) that(2,1)]
    by (simp add: btree_popitem_def)
  show ?thesis using a b c d e by blast
qed

theorem peek_pop_spec_witness:
  "btree_inv \<lparr>bt_root = Node 2 False [2::nat] [20]
                 [Node 2 True [1] [10] [], Node 2 True [3, 4] [30, 40 :: nat] []],
              bt_size = 4, bt_order = 2\<rparr>
   \<and> btree_peekitem \<lparr>bt_root = Node 2 False [2::nat] [20]
                 [Node 2 True [1] [10] [], Node 2 True [3, 4] [30, 40 :: nat] []],
              bt_size = 4, bt_order = 2\<rparr> (Some 3) = Inr (4, 40)
   \<and> (\<exists>btree'. btree_popitem object_host \<lparr>bt_root = Node 2 False [2::nat] [20]
                 [Node 2 True [1] [10] [], Node 2 True [3, 4] [30, 40 :: nat] []],
              bt_size = 4, bt_order = 2\<rparr> (Some 3) = (Inr (4, 40), btree')
         \<and> PyBTree_Items btree' = [(1, 10), (2, 20), (3, 30)] \<and> bt_size btree' = 3)"
proof -
  let ?T = "\<lparr>bt_root = Node 2 False [2::nat] [20]
                 [Node 2 True [1] [10] [], Node 2 True [3, 4] [30, 40 :: nat] []],
              bt_size = 4, bt_order = 2\<rparr>"
  have inv: "btree_inv ?T" by code_simp
  have p: "parse_index (Some 3) = Inr 3" by (simp add: parse_index_def)
  have i: "PyBTree_Items ?T = [(1, 10), (2, 20), (3, 30), (4, 40)]" by code_simp
  show ?thesis
    using peek_pop_spec [OF host_order_object_host inv, of "Some 3" 3] inv p unfolding i by auto
qed

text \<open>
  Claim C8 as stated fails for an index that is not a \<^verbatim>\<open>Py_ssize_t\<close>: the index \<open>2^63\<close> on
  a tree with one item is refused with \<open>Overflow\<close>, not \<open>IndexUnsupported\<close>. And on an empty
  tree an index that is not supported fails with \<open>IndexEmpty\<close> and \<open>KeyNotFound\<close>.
\<close>

theorem peekitem_index_counterexample:
  "btree_peekitem \<lparr>bt_root = Node 2 True [1::nat] [10::nat] [], bt_size = 1, bt_order = 2\<rparr>
      (Some 9223372036854775808) = Inl Overflow
   \<and> btree_popitem nat_host
        \<lparr>bt_root = Node 2 True [1::nat] [10::nat] [], bt_size = 1, bt_order = 2\<rparr>
        (Some 9223372036854775808)
      = (Inl Overflow, \<lparr>bt_root = Node 2 True [1] [10] [], bt_size = 1, bt_order = 2\<rparr>)
   \<and> btree_peekitem \<lparr>bt_root = Node 2 True ([]::nat list) ([]::nat list) [], bt_size = 0,
                         bt_order = 2\<rparr> (Some 5) = Inl IndexEmpty
   \<and> btree_popitem nat_host
        \<lparr>bt_root = Node 2 True ([]::nat list) ([]::nat list) [], bt_size = 0, bt_order = 2\<rparr>
        (Some 5)
      = (Inl KeyNotFound, \<lparr>bt_root = Node 2 True [] [] [], bt_size = 0, bt_order = 2\<rparr>)"
  by (simp add: btree_peekitem_def btree_popitem_def parse_index_def)

end
